(* ===== verification/Prelude.thy ===== *)
theory Prelude
  imports "HOL-Library.Word"
begin

text \<open>
  Shared ground of the development: the faults a C program can run into, results that are
  either a fault or a value, the loop combinator that stops at the first fault, C's integer
  arithmetic, and the generic lemmas the components' proofs use.
\<close>

unbundle bit_operations_syntax

section \<open>Proof collections\<close>

named_theorems res_simps \<open>equations that evaluate results and their sequencing\<close>
named_theorems wf_intros \<open>introduction rules for well-formedness invariants\<close>

section \<open>Machine integers\<close>

type_synonym i32 = "32 word"
type_synonym u64 = "64 word"

abbreviation int_min :: int where "int_min \<equiv> - (2 ^ 31)"
abbreviation int_max :: int where "int_max \<equiv> 2 ^ 31 - 1"

section \<open>Faults and results\<close>

text \<open>
  Every way the modelled code stops other than by returning. \<open>OutOfBounds\<close> is an access
  outside the object (array, buffer, mapping); \<open>SignedOverflow\<close> is C's undefined signed
  arithmetic; \<open>Exit_failure\<close> is \<open>exit(EXIT_FAILURE)\<close>; \<open>Blocked\<close> is a call that never
  returns because the data it waits for never comes; \<open>Deadlock\<close> is a spin lock taken twice.
\<close>

datatype fault =
    NullDeref
  | UseAfterFree
  | OutOfBounds
  | SignedOverflow
  | RefUnderflow
  | Exit_failure
  | Blocked
  | Deadlock

type_synonym 'a res = "fault + 'a"

definition rbind :: "'a res \<Rightarrow> ('a \<Rightarrow> 'b res) \<Rightarrow> 'b res" where
  "rbind m f = (case m of Inl e \<Rightarrow> Inl e | Inr x \<Rightarrow> f x)"

lemma rbind_simps [simp, res_simps]:
  "rbind (Inl e) f = Inl e"
  "rbind (Inr x) f = f x"
  by (simp_all add: rbind_def)

lemma rbind_eq_Inr [res_simps]:
  "rbind m f = Inr y \<longleftrightarrow> (\<exists>x. m = Inr x \<and> f x = Inr y)"
  by (cases m) simp_all

lemma rbind_eq_Inl [res_simps]:
  "rbind m f = Inl e \<longleftrightarrow> m = Inl e \<or> (\<exists>x. m = Inr x \<and> f x = Inl e)"
  by (cases m) simp_all

lemma rbind_assoc: "rbind (rbind m f) g = rbind m (\<lambda>x. rbind (f x) g)"
  by (cases m) simp_all

lemma rbind_cong [fundef_cong]:
  "m = m' \<Longrightarrow> (\<And>x. m' = Inr x \<Longrightarrow> f x = g x) \<Longrightarrow> rbind m f = rbind m' g"
  by (cases m') simp_all

text \<open>A guard: fault unless the condition holds.\<close>

definition require :: "fault \<Rightarrow> bool \<Rightarrow> unit res" where
  "require e b = (if b then Inr () else Inl e)"

lemma require_simps [simp, res_simps]:
  "require e True = Inr ()"
  "require e False = Inl e"
  by (simp_all add: require_def)

lemma require_eq_Inr [simp, res_simps]: "require e b = Inr u \<longleftrightarrow> b"
  by (simp add: require_def)

lemma require_eq_Inl [simp, res_simps]: "require e b = Inl e' \<longleftrightarrow> \<not> b \<and> e' = e"
  by (auto simp: require_def)

section \<open>Results of loops that may not end\<close>

definition run_bind :: "'a res option \<Rightarrow> ('a \<Rightarrow> 'b res option) \<Rightarrow> 'b res option" where
  "run_bind m f = (case m of None \<Rightarrow> None | Some (Inl e) \<Rightarrow> Some (Inl e) | Some (Inr x) \<Rightarrow> f x)"

lemma run_bind_simps [simp]:
  "run_bind None f = None"
  "run_bind (Some (Inl e)) f = Some (Inl e)"
  "run_bind (Some (Inr x)) f = f x"
  by (simp_all add: run_bind_def)

section \<open>Loops that stop at the first fault\<close>

fun iter_res :: "('a \<Rightarrow> 's \<Rightarrow> 's res) \<Rightarrow> 'a list \<Rightarrow> 's \<Rightarrow> 's res" where
  "iter_res f [] s = Inr s"
| "iter_res f (x # xs) s = rbind (f x s) (iter_res f xs)"

lemma iter_res_append:
  "iter_res f (xs @ ys) s = rbind (iter_res f xs s) (iter_res f ys)"
proof (induction xs arbitrary: s)
  case (Cons x xs)
  then show ?case by (cases "f x s") simp_all
qed simp

text \<open>An invariant kept by every successful iteration holds after a successful loop.\<close>

lemma iter_res_inv:
  assumes "iter_res f xs s = Inr t" and "I s"
    and "\<And>x s s'. x \<in> set xs \<Longrightarrow> I s \<Longrightarrow> f x s = Inr s' \<Longrightarrow> I s'"
  shows "I t"
  using assms
proof (induction xs arbitrary: s)
  case Nil
  then show ?case by simp
next
  case (Cons x xs)
  then obtain s1 where "f x s = Inr s1" and "iter_res f xs s1 = Inr t"
    by (auto simp: rbind_eq_Inr)
  with Cons show ?case by (metis list.set_intros(1,2))
qed

text \<open>A loop whose body never faults under an invariant is a fold.\<close>

lemma iter_res_fold:
  assumes "I s" and "\<And>x s. x \<in> set xs \<Longrightarrow> I s \<Longrightarrow> f x s = Inr (g x s) \<and> I (g x s)"
  shows "iter_res f xs s = Inr (fold g xs s) \<and> I (fold g xs s)"
  using assms by (induction xs arbitrary: s) auto

text \<open>A loop that simulates another, step by step, through an embedding of the states.\<close>

lemma iter_res_sim:
  assumes "\<And>x s. x \<in> set xs \<Longrightarrow> f x (h s) = map_sum id h (g x s)"
  shows "iter_res f xs (h s) = map_sum id h (iter_res g xs s)"
  using assms
proof (induction xs arbitrary: s)
  case (Cons x xs)
  have fx: "f x (h s) = map_sum id h (g x s)" by (rule Cons.prems) simp
  have ih: "iter_res f xs (h t) = map_sum id h (iter_res g xs t)" for t
    by (rule Cons.IH) (rule Cons.prems, simp)
  show ?case using fx ih by (cases "g x s") (simp_all add: id_def)
qed simp

lemma iter_res_first_fault:
  assumes "f x s = Inl e"
  shows "iter_res f (x # xs) s = Inl e"
  using assms by simp

section \<open>Signed arithmetic\<close>

definition in_int :: "int \<Rightarrow> bool" where
  "in_int x \<longleftrightarrow> int_min \<le> x \<and> x \<le> int_max"

text \<open>\<open>a * b\<close> on C's \<open>int\<close>: an overflow is a fault, as the language leaves it undefined.\<close>

definition mul_int :: "int \<Rightarrow> int \<Rightarrow> int res" where
  "mul_int a b = (if in_int (a * b) then Inr (a * b) else Inl SignedOverflow)"

section \<open>Arrays\<close>

definition array_write :: "'a list \<Rightarrow> nat \<Rightarrow> 'a \<Rightarrow> 'a list res" where
  "array_write a j v = (if j < length a then Inr (a[j := v]) else Inl OutOfBounds)"

definition array_read :: "'a list \<Rightarrow> int \<Rightarrow> 'a res" where
  "array_read a j = (if 0 \<le> j \<and> nat j < length a then Inr (a ! nat j) else Inl OutOfBounds)"

lemma array_read_Inr [res_simps]:
  "array_read a j = Inr v \<longleftrightarrow> 0 \<le> j \<and> nat j < length a \<and> v = a ! nat j"
  by (auto simp: array_read_def)

lemma array_write_length: "array_write a j v = Inr b \<Longrightarrow> length b = length a"
  by (auto simp: array_write_def split: if_splits)

section \<open>Transition systems and their invariants\<close>

inductive reachable :: "('s \<Rightarrow> bool) \<Rightarrow> ('s \<Rightarrow> 's \<Rightarrow> bool) \<Rightarrow> 's \<Rightarrow> bool" for init step where
  reachable_init: "init s \<Longrightarrow> reachable init step s"
| reachable_step: "reachable init step s \<Longrightarrow> step s t \<Longrightarrow> reachable init step t"

text \<open>The contract of an inductive invariant, and what it gives for every reachable state.\<close>

locale safe_system =
  fixes init :: "'s \<Rightarrow> bool"
    and step :: "'s \<Rightarrow> 's \<Rightarrow> bool"
    and inv :: "'s \<Rightarrow> bool"
  assumes inv_init: "init s \<Longrightarrow> inv s"
    and inv_step: "inv s \<Longrightarrow> step s t \<Longrightarrow> inv t"
begin

lemma reachable_inv: "reachable init step s \<Longrightarrow> inv s"
  by (induction rule: reachable.induct) (auto intro: inv_init inv_step)

lemma run_inv: "inv s \<Longrightarrow> step\<^sup>*\<^sup>* s t \<Longrightarrow> inv t"
  by (rotate_tac, induction rule: rtranclp_induct) (auto intro: inv_step)

end

lemma not_isl_projr: "\<not> isl m \<Longrightarrow> m = Inr (projr m)"
  by (cases m) simp_all

end
