(* ===== verification/CString.thy ===== *)
theory CString
  imports Prelude
begin

text \<open>
  The part of the C library's string functions the programs use: the string behind a pointer
  (up to the first NUL), \<open>%d\<close> and \<open>%lu\<close> output, \<open>atoi\<close>, and \<open>strtok\<close> with one delimiter.
  Round trips of printing and parsing are proved here once.
\<close>

section \<open>C strings\<close>

abbreviation NUL :: char where "NUL \<equiv> CHR 0x00"

text \<open>A \<open>char *\<close> is a list of characters without NUL; the terminator is the list's end.\<close>

definition is_cstr :: "string \<Rightarrow> bool" where
  "is_cstr s \<longleftrightarrow> NUL \<notin> set s"

definition cstr_of :: "char list \<Rightarrow> string" where
  "cstr_of b = takeWhile (\<lambda>c. c \<noteq> NUL) b"

lemma is_cstr_simps [simp]:
  "is_cstr []" "is_cstr (c # s) \<longleftrightarrow> c \<noteq> NUL \<and> is_cstr s"
  "is_cstr (s @ t) \<longleftrightarrow> is_cstr s \<and> is_cstr t"
  by (auto simp: is_cstr_def)

lemma is_cstr_cstr_of [simp]: "is_cstr (cstr_of b)"
  by (auto simp: is_cstr_def cstr_of_def dest: set_takeWhileD)

lemma cstr_of_id [simp]: "is_cstr s \<Longrightarrow> cstr_of s = s"
  by (auto simp: is_cstr_def cstr_of_def)

lemma cstr_of_terminated [simp]: "is_cstr s \<Longrightarrow> cstr_of (s @ NUL # t) = s"
  by (induction s) (auto simp: cstr_of_def)

lemma length_cstr_of_le: "length (cstr_of b) \<le> length b"
  by (simp add: cstr_of_def length_takeWhile_le)

lemma length_cstr_of_less: "NUL \<in> set b \<Longrightarrow> length (cstr_of b) < length b"
  by (induction b) (auto simp: cstr_of_def)

section \<open>Decimal output\<close>

definition digit_char :: "nat \<Rightarrow> char" where
  "digit_char d = char_of (48 + d)"

definition char_code :: "char \<Rightarrow> nat" where
  "char_code c = of_char c"

definition is_digit :: "char \<Rightarrow> bool" where
  "is_digit c \<longleftrightarrow> 48 \<le> char_code c \<and> char_code c \<le> 57"

lemma char_code_digit_char [simp]: "d < 10 \<Longrightarrow> char_code (digit_char d) = 48 + d"
  by (simp add: char_code_def digit_char_def)

lemma is_digit_digit_char [simp]: "d < 10 \<Longrightarrow> is_digit (digit_char d)"
  by (simp add: is_digit_def)

fun show_nat :: "nat \<Rightarrow> string" where
  "show_nat n = (if n < 10 then [digit_char n] else show_nat (n div 10) @ [digit_char (n mod 10)])"

declare show_nat.simps [simp del]

definition show_int :: "int \<Rightarrow> string" where
  "show_int i = (if i < 0 then CHR ''-'' # show_nat (nat (- i)) else show_nat (nat i))"

lemma show_nat_digits: "\<forall>c \<in> set (show_nat n). is_digit c"
proof (induction n rule: show_nat.induct)
  case (1 n)
  then show ?case by (subst show_nat.simps) auto
qed

lemma show_nat_nonempty [simp]: "show_nat n \<noteq> []"
  by (subst show_nat.simps) simp

lemma is_digit_not_NUL: "is_digit c \<Longrightarrow> c \<noteq> NUL"
  by (auto simp: is_digit_def char_code_def)

lemma is_digit_not_dash: "is_digit c \<Longrightarrow> c \<noteq> CHR ''-''"
  by (auto simp: is_digit_def char_code_def)

lemma is_digit_not_space: "is_digit c \<Longrightarrow> c \<noteq> CHR '' ''"
  by (auto simp: is_digit_def char_code_def)

lemma show_nat_no_dash [simp]: "CHR ''-'' \<notin> set (show_nat n)"
  using show_nat_digits is_digit_not_dash by blast

lemma show_nat_no_space [simp]: "CHR '' '' \<notin> set (show_nat n)"
  using show_nat_digits is_digit_not_space by blast

lemma is_cstr_show_nat [simp]: "is_cstr (show_nat n)"
  unfolding is_cstr_def using show_nat_digits is_digit_not_NUL by blast

lemma is_cstr_show_int [simp]: "is_cstr (show_int i)"
  by (simp add: show_int_def)

lemma length_show_nat_le: "n < 10 ^ k \<Longrightarrow> 0 < k \<Longrightarrow> length (show_nat n) \<le> k"
proof (induction n arbitrary: k rule: show_nat.induct)
  case (1 n)
  show ?case
  proof (cases "n < 10")
    case True
    with 1 show ?thesis by (subst show_nat.simps) simp
  next
    case False
    with 1(2,3) obtain k' where k: "k = Suc k'" "0 < k'"
      by (cases k) (auto, metis gr0I power_0 less_one not_less_iff_gr_or_eq nat_mult_1_right power_0)
    with 1(2) have "n div 10 < 10 ^ k'" by (simp add: div_less_iff_less_mult mult.commute)
    with 1(1)[OF False this] k False show ?thesis by (subst show_nat.simps) simp
  qed
qed

section \<open>Decimal input\<close>

fun digits_val :: "nat \<Rightarrow> string \<Rightarrow> nat" where
  "digits_val acc [] = acc"
| "digits_val acc (c # cs) =
     (if is_digit c then digits_val (10 * acc + (char_code c - 48)) cs else acc)"

text \<open>\<open>atoi\<close>: leading white space, one optional sign, then digits up to the first other byte.\<close>

definition is_white :: "char \<Rightarrow> bool" where
  "is_white c \<longleftrightarrow> c = CHR '' '' \<or> (9 \<le> char_code c \<and> char_code c \<le> 13)"

definition atoi :: "string \<Rightarrow> int" where
  "atoi s =
     (case dropWhile is_white s of
        [] \<Rightarrow> 0
      | c # cs \<Rightarrow>
          if c = CHR ''-'' then - int (digits_val 0 cs)
          else if c = CHR ''+'' then int (digits_val 0 cs)
          else int (digits_val 0 (c # cs)))"

lemma digits_val_append:
  "(\<forall>c \<in> set ds. is_digit c) \<Longrightarrow> digits_val acc (ds @ t) = digits_val (digits_val acc ds) t"
  by (induction ds arbitrary: acc) auto

lemma digits_val_show_nat_0: "digits_val 0 (show_nat n) = n"
proof (induction n rule: show_nat.induct)
  case (1 n)
  show ?case
  proof (cases "n < 10")
    case True
    then show ?thesis by (subst show_nat.simps) simp
  next
    case False
    with 1 have "digits_val 0 (show_nat (n div 10)) = n div 10" by simp
    with False show ?thesis
      by (subst show_nat.simps) (simp add: digits_val_append show_nat_digits)
  qed
qed

lemma show_nat_Cons: "\<exists>c cs. show_nat n = c # cs \<and> is_digit c"
  by (metis list.exhaust list.set_intros(1) show_nat_digits show_nat_nonempty)

lemma is_digit_not_white: "is_digit c \<Longrightarrow> \<not> is_white c"
  by (auto simp: is_white_def is_digit_def char_code_def)

lemma is_digit_not_sign: "is_digit c \<Longrightarrow> c \<noteq> CHR ''-'' \<and> c \<noteq> CHR ''+''"
  by (auto simp: is_digit_def char_code_def)

lemma atoi_show_nat [simp]: "atoi (show_nat n) = int n"
proof -
  obtain c cs where eq: "show_nat n = c # cs" and d: "is_digit c"
    using show_nat_Cons by blast
  have "digits_val 0 (c # cs) = n" using digits_val_show_nat_0 [of n] eq by simp
  with eq d show ?thesis
    by (auto simp: atoi_def is_digit_not_white dest: is_digit_not_sign)
qed

section \<open>strtok with one delimiter\<close>

text \<open>
  \<open>strtok(s, "d")\<close> skips leading delimiters, returns the characters up to the next one and
  remembers what follows it; with nothing left it returns NULL.
\<close>

definition strtok :: "char \<Rightarrow> string \<Rightarrow> (string \<times> string) option" where
  "strtok d s =
     (let s' = dropWhile (\<lambda>c. c = d) s in
      if s' = [] then None
      else Some (takeWhile (\<lambda>c. c \<noteq> d) s', drop 1 (dropWhile (\<lambda>c. c \<noteq> d) s')))"

lemma strtok_token:
  assumes "t \<noteq> []" and "d \<notin> set t"
  shows "strtok d (t @ d # r) = Some (t, r)"
proof -
  have tw: "takeWhile (\<lambda>c. c \<noteq> d) (t @ d # r) = t"
    using assms(2) by (induction t) auto
  have dw: "dropWhile (\<lambda>c. c \<noteq> d) (t @ d # r) = d # r"
    using assms(2) by (induction t) auto
  have "dropWhile (\<lambda>c. c = d) (t @ d # r) = t @ d # r"
    using assms by (cases t) auto
  with tw dw show ?thesis by (simp add: strtok_def)
qed

lemma strtok_last_token:
  assumes "t \<noteq> []" and "d \<notin> set t"
  shows "strtok d t = Some (t, [])"
proof -
  have tw: "takeWhile (\<lambda>c. c \<noteq> d) t = t" and dw: "dropWhile (\<lambda>c. c \<noteq> d) t = []"
    using assms(2) by (induction t) auto
  have "dropWhile (\<lambda>c. c = d) t = t" using assms by (cases t) auto
  with assms(1) show ?thesis by (simp only: strtok_def Let_def tw dw drop_Nil if_False)
qed

end
