(* ===== verification/Dsm_Memory.thy ===== *)
theory Dsm_Memory
  imports CString
begin

text \<open>
  The shared mapping of the distributed-memory program (Assignment 3, \<open>s2dsm.c\<close>): a region of
  \<open>num_pages * page_size\<close> bytes obtained from \<open>mmap\<close> and registered with userfaultfd, whose
  pages are missing until first touched. Addresses are offsets from the region's base, which
  \<open>mmap\<close> aligns to a page. The fault handler thread fills a missing page; \<open>madvise\<close> with
  MADV_DONTNEED drops one. Loads and stores go through the handler, C strings are read and
  written one byte at a time.
\<close>

section \<open>The region\<close>

record region =
  bytes :: "char list"
  present :: "bool list"
  faults :: nat

text \<open>\<open>mmap\<close> of \<open>n\<close> anonymous pages, registered with mode MISSING: no page is there yet.\<close>

definition mmap_region :: "nat \<Rightarrow> nat \<Rightarrow> region" where
  "mmap_region ps n = \<lparr>bytes = replicate (n * ps) NUL, present = replicate n False, faults = 0\<rparr>"

text \<open>
  \<open>msg.arg.pagefault.address & ~(page_size - 1)\<close>, on the 64-bit address.
\<close>

definition uffd_dst :: "nat \<Rightarrow> nat \<Rightarrow> nat" where
  "uffd_dst ps l = unat ((of_nat l :: u64) AND NOT (of_nat ps - 1))"

text \<open>What one turn of the handler's loop can find: \<open>poll\<close>, \<open>read\<close> and the event type.\<close>

datatype uffd_event = Poll_fails | Read_eof | Read_fails | Other_event | Pagefault nat

text \<open>
  One turn of \<open>fault_handler_thread\<close>: every failure exits the process; a page fault makes the
  page around the address a page of zero bytes (\<open>memset(page, 0, page_size)\<close>, UFFDIO_COPY).
\<close>

fun fault_handler :: "nat \<Rightarrow> bool \<Rightarrow> uffd_event \<Rightarrow> region \<Rightarrow> region res" where
  "fault_handler ps copy_ok Poll_fails r = Inl Exit_failure"
| "fault_handler ps copy_ok Read_eof r = Inl Exit_failure"
| "fault_handler ps copy_ok Read_fails r = Inl Exit_failure"
| "fault_handler ps copy_ok Other_event r = Inl Exit_failure"
| "fault_handler ps copy_ok (Pagefault a) r =
     (let dst = uffd_dst ps a in
      if copy_ok
      then Inr (r\<lparr>bytes := take dst (bytes r) @ replicate ps NUL @ drop (dst + ps) (bytes r),
                  present := (present r)[dst div ps := True],
                  faults := Suc (faults r)\<rparr>)
      else Inl Exit_failure)"

text \<open>An access to a byte of the region: a missing page faults and is filled first.\<close>

definition touch :: "nat \<Rightarrow> nat \<Rightarrow> region \<Rightarrow> region res" where
  "touch ps l r = (if present r ! (l div ps) then Inr r else fault_handler ps True (Pagefault l) r)"

definition peek :: "nat \<Rightarrow> nat \<Rightarrow> region \<Rightarrow> (char \<times> region) res" where
  "peek ps l r =
     (if l < length (bytes r) then rbind (touch ps l r) (\<lambda>r'. Inr (bytes r' ! l, r'))
      else Inl OutOfBounds)"

definition poke :: "nat \<Rightarrow> nat \<Rightarrow> char \<Rightarrow> region \<Rightarrow> region res" where
  "poke ps l c r =
     (if l < length (bytes r)
      then rbind (touch ps l r) (\<lambda>r'. Inr (r'\<lparr>bytes := (bytes r')[l := c]\<rparr>))
      else Inl OutOfBounds)"

text \<open>The copy loop of \<open>updatePageContents\<close>: the message, then the terminating NUL.\<close>

fun write_str :: "nat \<Rightarrow> nat \<Rightarrow> string \<Rightarrow> region \<Rightarrow> region res" where
  "write_str ps l [] r = poke ps l NUL r"
| "write_str ps l (c # cs) r = rbind (poke ps l c r) (write_str ps (Suc l) cs)"

text \<open>\<open>"%s"\<close> of an address in the region: bytes up to NUL, at most to the end of the mapping.\<close>

fun read_str_upto :: "nat \<Rightarrow> nat \<Rightarrow> nat \<Rightarrow> region \<Rightarrow> (string \<times> region) res" where
  "read_str_upto ps 0 l r = Inl OutOfBounds"
| "read_str_upto ps (Suc n) l r =
     rbind (peek ps l r) (\<lambda>(c, r').
       if c = NUL then Inr ([], r')
       else rbind (read_str_upto ps n (Suc l) r') (\<lambda>(s, r''). Inr (c # s, r'')))"

definition read_str :: "nat \<Rightarrow> nat \<Rightarrow> region \<Rightarrow> (string \<times> region) res" where
  "read_str ps l r = read_str_upto ps (length (bytes r) - l) l r"

text \<open>
  \<open>madvise(addr + off, page_size, MADV_DONTNEED)\<close>: drops the page; outside the mapping it fails
  and the caller exits.
\<close>

definition madvise_dontneed :: "nat \<Rightarrow> int \<Rightarrow> region \<Rightarrow> region res" where
  "madvise_dontneed ps off r =
     (if 0 \<le> off \<and> nat off + ps \<le> length (bytes r)
      then Inr (r\<lparr>bytes := take (nat off) (bytes r) @ replicate ps NUL
                            @ drop (nat off + ps) (bytes r),
                  present := (present r)[nat off div ps := False]\<rparr>)
      else Inl Exit_failure)"

section \<open>Well-formed regions\<close>

definition page_size_ok :: "nat \<Rightarrow> bool" where
  "page_size_ok ps \<longleftrightarrow> (\<exists>k < 31. ps = 2 ^ k)"

text \<open>A missing page holds zero bytes in the model, so that filling it changes no byte.\<close>

definition wf_region :: "nat \<Rightarrow> region \<Rightarrow> bool" where
  "wf_region ps r \<longleftrightarrow>
     page_size_ok ps \<and> length (bytes r) = length (present r) * ps \<and> length (bytes r) < 2 ^ 64 \<and>
     (\<forall>l < length (bytes r). \<not> present r ! (l div ps) \<longrightarrow> bytes r ! l = NUL)"

lemma page_size_pos: "page_size_ok ps \<Longrightarrow> 0 < ps"
  by (auto simp: page_size_ok_def)

lemma wf_regionD:
  assumes "wf_region ps r"
  shows "0 < ps" "page_size_ok ps" "length (bytes r) = length (present r) * ps"
    "length (bytes r) < 2 ^ 64"
    "\<And>l. l < length (bytes r) \<Longrightarrow> \<not> present r ! (l div ps) \<Longrightarrow> bytes r ! l = NUL"
  using assms page_size_pos by (auto simp: wf_region_def)

text \<open>The mask rounds down to the page boundary, for a power-of-two page size.\<close>

lemma and_not_mask_nat: "(n::nat) < 2 ^ 64 \<Longrightarrow>
    unat ((of_nat n :: u64) AND NOT (mask k)) = n - n mod 2 ^ k" if "k < 64"
proof -
  assume n: "n < 2 ^ 64"
  let ?w = "of_nat n :: u64"
  have "?w - (?w AND mask k) = ?w AND NOT (?w AND mask k)"
    by (rule disjunctive_diff_eq_and_not) (simp add: bit_eq_iff bit_simps)
  also have "\<dots> = ?w AND NOT (mask k)" by (rule bit_eqI) (auto simp: bit_simps)
  finally have "?w AND NOT (mask k) = ?w - (?w AND mask k)" by simp
  moreover have "(of_nat n :: u64) AND mask k = of_nat (n mod 2 ^ k)"
    by (simp flip: take_bit_eq_mask take_bit_eq_mod add: take_bit_of_nat)
  moreover have "n mod 2 ^ k \<le> n" by simp
  ultimately have "(of_nat n :: u64) AND NOT (mask k) = of_nat (n - n mod 2 ^ k)"
    by simp
  moreover have "n - n mod 2 ^ k < 2 ^ 64" using n by linarith
  then have "unat (of_nat (n - n mod 2 ^ k) :: u64) = n - n mod 2 ^ k"
    by (simp add: unsigned_of_nat take_bit_nat_eq_self del: of_nat_diff)
  ultimately show ?thesis by (simp del: of_nat_diff)
qed

lemma uffd_dst_eq:
  assumes "page_size_ok ps" and "l < 2 ^ 64"
  shows "uffd_dst ps l = l div ps * ps"
proof -
  obtain k where k: "k < 31" "ps = 2 ^ k" using assms(1) by (auto simp: page_size_ok_def)
  have "(of_nat ps - 1 :: u64) = mask k" using k by (simp add: mask_eq_exp_minus_1)
  then show ?thesis
    using and_not_mask_nat [of k l] k assms(2)
    by (simp add: uffd_dst_def minus_mod_eq_div_mult)
qed

section \<open>Loads, stores and strings on a well-formed region\<close>

lemma div_less_pages:
  assumes "wf_region ps r" and "l < length (bytes r)"
  shows "l div ps < length (present r)"
  using assms wf_regionD[OF assms(1)] by (simp add: div_less_iff_less_mult)

lemma touch_ok:
  assumes wf: "wf_region ps r" and l: "l < length (bytes r)"
  shows "\<exists>r'. touch ps l r = Inr r' \<and> bytes r' = bytes r \<and> wf_region ps r' \<and> present r' ! (l div ps)
           \<and> length (present r') = length (present r)"
proof (cases "present r ! (l div ps)")
  case True
  with wf show ?thesis by (simp add: touch_def)
next
  case False
  note D = wf_regionD[OF wf]
  have p: "l div ps < length (present r)" by (rule div_less_pages[OF wf l])
  then have le: "l div ps * ps + ps \<le> length (bytes r)"
    using D(3) by (metis Suc_leI add.commute mult_Suc mult_le_mono1)
  let ?d = "l div ps * ps"
  have zero: "bytes r ! i = NUL" if "?d \<le> i" "i < ?d + ps" for i
  proof -
    have "i div ps = l div ps" using that D(1)
      by (metis add.commute div_nat_eqI mult.commute mult_Suc_right)
    then show ?thesis using D(5)[of i] False that le by simp
  qed
  have same: "take ?d (bytes r) @ replicate ps NUL @ drop (?d + ps) (bytes r) = bytes r"
    by (rule nth_equalityI) (use le zero in \<open>auto simp: nth_append min_def\<close>)
  let ?r = "r\<lparr>present := (present r)[l div ps := True], faults := Suc (faults r)\<rparr>"
  have "touch ps l r = Inr ?r"
    using False D l by (simp add: touch_def uffd_dst_eq Let_def same)
  moreover have "wf_region ps ?r"
    using wf p by (auto simp: wf_region_def nth_list_update split: if_splits)
  ultimately show ?thesis using p by auto
qed

lemma peek_ok:
  assumes "wf_region ps r" and "l < length (bytes r)"
  shows "\<exists>r'. peek ps l r = Inr (bytes r ! l, r') \<and> bytes r' = bytes r \<and> wf_region ps r'
           \<and> length (present r') = length (present r)"
  using touch_ok[OF assms] assms(2) by (auto simp: peek_def)

lemma poke_ok:
  assumes wf: "wf_region ps r" and l: "l < length (bytes r)"
  shows "\<exists>r'. poke ps l c r = Inr r' \<and> bytes r' = (bytes r)[l := c] \<and> wf_region ps r'
           \<and> length (present r') = length (present r)"
proof -
  obtain r1 where r1: "touch ps l r = Inr r1" "bytes r1 = bytes r" "wf_region ps r1"
      "present r1 ! (l div ps)" "length (present r1) = length (present r)"
    using touch_ok[OF assms] by blast
  have "wf_region ps (r1\<lparr>bytes := (bytes r1)[l := c]\<rparr>)"
    using r1(3,4) by (auto simp: wf_region_def, metis nth_list_update_neq)
  with r1 l show ?thesis by (auto simp: poke_def)
qed

text \<open>The bytes after writing a string at an offset.\<close>

definition put_str :: "char list \<Rightarrow> nat \<Rightarrow> string \<Rightarrow> char list" where
  "put_str b l s = take l b @ s @ NUL # drop (l + length s + 1) b"

lemma put_str_Cons: "l < length b \<Longrightarrow> put_str (b[l := c]) (Suc l) s = put_str b l (c # s)"
  by (simp add: put_str_def take_Suc_conv_app_nth take_update_cancel drop_update_cancel)

lemma length_put_str [simp]: "l + length s < length b \<Longrightarrow> length (put_str b l s) = length b"
  by (simp add: put_str_def)

lemma write_str_ok:
  assumes "wf_region ps r" and "l + length s < length (bytes r)"
  shows "\<exists>r'. write_str ps l s r = Inr r' \<and> bytes r' = put_str (bytes r) l s \<and> wf_region ps r'
           \<and> length (present r') = length (present r)"
  using assms
proof (induction s arbitrary: l r)
  case Nil
  then show ?case
    using poke_ok[of ps r l NUL]
    by (simp add: put_str_def upd_conv_take_nth_drop)
next
  case (Cons c s)
  then obtain r1 where r1: "poke ps l c r = Inr r1" "bytes r1 = (bytes r)[l := c]"
      "wf_region ps r1" "length (present r1) = length (present r)"
    using poke_ok[of ps r l c] by auto
  then obtain r2 where "write_str ps (Suc l) s r1 = Inr r2"
      "bytes r2 = put_str (bytes r1) (Suc l) s" "wf_region ps r2"
      "length (present r2) = length (present r1)"
    using Cons.IH[of r1 "Suc l"] Cons.prems by auto
  with r1 Cons.prems put_str_Cons[of l "bytes r" c s] show ?case by simp
qed

lemma read_str_upto_ok:
  assumes "wf_region ps r" and "n = length (bytes r) - l" and "NUL \<in> set (drop l (bytes r))"
  shows "\<exists>r'. read_str_upto ps n l r = Inr (cstr_of (drop l (bytes r)), r') \<and> bytes r' = bytes r
           \<and> wf_region ps r' \<and> length (present r') = length (present r)"
  using assms
proof (induction n arbitrary: l r)
  case 0
  then show ?case by simp
next
  case (Suc n)
  then have l: "l < length (bytes r)" by linarith
  then have d: "drop l (bytes r) = bytes r ! l # drop (Suc l) (bytes r)"
    by (simp add: Cons_nth_drop_Suc)
  obtain r1 where r1: "peek ps l r = Inr (bytes r ! l, r1)" "bytes r1 = bytes r"
      "wf_region ps r1" "length (present r1) = length (present r)"
    using peek_ok[OF Suc.prems(1) l] by blast
  show ?case
  proof (cases "bytes r ! l = NUL")
    case True
    with r1 d show ?thesis by (simp add: cstr_of_def)
  next
    case False
    with Suc.prems d have "NUL \<in> set (drop (Suc l) (bytes r1))" using r1 by auto
    then obtain r2 where "read_str_upto ps n (Suc l) r1 = Inr (cstr_of (drop (Suc l) (bytes r1)), r2)"
        "bytes r2 = bytes r1" "wf_region ps r2" "length (present r2) = length (present r1)"
      using Suc.IH[of r1 "Suc l"] r1 Suc.prems(2) l by fastforce
    with False r1 d show ?thesis by (simp add: cstr_of_def)
  qed
qed

lemma read_str_ok:
  assumes "wf_region ps r" and "NUL \<in> set (drop l (bytes r))"
  shows "\<exists>r'. read_str ps l r = Inr (cstr_of (drop l (bytes r)), r') \<and> bytes r' = bytes r
           \<and> wf_region ps r' \<and> length (present r') = length (present r)"
  using read_str_upto_ok[OF assms(1) refl assms(2)] by (simp add: read_str_def)

section \<open>Pages\<close>

definition page_bytes :: "nat \<Rightarrow> char list \<Rightarrow> nat \<Rightarrow> char list" where
  "page_bytes ps b p = take ps (drop (p * ps) b)"

text \<open>The string a page holds: what \<open>"%s"\<close> of its address prints.\<close>

definition page_text :: "nat \<Rightarrow> region \<Rightarrow> nat \<Rightarrow> string" where
  "page_text ps r p = cstr_of (drop (p * ps) (bytes r))"

definition terminated :: "nat \<Rightarrow> region \<Rightarrow> nat \<Rightarrow> bool" where
  "terminated ps r p \<longleftrightarrow> NUL \<in> set (page_bytes ps (bytes r) p)"

lemma length_page_bytes:
  assumes "length b = n * ps" and "p < n"
  shows "length (page_bytes ps b p) = ps"
proof -
  have "(p + 1) * ps \<le> n * ps" using assms(2) by (intro mult_le_mono1) simp
  then show ?thesis using assms(1) by (simp add: page_bytes_def)
qed

lemma nth_page_bytes:
  "i < ps \<Longrightarrow> p * ps + i < length b \<Longrightarrow> page_bytes ps b p ! i = b ! (p * ps + i)"
  by (simp add: page_bytes_def)

lemma cstr_of_take: "NUL \<in> set (take n b) \<Longrightarrow> cstr_of (take n b) = cstr_of b"
  by (induction b arbitrary: n) (auto simp: cstr_of_def take_Cons' split: if_splits)

lemma page_text_page_bytes:
  "terminated ps r p \<Longrightarrow> page_text ps r p = cstr_of (page_bytes ps (bytes r) p)"
  by (simp add: terminated_def page_text_def page_bytes_def cstr_of_take)

lemma terminated_drop: "terminated ps r p \<Longrightarrow> NUL \<in> set (drop (p * ps) (bytes r))"
  by (auto simp: terminated_def page_bytes_def dest: in_set_takeD)

lemma length_page_text:
  assumes "terminated ps r p"
  shows "length (page_text ps r p) < ps"
proof -
  have "length (page_text ps r p) < length (page_bytes ps (bytes r) p)"
    using assms by (simp add: page_text_page_bytes terminated_def length_cstr_of_less)
  also have "\<dots> \<le> ps" by (simp add: page_bytes_def)
  finally show ?thesis .
qed

text \<open>A string shorter than a page stays inside its page.\<close>

lemma page_bytes_put_str_same:
  assumes "length b = n * ps" "p < n" "length s < ps"
  shows "page_bytes ps (put_str b (p * ps) s) p = put_str (page_bytes ps b p) 0 s"
proof -
  have "(p + 1) * ps \<le> n * ps" using assms(2) by (intro mult_le_mono1) simp
  then have le: "p * ps + ps \<le> length b" using assms(1) by simp
  have "drop (p * ps) (put_str b (p * ps) s) = s @ NUL # drop (p * ps + length s + 1) b"
    using le by (simp add: put_str_def)
  then show ?thesis
    using assms(3) by (simp add: page_bytes_def put_str_def drop_take take_Cons' add.commute add.left_commute)
qed

lemma div_eq_page_iff:
  "0 < ps \<Longrightarrow> i div ps = (p :: nat) \<longleftrightarrow> p * ps \<le> i \<and> i < p * ps + ps"
  by (metis add.commute div_nat_eqI div_times_less_eq_dividend dividend_less_div_times mult.commute
      mult_Suc_right)

lemma page_bytes_frame:
  assumes "length b' = length b"
    and "\<And>i. i < length b \<Longrightarrow> q * ps \<le> i \<Longrightarrow> i < q * ps + ps \<Longrightarrow> b' ! i = b ! i"
  shows "page_bytes ps b' q = page_bytes ps b q"
proof (rule nth_equalityI)
  show "length (page_bytes ps b' q) = length (page_bytes ps b q)"
    by (simp add: page_bytes_def assms(1))
  fix i assume "i < length (page_bytes ps b' q)"
  then have "i < ps" "q * ps + i < length b" by (auto simp: page_bytes_def assms(1))
  then show "page_bytes ps b' q ! i = page_bytes ps b q ! i"
    using assms by (simp add: nth_page_bytes)
qed

lemma nth_put_str_frame:
  "l + length s < length b \<Longrightarrow> i < length b \<Longrightarrow> i < l \<or> l + length s < i \<Longrightarrow> put_str b l s ! i = b ! i"
  by (auto simp: put_str_def nth_append nth_Cons' min_def)

lemma page_bytes_put_str_other:
  assumes "length b = n * ps" "p < n" "p \<noteq> q" "length s < ps"
  shows "page_bytes ps (put_str b (p * ps) s) q = page_bytes ps b q"
proof -
  have "(p + 1) * ps \<le> n * ps" using assms(2) by (intro mult_le_mono1) simp
  then have le: "p * ps + length s < length b" using assms(1,4) by simp
  show ?thesis
  proof (rule page_bytes_frame)
    fix i assume i: "i < length b" "q * ps \<le> i" "i < q * ps + ps"
    have "i < p * ps \<or> p * ps + length s < i"
      using i assms(3,4) div_eq_page_iff[of ps i p] div_eq_page_iff[of ps i q] by fastforce
    with le i(1) show "put_str b (p * ps) s ! i = b ! i" by (rule nth_put_str_frame)
  qed (simp add: le)
qed

lemma madvise_ok:
  assumes wf: "wf_region ps r" and p: "p < length (present r)"
  shows "\<exists>r'. madvise_dontneed ps (int (p * ps)) r = Inr r' \<and> wf_region ps r'
           \<and> length (present r') = length (present r) \<and> \<not> present r' ! p
           \<and> page_bytes ps (bytes r') p = replicate ps NUL
           \<and> (\<forall>q < length (present r). q \<noteq> p \<longrightarrow> page_bytes ps (bytes r') q = page_bytes ps (bytes r) q)"
proof -
  note D = wf_regionD[OF wf]
  have "(p + 1) * ps \<le> length (present r) * ps" using p by (intro mult_le_mono1) simp
  then have le: "p * ps + ps \<le> length (bytes r)" using D(3) by simp
  define b where "b = take (p * ps) (bytes r) @ replicate ps NUL @ drop (p * ps + ps) (bytes r)"
  let ?r = "r\<lparr>bytes := b, present := (present r)[p := False]\<rparr>"
  have len: "length b = length (bytes r)" using le by (simp add: b_def)
  have nth: "b ! i = (if p * ps \<le> i \<and> i < p * ps + ps then NUL else bytes r ! i)"
    if "i < length (bytes r)" for i
    using that le by (auto simp: b_def nth_append min_def)
  have run: "madvise_dontneed ps (int (p * ps)) r = Inr ?r"
    using le D(1) by (simp add: madvise_dontneed_def b_def nat_mult_distrib del: of_nat_mult)
  have "bytes ?r ! i = NUL" if "i < length (bytes ?r)" "\<not> present ?r ! (i div ps)" for i
  proof (cases "i div ps = p")
    case True
    then show ?thesis using that len nth[of i] div_eq_page_iff[OF D(1), of i p] by simp
  next
    case False
    then show ?thesis using that len nth[of i] div_eq_page_iff[OF D(1), of i p] D(5)[of i] by auto
  qed
  then have wf': "wf_region ps ?r" using D len by (auto simp: wf_region_def)
  have same: "page_bytes ps b p = replicate ps NUL"
    using le by (simp add: page_bytes_def b_def)
  have other: "page_bytes ps b q = page_bytes ps (bytes r) q"
    if q: "q < length (present r)" "q \<noteq> p" for q
  proof (rule page_bytes_frame)
    fix i assume i: "i < length (bytes r)" "q * ps \<le> i" "i < q * ps + ps"
    then have "\<not> (p * ps \<le> i \<and> i < p * ps + ps)"
      using div_eq_page_iff[OF D(1), of i p] div_eq_page_iff[OF D(1), of i q] q(2) by auto
    then show "b ! i = bytes r ! i" using nth[OF i(1)] by auto
  qed (rule len)
  show ?thesis using run wf' same other p by auto
qed

lemma wf_mmap_region:
  assumes "page_size_ok ps" and "n * ps < 2 ^ 64"
  shows "wf_region ps (mmap_region ps n)"
  using assms by (simp add: wf_region_def mmap_region_def)

end
