(* ===== verification/Dsm_Node.thy ===== *)
theory Dsm_Node
  imports Dsm_Memory
begin

text \<open>
  One process of the distributed-memory program (Assignment 3, part 3, \<open>s2dsm.c\<close>): the MSI
  state of its pages, the requests it sends to its peer, the commands of its user loop and the
  requests its responder thread answers. The peer is an argument (a function from a request
  and the peer's state to its new state and what arrives on the socket), so the same
  definitions run against any peer.
\<close>

section \<open>State\<close>

datatype msi = MSI_m | MSI_s | MSI_i

datatype out =
    Out_page int string
  | Out_fetching
  | Out_writing int
  | Out_request int int
  | Out_reply char string
  | Out_msi nat char
  | Out_invalid_option

record node =
  page_size :: nat
  num_pages :: nat
  msi_array :: "msi list"
  mem :: region
  log :: "out list"

text \<open>
  What C leaves open: \<open>dangling\<close> is what a caller finds behind the pointer
  \<open>communicateWithPeer\<close> returns to its own dead stack frame, \<open>garbage\<close> what an uninitialised
  buffer holds.
\<close>

record env =
  dangling :: "char list \<Rightarrow> char list"
  garbage :: string

definition frame_intact :: "env \<Rightarrow> bool" where
  "frame_intact E \<longleftrightarrow> (\<forall>b. dangling E b = b)"

definition say :: "out \<Rightarrow> node \<Rightarrow> node" where
  "say x n = n\<lparr>log := log n @ [x]\<rparr>"

definition set_msi :: "int \<Rightarrow> msi \<Rightarrow> node \<Rightarrow> node res" where
  "set_msi j v n = rbind (array_read (msi_array n) j)
     (\<lambda>_. Inr (n\<lparr>msi_array := (msi_array n)[nat j := v]\<rparr>))"

section \<open>Messages\<close>

definition readOp :: int where "readOp = 1"
definition invalidateOp :: int where "invalidateOp = 2"

text \<open>\<open>sprintf(message, "%d-%d", request_page, operation)\<close>\<close>

definition format_request :: "int \<Rightarrow> int \<Rightarrow> string" where
  "format_request request_page operation = show_int request_page @ CHR ''-'' # show_int operation"

text \<open>\<open>strtok\<close> twice, \<open>atoi\<close> on each token; a missing token is a NULL pointer for \<open>atoi\<close>.\<close>

definition parse_request :: "string \<Rightarrow> (int \<times> int) res" where
  "parse_request s =
     (case strtok CHR ''-'' s of
        None \<Rightarrow> Inl NullDeref
      | Some (t1, rest) \<Rightarrow>
          (case strtok CHR ''-'' rest of
             None \<Rightarrow> Inl NullDeref
           | Some (t2, _) \<Rightarrow> Inr (atoi t1, atoi t2)))"

text \<open>What a \<open>read\<close> on the socket can return.\<close>

datatype net_reply = Net_error | Net_closed | Net_data "char list" | Net_silence

type_synonym 'p peer = "string \<Rightarrow> 'p \<Rightarrow> 'p \<times> net_reply"

text \<open>A buffer of \<open>ps\<close> zeroed bytes after reading at most \<open>ps\<close> bytes into it.\<close>

definition fill_buffer :: "nat \<Rightarrow> char list \<Rightarrow> char list" where
  "fill_buffer ps d = take ps d @ replicate (ps - length d) NUL"

text \<open>Reading a buffer as a string runs past it when no NUL is in it.\<close>

definition as_cstr :: "char list \<Rightarrow> string res" where
  "as_cstr b = (if NUL \<in> set b then Inr (cstr_of b) else Inl OutOfBounds)"

definition communicateWithPeer ::
  "env \<Rightarrow> 'p peer \<Rightarrow> nat \<Rightarrow> int \<Rightarrow> int \<Rightarrow> 'p \<Rightarrow> (char list \<times> 'p) res" where
  "communicateWithPeer E pr ps request_page operation p =
     (let message = format_request request_page operation in
      if length message < ps then
        (case pr message p of
           (p', Net_error) \<Rightarrow> Inl Exit_failure
         | (p', Net_closed) \<Rightarrow> Inr (dangling E (fill_buffer ps []), p')
         | (p', Net_data d) \<Rightarrow> Inr (dangling E (fill_buffer ps d), p')
         | (p', Net_silence) \<Rightarrow> Inl Blocked)
      else Inl OutOfBounds)"

section \<open>Loops over pages\<close>

text \<open>
  The values of the loops
  \<open>for (j = (r == -1) ? 0 : r; j <= ((r == -1) ? num_pages - 1 : r); ++j)\<close>: the bound is an
  \<open>unsigned long\<close>, so with no pages \<open>num_pages - 1\<close> wraps around.
\<close>

definition page_seq :: "int \<Rightarrow> nat \<Rightarrow> int list" where
  "page_seq request_page np =
     (if request_page = -1 then map int [0..<(if np = 0 then 2 ^ 64 else np)] else [request_page])"

text \<open>\<open>addr + (j * page_size)\<close>: an \<open>int\<close> product; a negative offset is outside the mapping.\<close>

definition page_offset :: "nat \<Rightarrow> int \<Rightarrow> nat res" where
  "page_offset ps j = rbind (mul_int j (int ps)) (\<lambda>l. if l < 0 then Inl OutOfBounds else Inr (nat l))"

section \<open>Writing\<close>

definition transitionStateOnWrite :: "env \<Rightarrow> 'p peer \<Rightarrow> int \<Rightarrow> node \<times> 'p \<Rightarrow> (node \<times> 'p) res" where
  "transitionStateOnWrite E pr request_page = (\<lambda>(n, p).
     rbind (set_msi request_page MSI_m n) (\<lambda>n'.
     let n'' = say (Out_writing request_page) n' in
     rbind (communicateWithPeer E pr (page_size n) request_page invalidateOp p) (\<lambda>(_, p').
     Inr (n'', p'))))"

text \<open>One turn of the loop of \<open>updatePageContents\<close>.\<close>

definition update_one ::
  "env \<Rightarrow> 'p peer \<Rightarrow> string \<Rightarrow> bool \<Rightarrow> int \<Rightarrow> node \<times> 'p \<Rightarrow> (node \<times> 'p) res" where
  "update_one E pr message transition j = (\<lambda>(n, p).
     rbind (page_offset (page_size n) j) (\<lambda>l.
     rbind (write_str (page_size n) l message (mem n)) (\<lambda>r.
     if transition then transitionStateOnWrite E pr j (n\<lparr>mem := r\<rparr>, p)
     else Inr (n\<lparr>mem := r\<rparr>, p))))"

definition updatePageContents ::
  "env \<Rightarrow> 'p peer \<Rightarrow> int \<Rightarrow> string \<Rightarrow> bool \<Rightarrow> node \<times> 'p \<Rightarrow> (node \<times> 'p) res" where
  "updatePageContents E pr request_page message transition = (\<lambda>(n, p).
     iter_res (update_one E pr message transition) (page_seq request_page (num_pages n)) (n, p))"

section \<open>Reading\<close>

text \<open>
  The branch for a page in state I: ask the peer, take its page or drop the own one; without
  \<open>fetch\<close> nothing happens. The third component is the string printed.
\<close>

definition fetch_page :: "env \<Rightarrow> 'p peer \<Rightarrow> bool \<Rightarrow> int \<Rightarrow> node \<times> 'p \<Rightarrow> (node \<times> 'p \<times> string) res" where
  "fetch_page E pr fetch j = (\<lambda>(n, p).
     if \<not> fetch then Inr (n, p, [])
     else
       rbind (communicateWithPeer E pr (page_size n) j readOp p) (\<lambda>(buf, p').
       rbind (as_cstr buf) (\<lambda>message.
       if message \<noteq> ''NULL'' then
         rbind (updatePageContents E pr j message False (n, p')) (\<lambda>(n', p'').
         rbind (set_msi j MSI_s n') (\<lambda>n''. Inr (n'', p'', message)))
       else
         rbind (mul_int j (int (page_size n))) (\<lambda>off.
         rbind (madvise_dontneed (page_size n) off (mem n)) (\<lambda>r.
         Inr (n\<lparr>mem := r\<rparr>, p', []))))))"

text \<open>One turn of the loop of \<open>printPageContents\<close>; \<open>page_output\<close> has \<open>page_size + 1\<close> bytes.\<close>

definition print_one :: "env \<Rightarrow> 'p peer \<Rightarrow> bool \<Rightarrow> int \<Rightarrow> node \<times> 'p \<Rightarrow> (node \<times> 'p) res" where
  "print_one E pr fetch j = (\<lambda>(n, p).
     rbind (page_offset (page_size n) j) (\<lambda>l.
     rbind (read_str (page_size n) l (mem n)) (\<lambda>(text, r).
     rbind (require OutOfBounds (length text \<le> page_size n)) (\<lambda>_.
     rbind (array_read (msi_array n) j) (\<lambda>st.
     case st of
       MSI_m \<Rightarrow> Inr (say (Out_page j text) (n\<lparr>mem := r\<rparr>), p)
     | MSI_s \<Rightarrow> Inr (say (Out_page j text) (n\<lparr>mem := r\<rparr>), p)
     | MSI_i \<Rightarrow>
         rbind (fetch_page E pr fetch j (say Out_fetching (n\<lparr>mem := r\<rparr>), p)) (\<lambda>(n', p', message).
         rbind (require OutOfBounds (length message \<le> page_size n)) (\<lambda>_.
         Inr (say (Out_page j message) n', p'))))))))"

definition printPageContents :: "env \<Rightarrow> 'p peer \<Rightarrow> int \<Rightarrow> bool \<Rightarrow> node \<times> 'p \<Rightarrow> (node \<times> 'p) res" where
  "printPageContents E pr request_page fetch = (\<lambda>(n, p).
     iter_res (print_one E pr fetch) (page_seq request_page (num_pages n)) (n, p))"

section \<open>The table of states\<close>

text \<open>\<open>fillWithInvalid\<close>: the loop runs \<open>j\<close> from 0 up to and including \<open>num_pages\<close>.\<close>

definition fillWithInvalid :: "nat \<Rightarrow> msi list \<Rightarrow> msi list res" where
  "fillWithInvalid np a = iter_res (\<lambda>j b. array_write b j MSI_i) [0..<Suc np] a"

fun getMSItype :: "msi \<Rightarrow> char" where
  "getMSItype MSI_m = CHR ''M''"
| "getMSItype MSI_s = CHR ''S''"
| "getMSItype MSI_i = CHR ''I''"

definition printMsiArray :: "node \<Rightarrow> node res" where
  "printMsiArray n = iter_res (\<lambda>j n. rbind (array_read (msi_array n) (int j))
       (\<lambda>v. Inr (say (Out_msi j (getMSItype v)) n))) [0..<num_pages n] n"

section \<open>The responder\<close>

text \<open>\<open>getResponse\<close> returns an address in the mapping or the address of \<open>"NULL"\<close>.\<close>

datatype response = Resp_page nat | Resp_null

definition getResponse :: "int \<Rightarrow> node \<Rightarrow> (response \<times> node) res" where
  "getResponse page n =
     rbind (array_read (msi_array n) page) (\<lambda>page_status.
     case page_status of
       MSI_m \<Rightarrow> rbind (set_msi page MSI_s n) (\<lambda>n'.
                  rbind (page_offset (page_size n) page) (\<lambda>l. Inr (Resp_page l, n')))
     | MSI_s \<Rightarrow> rbind (page_offset (page_size n) page) (\<lambda>l. Inr (Resp_page l, n))
     | MSI_i \<Rightarrow> Inr (Resp_null, n))"

definition transitionStateOnRead :: "int \<Rightarrow> node \<Rightarrow> node res" where
  "transitionStateOnRead request_page n =
     rbind (array_read (msi_array n) request_page) (\<lambda>page_status.
     case page_status of
       MSI_m \<Rightarrow> set_msi request_page MSI_s n
     | MSI_s \<Rightarrow> Inr n
     | MSI_i \<Rightarrow> Inr n)"

text \<open>\<open>snprintf(message, page_size, "%s", m)\<close> reads the string and keeps \<open>page_size - 1\<close> bytes.\<close>

fun snprintf_response :: "response \<Rightarrow> node \<Rightarrow> (string \<times> node) res" where
  "snprintf_response (Resp_page l) n =
     rbind (read_str (page_size n) l (mem n)) (\<lambda>(s, r).
       Inr (take (page_size n - 1) s, n\<lparr>mem := r\<rparr>))"
| "snprintf_response Resp_null n = Inr (take (page_size n - 1) ''NULL'', n)"

text \<open>One request, from the bytes read to the message sent back.\<close>

definition handle_request :: "env \<Rightarrow> char list \<Rightarrow> node \<Rightarrow> (string \<times> node) res" where
  "handle_request E d n =
     rbind (as_cstr (fill_buffer (page_size n) d)) (\<lambda>buffer.
     rbind (parse_request buffer) (\<lambda>(request_page, operation).
     rbind (array_read (msi_array n) request_page) (\<lambda>initialState.
     rbind
       (if operation = invalidateOp then
          rbind (set_msi request_page MSI_i (say (Out_request request_page operation) n)) (\<lambda>n'.
          rbind (mul_int request_page (int (page_size n))) (\<lambda>off.
          rbind (madvise_dontneed (page_size n) off (mem n')) (\<lambda>r.
          Inr (take (page_size n - 1) ''Success'', n'\<lparr>mem := r\<rparr>))))
        else if operation = readOp then
          rbind (getResponse request_page (say (Out_request request_page operation) n)) (\<lambda>(m, n').
          rbind (transitionStateOnRead request_page n') (\<lambda>n''.
          snprintf_response m n''))
        else Inr (garbage E, say (Out_request request_page operation) n))
     (\<lambda>(message, n'). Inr (message, say (Out_reply (getMSItype initialState) message) n')))))"

text \<open>
  One turn of the responder's loop: a read error exits, end of file turns around again, data is
  answered. \<open>send\<close> of an empty message sends nothing.
\<close>

definition responder_turn :: "env \<Rightarrow> net_reply \<Rightarrow> node \<Rightarrow> (net_reply \<times> node) res" where
  "responder_turn E input n =
     (case input of
        Net_error \<Rightarrow> Inl Exit_failure
      | Net_closed \<Rightarrow> Inr (Net_silence, n)
      | Net_silence \<Rightarrow> Inr (Net_silence, n)
      | Net_data d \<Rightarrow>
          rbind (handle_request E d n) (\<lambda>(message, n').
            Inr (if message = [] then Net_silence else Net_data message, n')))"

section \<open>The user's commands\<close>

datatype command = Cmd_read int | Cmd_write int string | Cmd_view | Cmd_other int

text \<open>
  One turn of the loop of \<open>main\<close>. The message is read by \<open>scanf\<close> into a buffer of
  \<open>page_size\<close> bytes without a bound; a longer one is written past the buffer.
\<close>

fun run_command :: "env \<Rightarrow> 'p peer \<Rightarrow> command \<Rightarrow> node \<times> 'p \<Rightarrow> (node \<times> 'p) res" where
  "run_command E pr (Cmd_read request_page) (n, p) = printPageContents E pr request_page True (n, p)"
| "run_command E pr (Cmd_write request_page message) (n, p) =
     rbind (require OutOfBounds (length message < page_size n)) (\<lambda>_.
     rbind (updatePageContents E pr request_page message True (n, p))
       (printPageContents E pr request_page False))"
| "run_command E pr Cmd_view (n, p) = rbind (printMsiArray n) (\<lambda>n'. Inr (n', p))"
| "run_command E pr (Cmd_other request_page) (n, p) = Inr (say Out_invalid_option n, p)"

end
