(* ===== verification/Dsm_Pages.thy ===== *)
theory Dsm_Pages
  imports Dsm_Node
begin

text \<open>
  Well-formed processes, the per-page view of a process (MSI state and the string the page
  holds), and the effect of every page operation of \<open>s2dsm.c\<close> on that view: which page
  changes, to what, and that every other page keeps its state and contents.
\<close>

section \<open>Well-formed processes and their pages\<close>

definition page_state :: "node \<Rightarrow> nat \<Rightarrow> msi" where
  "page_state n j = msi_array n ! j"

definition text_at :: "node \<Rightarrow> nat \<Rightarrow> string" where
  "text_at n j = page_text (page_size n) (mem n) j"

text \<open>
  \<open>msi_array\<close> has 100 entries and the filling loop writes \<open>num_pages + 1\<close> of them; page offsets
  are \<open>int\<close> products; a request must fit a page-sized buffer.
\<close>

definition wf_node :: "node \<Rightarrow> bool" where
  "wf_node n \<longleftrightarrow>
     wf_region (page_size n) (mem n) \<and> length (present (mem n)) = num_pages n \<and>
     length (msi_array n) = 100 \<and> num_pages n < 100 \<and> 8 \<le> page_size n \<and>
     num_pages n * page_size n < 2 ^ 31 \<and>
     (\<forall>j < num_pages n. terminated (page_size n) (mem n) j)"

lemma wf_nodeD:
  assumes "wf_node n"
  shows "wf_region (page_size n) (mem n)" "length (present (mem n)) = num_pages n"
    "length (msi_array n) = 100" "num_pages n < 100" "8 \<le> page_size n"
    "num_pages n * page_size n < 2 ^ 31"
    "\<And>j. j < num_pages n \<Longrightarrow> terminated (page_size n) (mem n) j"
    "length (bytes (mem n)) = num_pages n * page_size n"
  using assms wf_regionD(3)[of "page_size n" "mem n"] by (auto simp: wf_node_def)

lemma wf_node_log [simp]: "wf_node (n\<lparr>log := l\<rparr>) = wf_node n"
  by (simp add: wf_node_def)

lemma say_sel [simp]:
  "page_size (say x n) = page_size n" "num_pages (say x n) = num_pages n"
  "msi_array (say x n) = msi_array n" "mem (say x n) = mem n" "log (say x n) = log n @ [x]"
  "wf_node (say x n) = wf_node n" "page_state (say x n) = page_state n" "text_at (say x n) = text_at n"
  by (simp_all add: say_def page_state_def text_at_def fun_eq_iff)

lemma page_state_upd [simp]:
  "page_state (n\<lparr>mem := r\<rparr>) = page_state n" "page_state (n\<lparr>log := l\<rparr>) = page_state n"
  by (simp_all add: page_state_def fun_eq_iff)

lemma text_at_upd [simp]:
  "text_at (n\<lparr>msi_array := a\<rparr>) = text_at n" "text_at (n\<lparr>log := l\<rparr>) = text_at n"
  by (simp_all add: text_at_def fun_eq_iff)

lemma text_at_short:
  "wf_node n \<Longrightarrow> j < num_pages n \<Longrightarrow> length (text_at n j) < page_size n"
  by (simp add: text_at_def length_page_text wf_nodeD(7))

lemma is_cstr_text_at [simp]: "is_cstr (text_at n j)"
  by (simp add: text_at_def page_text_def)

text \<open>At most page \<open>j\<close> differs between the two processes.\<close>

definition only_page :: "nat \<Rightarrow> node \<Rightarrow> node \<Rightarrow> bool" where
  "only_page j n n' \<longleftrightarrow>
     wf_node n' \<and> page_size n' = page_size n \<and> num_pages n' = num_pages n \<and>
     (\<forall>q < num_pages n. q \<noteq> j \<longrightarrow> page_state n' q = page_state n q \<and> text_at n' q = text_at n q)"

lemma only_page_refl [simp]: "wf_node n \<Longrightarrow> only_page j n n"
  by (simp add: only_page_def)

lemma only_page_trans: "only_page j n n' \<Longrightarrow> only_page j n' n'' \<Longrightarrow> only_page j n n''"
  by (simp add: only_page_def)

lemma only_page_say [simp]: "only_page j n (say x n') = only_page j n n'"
  by (simp add: only_page_def)

lemma only_pageD:
  assumes "only_page j n n'"
  shows "wf_node n'" "page_size n' = page_size n" "num_pages n' = num_pages n"
    "\<And>q. q < num_pages n \<Longrightarrow> q \<noteq> j \<Longrightarrow> page_state n' q = page_state n q \<and> text_at n' q = text_at n q"
  using assms by (auto simp: only_page_def)

section \<open>The effect of the basic operations\<close>

lemma int_page_offset:
  assumes "wf_node n" and "j < num_pages n"
  shows "mul_int (int j) (int (page_size n)) = Inr (int (j * page_size n))"
    and "page_offset (page_size n) (int j) = Inr (j * page_size n)"
proof -
  have "j * page_size n \<le> num_pages n * page_size n"
    using assms(2) by (intro mult_le_mono1) simp
  then have "j * page_size n < 2 ^ 31" using wf_nodeD(6)[OF assms(1)] by linarith
  then have "int (j * page_size n) < int (2 ^ 31)" by (simp only: of_nat_less_iff)
  then have "in_int (int (j * page_size n))" by (auto simp: in_int_def simp del: of_nat_mult)
  then show "mul_int (int j) (int (page_size n)) = Inr (int (j * page_size n))"
    by (simp add: mul_int_def)
  then show "page_offset (page_size n) (int j) = Inr (j * page_size n)"
    by (simp add: page_offset_def del: of_nat_mult)
qed

lemma read_msi:
  "wf_node n \<Longrightarrow> j < num_pages n \<Longrightarrow> array_read (msi_array n) (int j) = Inr (page_state n j)"
  using wf_nodeD(3,4)[of n] by (simp add: array_read_def page_state_def)

lemma set_msi_ok:
  assumes "wf_node n" and "j < num_pages n"
  shows "\<exists>n'. set_msi (int j) v n = Inr n' \<and> only_page j n n' \<and> page_state n' j = v
           \<and> text_at n' j = text_at n j \<and> mem n' = mem n \<and> log n' = log n"
proof -
  let ?n = "n\<lparr>msi_array := (msi_array n)[j := v]\<rparr>"
  have "set_msi (int j) v n = Inr ?n" using read_msi[OF assms] by (simp add: set_msi_def)
  moreover have "wf_node ?n" using assms(1) by (simp add: wf_node_def)
  then have "only_page j n ?n" by (simp add: only_page_def page_state_def)
  moreover have "page_state ?n j = v" using assms wf_nodeD(3,4)[of n] by (simp add: page_state_def)
  ultimately show ?thesis by (intro exI[of _ ?n]) simp
qed

text \<open>Reading the string of a page: it may fault the page in, and changes nothing else.\<close>

lemma read_page_ok:
  assumes wf: "wf_node n" and j: "j < num_pages n"
  shows "\<exists>r. read_str (page_size n) (j * page_size n) (mem n) = Inr (text_at n j, r)
           \<and> wf_node (n\<lparr>mem := r\<rparr>) \<and> text_at (n\<lparr>mem := r\<rparr>) = text_at n"
proof -
  have "NUL \<in> set (drop (j * page_size n) (bytes (mem n)))"
    using wf_nodeD(7)[OF wf j] by (rule terminated_drop)
  then obtain r where r: "read_str (page_size n) (j * page_size n) (mem n) = Inr (text_at n j, r)"
      "bytes r = bytes (mem n)" "wf_region (page_size n) r" "length (present r) = length (present (mem n))"
    using read_str_ok[OF wf_nodeD(1)[OF wf]] by (auto simp: text_at_def page_text_def)
  then show ?thesis using wf
    by (auto simp: wf_node_def terminated_def text_at_def page_text_def fun_eq_iff)
qed

text \<open>Storing a short string in a page.\<close>

lemma put_str_terminated: "length s < length b \<Longrightarrow> NUL \<in> set (put_str b 0 s)"
  by (simp add: put_str_def)

lemma cstr_put_str: "is_cstr s \<Longrightarrow> cstr_of (put_str b 0 s) = s"
  by (simp add: put_str_def)

lemma write_page_ok:
  assumes wf: "wf_node n" and j: "j < num_pages n"
    and s: "is_cstr s" "length s < page_size n"
  shows "\<exists>r. write_str (page_size n) (j * page_size n) s (mem n) = Inr r
           \<and> only_page j n (n\<lparr>mem := r\<rparr>) \<and> text_at (n\<lparr>mem := r\<rparr>) j = s"
proof -
  note D = wf_nodeD[OF wf]
  let ?ps = "page_size n"
  have "(j + 1) * ?ps \<le> num_pages n * ?ps" using j by (intro mult_le_mono1) simp
  then have "j * ?ps + length s < length (bytes (mem n))" using s(2) D(8) by simp
  then obtain r where r: "write_str ?ps (j * ?ps) s (mem n) = Inr r"
      "bytes r = put_str (bytes (mem n)) (j * ?ps) s" "wf_region ?ps r"
      "length (present r) = length (present (mem n))"
    using write_str_ok[OF D(1)] by blast
  have same: "page_bytes ?ps (bytes r) j = put_str (page_bytes ?ps (bytes (mem n)) j) 0 s"
    using page_bytes_put_str_same[OF D(8) j s(2)] r(2) by simp
  have other: "page_bytes ?ps (bytes r) q = page_bytes ?ps (bytes (mem n)) q" if "q \<noteq> j" for q
    using page_bytes_put_str_other[OF D(8) j _ s(2)] r(2) that by auto
  have tj: "terminated ?ps r j"
    using s(2) length_page_bytes[OF D(8) j] by (simp add: terminated_def same put_str_terminated)
  have tq: "terminated ?ps r q" if "q < num_pages n" for q
    using tj other[of q] D(7)[OF that] by (cases "q = j") (auto simp: terminated_def)
  have "wf_node (n\<lparr>mem := r\<rparr>)" using r(3,4) tq D by (simp add: wf_node_def)
  moreover have "text_at (n\<lparr>mem := r\<rparr>) q = text_at n q" if "q < num_pages n" "q \<noteq> j" for q
    using tq[OF that(1)] D(7)[OF that(1)] other[OF that(2)]
    by (simp add: text_at_def page_text_page_bytes)
  moreover have "text_at (n\<lparr>mem := r\<rparr>) j = s"
    using tj s(1) by (simp add: text_at_def page_text_page_bytes same cstr_put_str)
  ultimately show ?thesis using r(1) by (auto simp: only_page_def)
qed

text \<open>Dropping a page: it reads as the empty string.\<close>

lemma drop_page_ok:
  assumes wf: "wf_node n" and j: "j < num_pages n"
  shows "\<exists>r. madvise_dontneed (page_size n) (int (j * page_size n)) (mem n) = Inr r
           \<and> only_page j n (n\<lparr>mem := r\<rparr>) \<and> text_at (n\<lparr>mem := r\<rparr>) j = [] \<and> \<not> present r ! j"
proof -
  note D = wf_nodeD[OF wf]
  let ?ps = "page_size n"
  obtain r where r: "madvise_dontneed ?ps (int (j * ?ps)) (mem n) = Inr r" "wf_region ?ps r"
      "length (present r) = num_pages n" "\<not> present r ! j"
      "page_bytes ?ps (bytes r) j = replicate ?ps NUL"
      "\<forall>q < num_pages n. q \<noteq> j \<longrightarrow> page_bytes ?ps (bytes r) q = page_bytes ?ps (bytes (mem n)) q"
    using madvise_ok[OF D(1), of j] j D(2) by auto
  have tj: "terminated ?ps r j" using r(5) D(5) by (simp add: terminated_def)
  have tq: "terminated ?ps r q" if "q < num_pages n" for q
    using tj r(6) D(7)[OF that] that by (cases "q = j") (auto simp: terminated_def)
  have "wf_node (n\<lparr>mem := r\<rparr>)" using r(2,3) tq D by (simp add: wf_node_def)
  moreover have "text_at (n\<lparr>mem := r\<rparr>) q = text_at n q" if "q < num_pages n" "q \<noteq> j" for q
    using tq[OF that(1)] D(7)[OF that(1)] r(6) that
    by (simp add: text_at_def page_text_page_bytes)
  moreover have "text_at (n\<lparr>mem := r\<rparr>) j = []"
    using tj D(5) r(5) by (simp add: text_at_def page_text_page_bytes cstr_of_def takeWhile_eq_Nil_iff)
  ultimately show ?thesis using r(1,4) by (auto simp: only_page_def)
qed

end
