(* ===== verification/Dsm_Responder.thy ===== *)
theory Dsm_Responder
  imports Dsm_Pages
begin

text \<open>
  The request protocol: what is sent is what the responder understands, and the effect of each
  request on the answering process, on every branch of \<open>responder\<close> in \<open>s2dsm.c\<close>.
\<close>

section \<open>Requests\<close>

lemma parse_format_request:
  "parse_request (format_request (int j) (int k)) = Inr (int j, int k)"
  by (simp add: parse_request_def format_request_def show_int_def strtok_token strtok_last_token)

lemma is_cstr_format_request [simp]: "is_cstr (format_request j k)"
  by (simp add: format_request_def)

lemma length_format_request:
  assumes "j < 100" and "k < 10"
  shows "length (format_request (int j) (int k)) < 8"
  using length_show_nat_le[of j 2] length_show_nat_le[of k 1] assms
  by (simp add: format_request_def show_int_def)

lemma as_cstr_fill_buffer:
  "is_cstr d \<Longrightarrow> length d < ps \<Longrightarrow> as_cstr (fill_buffer ps d) = Inr d"
  by (cases "ps - length d") (auto simp: as_cstr_def fill_buffer_def)

lemma as_cstr_fill_buffer_full:
  "is_cstr d \<Longrightarrow> ps \<le> length d \<Longrightarrow> as_cstr (fill_buffer ps d) = Inl OutOfBounds"
  by (auto simp: as_cstr_def fill_buffer_def is_cstr_def dest: in_set_takeD)

lemma readOp_int: "readOp = int 1" and invalidateOp_int: "invalidateOp = int 2"
  by (simp_all add: readOp_def invalidateOp_def)

section \<open>Answers\<close>

text \<open>A read request in state M or S hands out the page and leaves it shared.\<close>

lemma handle_read_valid:
  assumes wf: "wf_node n" and j: "j < num_pages n" and st: "page_state n j \<noteq> MSI_i"
  shows "\<exists>n'. handle_request E (format_request (int j) readOp) n = Inr (text_at n j, n')
           \<and> only_page j n n' \<and> page_state n' j = MSI_s \<and> text_at n' j = text_at n j"
proof -
  let ?n = "say (Out_request (int j) readOp) n"
  note D = wf_nodeD[OF wf]
  have len: "length (format_request (int j) readOp) < page_size n"
    using length_format_request[of j 1] D(4,5) j by (simp add: readOp_int del: of_nat_Suc of_nat_1)
  have parse: "parse_request (format_request (int j) readOp) = Inr (int j, readOp)"
    using parse_format_request[of j 1] by (simp add: readOp_int del: of_nat_1)
  obtain n1 where n1: "getResponse (int j) ?n = Inr (Resp_page (j * page_size n), n1)"
      "only_page j n n1" "page_state n1 j = MSI_s" "text_at n1 j = text_at n j"
  proof (cases "page_state n j")
    case MSI_m
    obtain n1 where "set_msi (int j) MSI_s ?n = Inr n1" "only_page j ?n n1" "page_state n1 j = MSI_s"
        "text_at n1 j = text_at ?n j"
      using set_msi_ok[of ?n j MSI_s] wf j by auto
    with that[of n1] MSI_m show ?thesis
      using read_msi[of ?n j] int_page_offset(2)[of ?n j] wf j
      by (auto simp: getResponse_def only_page_def)
  next
    case MSI_s
    then show ?thesis using that[of ?n] read_msi[of ?n j] int_page_offset(2)[of ?n j] wf j
      by (simp add: getResponse_def)
  next
    case MSI_i
    with st show ?thesis by simp
  qed
  note n1wf = only_pageD[OF n1(2)]
  have j1: "j < num_pages n1" using j n1wf(3) by simp
  have tr: "transitionStateOnRead (int j) n1 = Inr n1"
    using read_msi[OF n1wf(1) j1] n1(3) by (simp add: transitionStateOnRead_def)
  obtain r where r: "read_str (page_size n1) (j * page_size n1) (mem n1) = Inr (text_at n1 j, r)"
      "wf_node (n1\<lparr>mem := r\<rparr>)" "text_at (n1\<lparr>mem := r\<rparr>) = text_at n1"
    using read_page_ok[OF n1wf(1) j1] by blast
  have tk: "take (page_size n - 1) (text_at n j) = text_at n j"
    using text_at_short[OF wf j] by simp
  have only: "only_page j n (n1\<lparr>mem := r\<rparr>)"
    using n1(2) r(2,3) by (simp add: only_page_def)
  let ?m = "say (Out_reply (getMSItype (page_state n j)) (text_at n j)) (n1\<lparr>mem := r\<rparr>)"
  have "handle_request E (format_request (int j) readOp) n = Inr (text_at n j, ?m)"
    using len parse read_msi[OF wf j] n1(1,4) tr r(1) tk n1wf(2)
    by (simp add: handle_request_def as_cstr_fill_buffer readOp_def invalidateOp_def)
  with only n1(3,4) r(3) show ?thesis by (intro exI[of _ ?m]) simp
qed

text \<open>A read request in state I is answered with \<open>"NULL"\<close> and changes no page.\<close>

lemma handle_read_invalid:
  assumes wf: "wf_node n" and j: "j < num_pages n" and st: "page_state n j = MSI_i"
  shows "\<exists>n'. handle_request E (format_request (int j) readOp) n = Inr (''NULL'', n')
           \<and> only_page j n n' \<and> page_state n' j = MSI_i \<and> text_at n' j = text_at n j"
proof -
  note D = wf_nodeD[OF wf]
  have len: "length (format_request (int j) readOp) < page_size n"
    using length_format_request[of j 1] D(4,5) j by (simp add: readOp_int del: of_nat_Suc of_nat_1)
  have parse: "parse_request (format_request (int j) readOp) = Inr (int j, readOp)"
    using parse_format_request[of j 1] by (simp add: readOp_int del: of_nat_1)
  let ?m = "say (Out_reply (getMSItype (page_state n j)) ''NULL'') (say (Out_request (int j) readOp) n)"
  have "handle_request E (format_request (int j) readOp) n = Inr (''NULL'', ?m)"
    using len parse read_msi[OF wf j] st D(5)
    by (simp add: handle_request_def as_cstr_fill_buffer readOp_def invalidateOp_def
        getResponse_def transitionStateOnRead_def take_Cons')
  then show ?thesis using wf st by (intro exI[of _ ?m]) simp
qed

text \<open>An invalidate request drops the page, whatever its state.\<close>

lemma handle_invalidate:
  assumes wf: "wf_node n" and j: "j < num_pages n"
  shows "\<exists>n'. handle_request E (format_request (int j) invalidateOp) n = Inr (''Success'', n')
           \<and> only_page j n n' \<and> page_state n' j = MSI_i \<and> text_at n' j = [] \<and> \<not> present (mem n') ! j"
proof -
  let ?n = "say (Out_request (int j) invalidateOp) n"
  note D = wf_nodeD[OF wf]
  have len: "length (format_request (int j) invalidateOp) < page_size n"
    using length_format_request[of j 2] D(4,5) j by (simp add: invalidateOp_int del: of_nat_numeral)
  have parse: "parse_request (format_request (int j) invalidateOp) = Inr (int j, invalidateOp)"
    using parse_format_request[of j 2] by (simp add: invalidateOp_int del: of_nat_numeral)
  obtain n1 where n1: "set_msi (int j) MSI_i ?n = Inr n1" "only_page j ?n n1" "page_state n1 j = MSI_i"
    using set_msi_ok[of ?n j MSI_i] wf j by auto
  note n1wf = only_pageD[OF n1(2)]
  have j1: "j < num_pages n1" using j n1wf(3) by simp
  obtain r where r: "madvise_dontneed (page_size n1) (int (j * page_size n1)) (mem n1) = Inr r"
      "only_page j n1 (n1\<lparr>mem := r\<rparr>)" "text_at (n1\<lparr>mem := r\<rparr>) j = []" "\<not> present r ! j"
    using drop_page_ok[OF n1wf(1) j1] by blast
  have only: "only_page j n (n1\<lparr>mem := r\<rparr>)"
    using n1(2) r(2) by (auto simp: only_page_def)
  let ?m = "say (Out_reply (getMSItype (page_state n j)) ''Success'') (n1\<lparr>mem := r\<rparr>)"
  have "handle_request E (format_request (int j) invalidateOp) n = Inr (''Success'', ?m)"
    using len parse read_msi[OF wf j] n1(1) r(1) int_page_offset(1)[OF wf j] n1wf(2) D(5)
    by (simp add: handle_request_def as_cstr_fill_buffer invalidateOp_def)
  then show ?thesis using only n1(3) r(3,4) by (intro exI[of _ ?m]) simp
qed

end
