(* ===== verification/Dsm_System.thy ===== *)
theory Dsm_System
  imports Dsm_Responder
begin

text \<open>
  Two processes of \<open>s2dsm.c\<close> joined: the main loop of one talks to the responder thread of the
  other. Here a command runs to its end before the next one starts; interleavings are the
  subject of \<open>Dsm_Race\<close>. The joint behaviour on one page is specified by a small protocol on
  the pair of (state, contents) of the two processes, and the code is shown to refine it.
\<close>

section \<open>The peer's responder as the other end of the socket\<close>

text \<open>A responder that faults takes its process down; its peer then reads end of file.\<close>

definition responder_peer :: "env \<Rightarrow> node res peer" where
  "responder_peer E msg p =
     (case p of
        Inl e \<Rightarrow> (Inl e, Net_closed)
      | Inr n \<Rightarrow>
          (case responder_turn E (Net_data msg) n of
             Inl e \<Rightarrow> (Inl e, Net_closed)
           | Inr (reply, n') \<Rightarrow> (Inr n', reply)))"

section \<open>The protocol on one page\<close>

type_synonym page_view = "(msi \<times> string) \<times> (msi \<times> string)"

definition view :: "node \<Rightarrow> node \<Rightarrow> nat \<Rightarrow> page_view" where
  "view a b j = ((page_state a j, text_at a j), (page_state b j, text_at b j))"

definition spec_write :: "string \<Rightarrow> page_view \<Rightarrow> page_view" where
  "spec_write message v = ((MSI_m, message), (MSI_i, []))"

text \<open>
  A read of the first process: the new view and what is printed; \<open>None\<close> where the reader waits
  for ever, because the peer's page is the empty string and an empty answer is not sent.
\<close>

fun spec_read :: "page_view \<Rightarrow> (page_view \<times> string) option" where
  "spec_read ((MSI_m, t), q) = Some (((MSI_m, t), q), t)"
| "spec_read ((MSI_s, t), q) = Some (((MSI_s, t), q), t)"
| "spec_read ((MSI_i, t), (MSI_i, u)) = Some (((MSI_i, []), (MSI_i, u)), [])"
| "spec_read ((MSI_i, t), (st, u)) =
     (if u = ''NULL'' then Some (((MSI_i, []), (MSI_s, u)), [])
      else if u = [] then None
      else Some (((MSI_s, u), (MSI_s, u)), u))"

section \<open>Well-formed pairs\<close>

definition wf_pair :: "node \<Rightarrow> node \<Rightarrow> bool" where
  "wf_pair a b \<longleftrightarrow> wf_node a \<and> wf_node b \<and> page_size b = page_size a \<and> num_pages b = num_pages a"

lemma wf_pairD:
  assumes "wf_pair a b"
  shows "wf_node a" "wf_node b" "page_size b = page_size a" "num_pages b = num_pages a"
  using assms by (auto simp: wf_pair_def)

lemma wf_pair_sym: "wf_pair a b \<Longrightarrow> wf_pair b a"
  by (simp add: wf_pair_def)

lemma wf_pair_only:
  "wf_pair a b \<Longrightarrow> only_page j a a' \<Longrightarrow> only_page j b b' \<Longrightarrow> wf_pair a' b'"
  by (simp add: wf_pair_def only_page_def)

lemma view_only_page:
  assumes "wf_pair a b" "only_page j a a'" "only_page j b b'" "q < num_pages a" "q \<noteq> j"
  shows "view a' b' q = view a b q"
  using assms by (simp add: view_def wf_pair_def only_page_def)

section \<open>One exchange with the peer\<close>

lemma communicate_ok:
  assumes wf: "wf_node b" and j: "j < num_pages b" and k: "k < 10"
    and h: "handle_request E (format_request (int j) (int k)) b = Inr (message, b')"
    and m: "is_cstr message" "length message < page_size b" and E: "frame_intact E"
  shows "communicateWithPeer E (responder_peer E) (page_size b) (int j) (int k) (Inr b) =
     (if message = [] then Inl Blocked else Inr (fill_buffer (page_size b) message, Inr b'))"
proof -
  have "length (format_request (int j) (int k)) < page_size b"
    using length_format_request[of j k] wf_nodeD(4,5)[OF wf] j k by simp
  with h E show ?thesis
    by (simp add: communicateWithPeer_def responder_peer_def responder_turn_def frame_intact_def)
qed

lemma invalidate_peer:
  assumes wf: "wf_node b" and j: "j < num_pages b" and E: "frame_intact E"
  shows "\<exists>buf b'. communicateWithPeer E (responder_peer E) (page_size b) (int j) invalidateOp (Inr b)
             = Inr (buf, Inr b')
           \<and> only_page j b b' \<and> page_state b' j = MSI_i \<and> text_at b' j = [] \<and> \<not> present (mem b') ! j"
proof -
  obtain b' where b': "handle_request E (format_request (int j) invalidateOp) b = Inr (''Success'', b')"
      "only_page j b b'" "page_state b' j = MSI_i" "text_at b' j = []" "\<not> present (mem b') ! j"
    using handle_invalidate[OF wf j] by blast
  have "communicateWithPeer E (responder_peer E) (page_size b) (int j) (int 2) (Inr b)
          = Inr (fill_buffer (page_size b) ''Success'', Inr b')"
    using communicate_ok[OF wf j, of 2 E "''Success''" b'] b'(1) wf_nodeD(5)[OF wf] E
    by (simp add: invalidateOp_int del: of_nat_numeral)
  with b'(2-) show ?thesis unfolding invalidateOp_int by blast
qed

section \<open>Local writes\<close>

lemma update_one_local:
  assumes wf: "wf_node a" and j: "j < num_pages a" and s: "is_cstr s" "length s < page_size a"
  shows "\<exists>a'. updatePageContents E pr (int j) s False (a, p) = Inr (a', p)
           \<and> only_page j a a' \<and> text_at a' j = s \<and> page_state a' j = page_state a j \<and> log a' = log a"
proof -
  obtain r where "write_str (page_size a) (j * page_size a) s (mem a) = Inr r"
      "only_page j a (a\<lparr>mem := r\<rparr>)" "text_at (a\<lparr>mem := r\<rparr>) j = s"
    using write_page_ok[OF wf j s] by blast
  then show ?thesis
    using int_page_offset(2)[OF wf j]
    by (simp add: updatePageContents_def update_one_def page_seq_def)
qed

section \<open>A page asked for\<close>

lemma ask_peer:
  assumes wf: "wf_node b" and j: "j < num_pages b" and E: "frame_intact E"
  shows "\<exists>b'. communicateWithPeer E (responder_peer E) (page_size b) (int j) readOp (Inr b) =
             (let message = (if page_state b j = MSI_i then ''NULL'' else text_at b j) in
              if message = [] then Inl Blocked else Inr (fill_buffer (page_size b) message, Inr b'))
           \<and> only_page j b b' \<and> text_at b' j = text_at b j
           \<and> page_state b' j = (if page_state b j = MSI_i then MSI_i else MSI_s)"
proof (cases "page_state b j = MSI_i")
  case True
  obtain b' where b': "handle_request E (format_request (int j) readOp) b = Inr (''NULL'', b')"
      "only_page j b b'" "page_state b' j = MSI_i" "text_at b' j = text_at b j"
    using handle_read_invalid[OF wf j True] by blast
  then show ?thesis
    using communicate_ok[OF wf j, of 1 E "''NULL''" b'] wf_nodeD(5)[OF wf] E True
    by (auto simp: readOp_int simp del: of_nat_1)
next
  case False
  obtain b' where b': "handle_request E (format_request (int j) readOp) b = Inr (text_at b j, b')"
      "only_page j b b'" "page_state b' j = MSI_s" "text_at b' j = text_at b j"
    using handle_read_valid[OF wf j False] by blast
  then show ?thesis
    using communicate_ok[OF wf j, of 1 E "text_at b j" b'] text_at_short[OF wf j] E False
    by (auto simp: readOp_int Let_def simp del: of_nat_1)
qed

section \<open>What the main loop needs from its peer\<close>

text \<open>
  The contract of the other end of the socket: an invalidation leaves the peer's page invalid
  and empty; a read is answered with the page, or with \<open>"NULL"\<close> when it is invalid, and
  leaves a valid page shared; nothing else at the peer changes. \<open>peer_ok ps np\<close> is its
  well-formedness for a page size and a number of pages, \<open>peer_page\<close> its page, \<open>peer_same\<close>
  says that at most one page differs.
\<close>

locale msi_peer =
  fixes E :: env
    and pr :: "'p peer"
    and peer_ok :: "nat \<Rightarrow> nat \<Rightarrow> 'p \<Rightarrow> bool"
    and peer_page :: "'p \<Rightarrow> nat \<Rightarrow> msi \<times> string"
    and peer_same :: "nat \<Rightarrow> 'p \<Rightarrow> 'p \<Rightarrow> bool"
  assumes peer_invalidate: "peer_ok ps np p \<Longrightarrow> j < np \<Longrightarrow>
      \<exists>buf p'. communicateWithPeer E pr ps (int j) invalidateOp p = Inr (buf, p')
        \<and> peer_ok ps np p' \<and> peer_same j p p' \<and> peer_page p' j = (MSI_i, [])"
    and peer_read: "peer_ok ps np p \<Longrightarrow> j < np \<Longrightarrow>
      \<exists>p'. communicateWithPeer E pr ps (int j) readOp p =
          (let message = (if fst (peer_page p j) = MSI_i then ''NULL'' else snd (peer_page p j)) in
           if message = [] then Inl Blocked else Inr (fill_buffer ps message, p'))
        \<and> peer_ok ps np p' \<and> peer_same j p p'
        \<and> peer_page p' j = (if fst (peer_page p j) = MSI_i then MSI_i else MSI_s, snd (peer_page p j))"
    and peer_text: "peer_ok ps np p \<Longrightarrow> j < np \<Longrightarrow>
      is_cstr (snd (peer_page p j)) \<and> length (snd (peer_page p j)) < ps"
    and peer_refl: "peer_ok ps np p \<Longrightarrow> peer_same j p p"
begin

lemma write_one:
  assumes wf: "wf_node a" and p: "peer_ok (page_size a) (num_pages a) p" and j: "j < num_pages a"
    and s: "is_cstr s" "length s < page_size a"
  shows "\<exists>a' p'. update_one E pr s True (int j) (a, p) = Inr (a', p')
           \<and> only_page j a a' \<and> peer_ok (page_size a) (num_pages a) p' \<and> peer_same j p p'
           \<and> ((page_state a' j, text_at a' j), peer_page p' j)
               = spec_write s ((page_state a j, text_at a j), peer_page p j)
           \<and> log a' = log a @ [Out_writing (int j)]"
proof -
  obtain r where r: "write_str (page_size a) (j * page_size a) s (mem a) = Inr r"
      "only_page j a (a\<lparr>mem := r\<rparr>)" "text_at (a\<lparr>mem := r\<rparr>) j = s"
    using write_page_ok[OF wf j s] by blast
  let ?a = "a\<lparr>mem := r\<rparr>"
  have wfa: "wf_node ?a" using r(2) by (rule only_pageD)
  obtain a1 where a1: "set_msi (int j) MSI_m ?a = Inr a1" "only_page j ?a a1"
      "page_state a1 j = MSI_m" "text_at a1 j = s" "log a1 = log a"
    using set_msi_ok[OF wfa, of j MSI_m] j r(3) by auto
  obtain buf p' where p': "communicateWithPeer E pr (page_size a) (int j) invalidateOp p = Inr (buf, p')"
      "peer_ok (page_size a) (num_pages a) p'" "peer_same j p p'" "peer_page p' j = (MSI_i, [])"
    using peer_invalidate[OF p j] by blast
  let ?a' = "say (Out_writing (int j)) a1"
  have "update_one E pr s True (int j) (a, p) = Inr (?a', p')"
    using int_page_offset(2)[OF wf j] r(1) a1(1) p'(1) only_pageD(2)[OF a1(2)]
    by (simp add: update_one_def transitionStateOnWrite_def)
  moreover have "only_page j a ?a'" using only_page_trans[OF r(2) a1(2)] by simp
  ultimately show ?thesis using a1(3-) p'(2-) by (simp add: spec_write_def)
qed

lemma fetch_one:
  assumes wf: "wf_node a" and p: "peer_ok (page_size a) (num_pages a) p" and j: "j < num_pages a"
    and st: "page_state a j = MSI_i"
  shows "case spec_read ((page_state a j, text_at a j), peer_page p j) of
           None \<Rightarrow> fetch_page E pr True (int j) (a, p) = Inl Blocked
         | Some (v, t) \<Rightarrow> \<exists>a' p'. fetch_page E pr True (int j) (a, p) = Inr (a', p', t)
             \<and> only_page j a a' \<and> peer_ok (page_size a) (num_pages a) p' \<and> peer_same j p p'
             \<and> ((page_state a' j, text_at a' j), peer_page p' j) = v \<and> log a' = log a"
proof -
  obtain u t where q: "peer_page p j = (u, t)" by (cases "peer_page p j")
  have t: "is_cstr t" "length t < page_size a" using peer_text[OF p j] q by simp_all
  define m where "m = (if u = MSI_i then ''NULL'' else t)"
  obtain p' where p': "communicateWithPeer E pr (page_size a) (int j) readOp p =
             (if m = [] then Inl Blocked else Inr (fill_buffer (page_size a) m, p'))"
      "peer_ok (page_size a) (num_pages a) p'" "peer_same j p p'"
      "peer_page p' j = (if u = MSI_i then MSI_i else MSI_s, t)"
    using peer_read[OF p j] unfolding q m_def Let_def fst_conv snd_conv by blast
  have m': "is_cstr m" "length m < page_size a"
    using t wf_nodeD(5)[OF wf] by (simp_all add: m_def)
  then have cstr: "as_cstr (fill_buffer (page_size a) m) = Inr m" by (rule as_cstr_fill_buffer)
  show ?thesis
  proof (cases "m = ''NULL''")
    case True
    obtain r where r: "madvise_dontneed (page_size a) (int (j * page_size a)) (mem a) = Inr r"
        "only_page j a (a\<lparr>mem := r\<rparr>)" "text_at (a\<lparr>mem := r\<rparr>) j = []"
      using drop_page_ok[OF wf j] by blast
    have run: "fetch_page E pr True (int j) (a, p) = Inr (a\<lparr>mem := r\<rparr>, p', [])"
      using p'(1) cstr True int_page_offset(1)[OF wf j] r(1)
      by (simp add: fetch_page_def del: of_nat_mult)
    have "spec_read ((page_state a j, text_at a j), peer_page p j)
            = Some (((MSI_i, []), peer_page p' j), [])"
      using True p'(4) st q by (cases u) (simp_all add: m_def)
    with run r p'(2,3) st show ?thesis by simp
  next
    case False
    then have u: "u \<noteq> MSI_i" and mt: "m = t" by (auto simp: m_def)
    show ?thesis
    proof (cases "m = []")
      case True
      then have "fetch_page E pr True (int j) (a, p) = Inl Blocked"
        using p'(1) by (simp add: fetch_page_def)
      moreover have "spec_read ((page_state a j, text_at a j), peer_page p j) = None"
        using True u st mt q by (cases u) simp_all
      ultimately show ?thesis by simp
    next
      case nonempty: False
      obtain a1 where a1: "updatePageContents E pr (int j) m False (a, p') = Inr (a1, p')"
          "only_page j a a1" "text_at a1 j = m" "log a1 = log a"
        using update_one_local[OF wf j m'] by metis
      have "wf_node a1" "j < num_pages a1" using only_pageD(1,3)[OF a1(2)] j by simp_all
      then obtain a2 where a2: "set_msi (int j) MSI_s a1 = Inr a2" "only_page j a1 a2"
          "page_state a2 j = MSI_s" "text_at a2 j = text_at a1 j" "log a2 = log a1"
        using set_msi_ok by metis
      have run: "fetch_page E pr True (int j) (a, p) = Inr (a2, p', m)"
        using p'(1) cstr False nonempty a1(1) a2(1) by (simp add: fetch_page_def)
      have "spec_read ((page_state a j, text_at a j), peer_page p j) = Some (((MSI_s, m), (MSI_s, m)), m)"
        using False nonempty u st mt q by (cases u) simp_all
      with run show ?thesis
        using only_page_trans[OF a1(2) a2(2)] p'(2-) a1(3,4) a2(3-) u mt by simp
    qed
  qed
qed

text \<open>One turn of the printing loop, fetching, behaves as \<open>spec_read\<close> says.\<close>

lemma read_one:
  assumes wf: "wf_node a" and p: "peer_ok (page_size a) (num_pages a) p" and j: "j < num_pages a"
  shows "case spec_read ((page_state a j, text_at a j), peer_page p j) of
           None \<Rightarrow> print_one E pr True (int j) (a, p) = Inl Blocked
         | Some (v, t) \<Rightarrow> \<exists>a' p'. print_one E pr True (int j) (a, p) = Inr (a', p')
             \<and> only_page j a a' \<and> peer_ok (page_size a) (num_pages a) p' \<and> peer_same j p p'
             \<and> ((page_state a' j, text_at a' j), peer_page p' j) = v
             \<and> last (log a') = Out_page (int j) t"
proof -
  obtain r where r: "read_str (page_size a) (j * page_size a) (mem a) = Inr (text_at a j, r)"
      "wf_node (a\<lparr>mem := r\<rparr>)" "text_at (a\<lparr>mem := r\<rparr>) = text_at a"
    using read_page_ok[OF wf j] by blast
  let ?a = "a\<lparr>mem := r\<rparr>"
  have only: "only_page j a ?a" using r(2,3) by (simp add: only_page_def)
  have short: "length (text_at a j) \<le> page_size a" using text_at_short[OF wf j] by simp
  note start = int_page_offset(2)[OF wf j] r(1) read_msi[OF wf j] short
  show ?thesis
  proof (cases "page_state a j = MSI_i")
    case False
    let ?a' = "say (Out_page (int j) (text_at a j)) ?a"
    have "print_one E pr True (int j) (a, p) = Inr (?a', p)"
      using start False by (cases "page_state a j") (simp_all add: print_one_def)
    moreover have "only_page j a ?a'" using only by simp
    ultimately show ?thesis using False r(3) p peer_refl[OF p]
      by (cases "page_state a j") auto
  next
    case True
    let ?f = "say Out_fetching ?a"
    have eq: "page_size ?f = page_size a" "num_pages ?f = num_pages a" "page_state ?f = page_state a"
      "text_at ?f = text_at a" "wf_node ?f" using r(2,3) by simp_all
    have F: "case spec_read ((page_state a j, text_at a j), peer_page p j) of
           None \<Rightarrow> fetch_page E pr True (int j) (?f, p) = Inl Blocked
         | Some (v, t) \<Rightarrow> \<exists>a' p'. fetch_page E pr True (int j) (?f, p) = Inr (a', p', t)
             \<and> only_page j ?f a' \<and> peer_ok (page_size a) (num_pages a) p' \<and> peer_same j p p'
             \<and> ((page_state a' j, text_at a' j), peer_page p' j) = v \<and> log a' = log ?f"
      using fetch_one[of ?f p j, unfolded eq(1-4)] eq(5) p j True by simp
    show ?thesis
    proof (cases "spec_read ((page_state a j, text_at a j), peer_page p j)")
      case None
      then show ?thesis using F start True by (simp add: print_one_def)
    next
      case (Some vt)
      obtain v t where vt: "vt = (v, t)" by (cases vt)
      then obtain a1 p1 where a1: "fetch_page E pr True (int j) (?f, p) = Inr (a1, p1, t)"
          "only_page j ?f a1" "peer_ok (page_size a) (num_pages a) p1" "peer_same j p p1"
          "((page_state a1 j, text_at a1 j), peer_page p1 j) = v" using F Some by auto
      have sz: "page_size a1 = page_size a" using only_pageD(2)[OF a1(2)] by simp
      obtain u w where q: "peer_page p j = (u, w)" by (cases "peer_page p j")
      have t: "length t \<le> page_size a"
        using Some vt True q peer_text[OF p j] by (cases u) (auto split: if_splits)
      let ?a' = "say (Out_page (int j) t) a1"
      have "print_one E pr True (int j) (a, p) = Inr (?a', p1)"
        using start True a1(1) t sz by (simp add: print_one_def)
      moreover have "only_page j a ?a'" using only a1(2) by (simp add: only_page_def)
      ultimately show ?thesis using Some vt a1(3-) by simp
    qed
  qed
qed

end

section \<open>The responder keeps the contract\<close>

definition node_peer_ok :: "env \<Rightarrow> nat \<Rightarrow> nat \<Rightarrow> node res \<Rightarrow> bool" where
  "node_peer_ok E ps np p \<longleftrightarrow> frame_intact E \<and>
     (case p of Inl _ \<Rightarrow> False | Inr b \<Rightarrow> wf_node b \<and> page_size b = ps \<and> num_pages b = np)"

definition node_peer_page :: "node res \<Rightarrow> nat \<Rightarrow> msi \<times> string" where
  "node_peer_page p j = (case p of Inl _ \<Rightarrow> (MSI_i, []) | Inr b \<Rightarrow> (page_state b j, text_at b j))"

definition node_peer_same :: "nat \<Rightarrow> node res \<Rightarrow> node res \<Rightarrow> bool" where
  "node_peer_same j p p' \<longleftrightarrow>
     (case (p, p') of (Inr b, Inr b') \<Rightarrow> only_page j b b' | _ \<Rightarrow> False)"

lemmas node_peer_defs = node_peer_ok_def node_peer_page_def node_peer_same_def

interpretation responder: msi_peer E "responder_peer E" "node_peer_ok E" node_peer_page node_peer_same for E
proof
  fix ps np p j
  assume ok: "node_peer_ok E ps np p"
  then obtain b where b: "p = Inr b" "wf_node b" "page_size b = ps" "num_pages b = np" "frame_intact E"
    by (auto simp: node_peer_ok_def split: sum.splits)
  show "node_peer_same j p p" using b by (simp add: node_peer_defs)
  assume "j < np"
  then have j: "j < num_pages b" using b by simp
  show "is_cstr (snd (node_peer_page p j)) \<and> length (snd (node_peer_page p j)) < ps"
    using b text_at_short[OF b(2) j] by (simp add: node_peer_defs)
  show "\<exists>buf p'. communicateWithPeer E (responder_peer E) ps (int j) invalidateOp p = Inr (buf, p')
        \<and> node_peer_ok E ps np p' \<and> node_peer_same j p p' \<and> node_peer_page p' j = (MSI_i, [])"
    using invalidate_peer[OF b(2) j b(5)] b only_pageD by (fastforce simp: node_peer_defs)
  obtain b' where b': "communicateWithPeer E (responder_peer E) ps (int j) readOp p =
             (let message = (if page_state b j = MSI_i then ''NULL'' else text_at b j) in
              if message = [] then Inl Blocked else Inr (fill_buffer ps message, Inr b'))"
      "only_page j b b'" "text_at b' j = text_at b j"
      "page_state b' j = (if page_state b j = MSI_i then MSI_i else MSI_s)"
    using ask_peer[OF b(2) j b(5)] unfolding b(1,3) by blast
  then show "\<exists>p'. communicateWithPeer E (responder_peer E) ps (int j) readOp p =
          (let message = (if fst (node_peer_page p j) = MSI_i then ''NULL'' else snd (node_peer_page p j)) in
           if message = [] then Inl Blocked else Inr (fill_buffer ps message, p'))
        \<and> node_peer_ok E ps np p' \<and> node_peer_same j p p'
        \<and> node_peer_page p' j = (if fst (node_peer_page p j) = MSI_i then MSI_i else MSI_s, snd (node_peer_page p j))"
    using b only_pageD[OF b'(2)] by (intro exI[of _ "Inr b'"]) (simp add: node_peer_defs)
qed

lemma node_peer_ok_pair:
  "wf_pair a b \<Longrightarrow> frame_intact E \<Longrightarrow> node_peer_ok E (page_size a) (num_pages a) (Inr b)"
  by (simp add: node_peer_ok_def wf_pair_def)

lemma node_peer_sameE:
  assumes "node_peer_same j (Inr b) p'"
  obtains b' where "p' = Inr b'" and "only_page j b b'"
  using assms by (auto simp: node_peer_same_def split: sum.splits)

section \<open>A page written and a page read, by two joined processes\<close>

lemma update_one_write:
  assumes wf: "wf_pair a b" and j: "j < num_pages a" and E: "frame_intact E"
    and s: "is_cstr s" "length s < page_size a"
  shows "\<exists>a' b'. update_one E (responder_peer E) s True (int j) (a, Inr b) = Inr (a', Inr b')
           \<and> only_page j a a' \<and> only_page j b b' \<and> view a' b' j = spec_write s (view a b j)
           \<and> log a' = log a @ [Out_writing (int j)]"
  using responder.write_one[OF wf_pairD(1)[OF wf] node_peer_ok_pair[OF wf E] j s]
  by (auto simp: view_def node_peer_page_def elim!: node_peer_sameE)

lemma print_one_read:
  assumes wf: "wf_pair a b" and j: "j < num_pages a" and E: "frame_intact E"
  shows "case spec_read (view a b j) of
           None \<Rightarrow> print_one E (responder_peer E) True (int j) (a, Inr b) = Inl Blocked
         | Some (v, t) \<Rightarrow> \<exists>a' b'. print_one E (responder_peer E) True (int j) (a, Inr b) = Inr (a', Inr b')
             \<and> only_page j a a' \<and> only_page j b b' \<and> view a' b' j = v
             \<and> last (log a') = Out_page (int j) t"
proof -
  have v: "((page_state a j, text_at a j), node_peer_page (Inr b) j) = view a b j"
    by (simp add: view_def node_peer_page_def)
  show ?thesis
    using responder.read_one[OF wf_pairD(1)[OF wf] node_peer_ok_pair[OF wf E] j, unfolded v]
    by (cases "spec_read (view a b j)") (auto simp: view_def node_peer_page_def elim!: node_peer_sameE)
qed

end
