(* ===== verification/Dsm_Coherence.thy ===== *)
theory Dsm_Coherence
  imports Dsm_System
begin

text \<open>
  Whole commands of \<open>s2dsm.c\<close> on two joined processes: every command moves every page by steps
  of the one-page protocol, so what the protocol keeps (one writer excludes all other copies,
  shared copies agree) holds in every reachable state; what a command does on success, on
  every page, and which requests fault.
\<close>

section \<open>The protocol as a step relation\<close>

inductive page_step :: "page_view \<Rightarrow> page_view \<Rightarrow> bool" where
  write_first: "page_step v (spec_write message v)"
| read_first: "spec_read v = Some (v', t) \<Longrightarrow> page_step v v'"
| write_second: "page_step v (prod.swap (spec_write message (prod.swap v)))"
| read_second: "spec_read (prod.swap v) = Some (v', t) \<Longrightarrow> page_step v (prod.swap v')"

inductive_cases page_stepE: "page_step v w"

text \<open>Single writer, agreeing readers.\<close>

definition coherent :: "page_view \<Rightarrow> bool" where
  "coherent v = (case v of ((st, t), (st', t')) \<Rightarrow>
     (st = MSI_m \<longrightarrow> st' = MSI_i) \<and> (st' = MSI_m \<longrightarrow> st = MSI_i) \<and>
     (st = MSI_s \<and> st' = MSI_s \<longrightarrow> t = t'))"

lemma coherent_swap [simp]: "coherent (prod.swap v) = coherent v"
  by (auto simp: coherent_def split: prod.splits)

lemma coherent_spec_write: "coherent (spec_write message v)"
  by (simp add: coherent_def spec_write_def)

lemma coherent_spec_read: "spec_read v = Some (v', t) \<Longrightarrow> coherent v \<Longrightarrow> coherent v'"
  by (induction v rule: spec_read.induct) (auto simp: coherent_def split: if_splits)

lemma coherent_page_step: "page_step v w \<Longrightarrow> coherent v \<Longrightarrow> coherent w"
  by (erule page_stepE) (use coherent_spec_write coherent_spec_read coherent_swap in metis)+

lemma coherent_page_steps: "page_step\<^sup>*\<^sup>* v w \<Longrightarrow> coherent v \<Longrightarrow> coherent w"
  by (induction rule: rtranclp_induct) (auto intro: coherent_page_step)

lemma page_step_swap: "page_step v w \<Longrightarrow> page_step (prod.swap v) (prod.swap w)"
proof (erule page_stepE)
  fix message assume "w = spec_write message v"
  then show ?thesis using write_second[of "prod.swap v" message] by simp
next
  fix t assume "spec_read v = Some (w, t)"
  then show ?thesis using read_second[of "prod.swap v" w t] by simp
next
  fix message assume "w = prod.swap (spec_write message (prod.swap v))"
  then show ?thesis using write_first[of "prod.swap v" message] by simp
next
  fix v' t assume "w = prod.swap v'" "spec_read (prod.swap v) = Some (v', t)"
  then show ?thesis using read_first[of "prod.swap v" v' t] by simp
qed

lemma page_steps_swap: "page_step\<^sup>*\<^sup>* v w \<Longrightarrow> page_step\<^sup>*\<^sup>* (prod.swap v) (prod.swap w)"
  by (induction rule: rtranclp_induct) (auto intro: rtranclp.rtrancl_into_rtrancl page_step_swap)

lemma view_swap: "view b a j = prod.swap (view a b j)"
  by (simp add: view_def)

section \<open>Pages that do not exist\<close>

lemma page_offset_outside:
  assumes wf: "wf_node n" and x: "\<not> (0 \<le> x \<and> x < int (num_pages n))"
    and l: "page_offset (page_size n) x = Inr l"
  shows "length (bytes (mem n)) \<le> l"
proof -
  note D = wf_nodeD[OF wf]
  have l': "0 \<le> x * int (page_size n)" "l = nat (x * int (page_size n))"
    using l by (auto simp: page_offset_def mul_int_def split: if_splits)
  have "0 \<le> x" using l'(1) D(5) by (simp add: zero_le_mult_iff)
  then have "int (num_pages n) \<le> x" using x by simp
  then have "int (num_pages n) * int (page_size n) \<le> x * int (page_size n)"
    by (intro mult_right_mono) simp_all
  then show ?thesis using l'(2) D(8) by (simp add: le_nat_iff l'(1))
qed

lemma write_str_outside: "length (bytes r) \<le> l \<Longrightarrow> write_str ps l s r = Inl OutOfBounds"
  by (cases s) (simp_all add: poke_def)

lemma read_str_outside: "length (bytes r) \<le> l \<Longrightarrow> read_str ps l r = Inl OutOfBounds"
  by (simp add: read_str_def)

lemma page_offset_fault: "page_offset ps x = Inl e \<Longrightarrow> e \<in> {OutOfBounds, SignedOverflow}"
  by (auto simp: page_offset_def mul_int_def split: if_splits)

lemma outside_faults:
  assumes wf: "wf_node n" and x: "\<not> (0 \<le> x \<and> x < int (num_pages n))"
  shows "\<exists>e \<in> {OutOfBounds, SignedOverflow}. print_one E pr fetch x (n, p) = Inl e"
    and "\<exists>e \<in> {OutOfBounds, SignedOverflow}. update_one E pr s tr x (n, p) = Inl e"
proof -
  have "(\<exists>e \<in> {OutOfBounds, SignedOverflow}. print_one E pr fetch x (n, p) = Inl e) \<and>
        (\<exists>e \<in> {OutOfBounds, SignedOverflow}. update_one E pr s tr x (n, p) = Inl e)"
  proof (cases "page_offset (page_size n) x")
    case (Inl e)
    then show ?thesis using page_offset_fault by (auto simp: print_one_def update_one_def)
  next
    case (Inr l)
    then show ?thesis
      using page_offset_outside[OF wf x Inr] write_str_outside read_str_outside
      by (simp add: print_one_def update_one_def)
  qed
  then show "\<exists>e \<in> {OutOfBounds, SignedOverflow}. print_one E pr fetch x (n, p) = Inl e"
    and "\<exists>e \<in> {OutOfBounds, SignedOverflow}. update_one E pr s tr x (n, p) = Inl e" by auto
qed

section \<open>Printing without fetching\<close>

lemma print_one_local:
  assumes wf: "wf_node n" and j: "j < num_pages n"
  shows "\<exists>n'. print_one E pr False (int j) (n, p) = Inr (n', p) \<and> only_page j n n'
           \<and> page_state n' j = page_state n j \<and> text_at n' j = text_at n j
           \<and> last (log n') = Out_page (int j) (if page_state n j = MSI_i then [] else text_at n j)"
proof -
  obtain r where r: "read_str (page_size n) (j * page_size n) (mem n) = Inr (text_at n j, r)"
      "wf_node (n\<lparr>mem := r\<rparr>)" "text_at (n\<lparr>mem := r\<rparr>) = text_at n"
    using read_page_ok[OF wf j] by blast
  have only: "only_page j n (n\<lparr>mem := r\<rparr>)" using r(2,3) by (simp add: only_page_def)
  have short: "length (text_at n j) \<le> page_size n" using text_at_short[OF wf j] by simp
  note start = int_page_offset(2)[OF wf j] r(1) read_msi[OF wf j] short
  show ?thesis
    using start only r(3)
    by (cases "page_state n j") (simp_all add: print_one_def fetch_page_def)
qed

section \<open>Every command simulates the protocol on every page\<close>

definition moved :: "node \<Rightarrow> node \<Rightarrow> node \<Rightarrow> node \<Rightarrow> bool" where
  "moved a b a' b' \<longleftrightarrow> wf_pair a' b' \<and> page_size a' = page_size a \<and> num_pages a' = num_pages a \<and>
     (\<forall>q < num_pages a. page_step\<^sup>*\<^sup>* (view a b q) (view a' b' q))"

lemma moved_refl: "wf_pair a b \<Longrightarrow> moved a b a b"
  by (simp add: moved_def)

lemma moved_trans: "moved a b a1 b1 \<Longrightarrow> moved a1 b1 a2 b2 \<Longrightarrow> moved a b a2 b2"
  by (auto simp: moved_def intro: rtranclp_trans)

lemma moved_only_page:
  assumes "wf_pair a b" "only_page j a a'" "only_page j b b'"
    and "page_step\<^sup>*\<^sup>* (view a b j) (view a' b' j)"
  shows "moved a b a' b'"
  using assms wf_pair_only[OF assms(1-3)] view_only_page[OF assms(1-3)] only_pageD(2,3)[OF assms(2)]
  by (auto simp: moved_def) (metis rtranclp.rtrancl_refl)

lemma moved_swap:
  assumes "moved b a b' a'" and "wf_pair a b"
  shows "moved a b a' b'"
proof -
  have "page_step\<^sup>*\<^sup>* (view a b q) (view a' b' q)" if "q < num_pages b" for q
    using page_steps_swap[of "view b a q" "view b' a' q"] assms(1) that
    by (simp add: moved_def view_swap[of b a] view_swap[of b' a'])
  then show ?thesis using assms by (auto simp: moved_def wf_pair_def)
qed

text \<open>The loop state: the own process and a live peer, reached by protocol steps.\<close>

definition moved_state :: "node \<Rightarrow> node \<Rightarrow> node \<times> node res \<Rightarrow> bool" where
  "moved_state a b s \<longleftrightarrow> (\<exists>b'. snd s = Inr b' \<and> moved a b (fst s) b')"

lemma print_one_moved:
  assumes E: "frame_intact E" and s: "moved_state a b s"
    and run: "print_one E (responder_peer E) fetch x s = Inr s'"
  shows "moved_state a b s'"
proof -
  obtain a1 b1 where s1: "s = (a1, Inr b1)" "moved a b a1 b1"
    using s by (cases s) (auto simp: moved_state_def)
  then have wf: "wf_pair a1 b1" by (simp add: moved_def)
  have "0 \<le> x \<and> x < int (num_pages a1)"
    using outside_faults(1)[OF wf_pairD(1)[OF wf], of x E "responder_peer E" fetch "Inr b1"] run s1(1)
    by fastforce
  then obtain j where j: "x = int j" "j < num_pages a1" by (metis nat_0_le zless_nat_conj of_nat_less_iff)
  show ?thesis
  proof (cases fetch)
    case True
    show ?thesis
    proof (cases "spec_read (view a1 b1 j)")
      case None
      then show ?thesis using print_one_read[OF wf j(2) E] run s1(1) j(1) True by simp
    next
      case (Some vt)
      then obtain a2 b2 where "s' = (a2, Inr b2)" "only_page j a1 a2" "only_page j b1 b2"
          "view a2 b2 j = fst vt"
        using print_one_read[OF wf j(2) E] run s1(1) j(1) True by (cases vt) fastforce
      moreover have "page_step\<^sup>*\<^sup>* (view a1 b1 j) (fst vt)"
        using Some by (cases vt) (auto intro: read_first)
      ultimately show ?thesis using moved_trans[OF s1(2) moved_only_page[OF wf, of j a2 b2]]
        by (simp add: moved_state_def)
    qed
  next
    case False
    obtain a2 where "s' = (a2, Inr b1)" "only_page j a1 a2" "view a2 b1 j = view a1 b1 j"
      using print_one_local[OF wf_pairD(1)[OF wf] j(2), of E "responder_peer E" "Inr b1"] run s1(1) j(1) False
      by (auto simp: view_def)
    then show ?thesis
      using moved_trans[OF s1(2) moved_only_page[OF wf, of j a2 b1]] wf_pairD(2)[OF wf]
      by (simp add: moved_state_def)
  qed
qed

lemma update_one_moved:
  assumes E: "frame_intact E" and s: "moved_state a b s"
    and m: "is_cstr m" "length m < page_size a"
    and run: "update_one E (responder_peer E) m True x s = Inr s'"
  shows "moved_state a b s'"
proof -
  obtain a1 b1 where s1: "s = (a1, Inr b1)" "moved a b a1 b1"
    using s by (cases s) (auto simp: moved_state_def)
  then have wf: "wf_pair a1 b1" and m1: "length m < page_size a1" using m(2) by (simp_all add: moved_def)
  have "0 \<le> x \<and> x < int (num_pages a1)"
    using outside_faults(2)[OF wf_pairD(1)[OF wf], of x E "responder_peer E" m True "Inr b1"] run s1(1)
    by fastforce
  then obtain j where j: "x = int j" "j < num_pages a1" by (metis nat_0_le zless_nat_conj of_nat_less_iff)
  obtain a2 b2 where "s' = (a2, Inr b2)" "only_page j a1 a2" "only_page j b1 b2"
      "view a2 b2 j = spec_write m (view a1 b1 j)"
    using update_one_write[OF wf j(2) E m(1) m1] run s1(1) j(1) by auto
  then show ?thesis
    using moved_trans[OF s1(2) moved_only_page[OF wf, of j a2 b2]] write_first[of "view a1 b1 j" m]
    by (auto simp: moved_state_def)
qed

lemma moved_state_start: "wf_pair a b \<Longrightarrow> moved_state a b (a, Inr b)"
  by (simp add: moved_state_def moved_refl)

lemma printPageContents_moved:
  assumes E: "frame_intact E" and s: "moved_state a b s"
    and run: "printPageContents E (responder_peer E) x fetch s = Inr s'"
  shows "moved_state a b s'"
proof (cases s)
  case (Pair n p)
  with run have "iter_res (print_one E (responder_peer E) fetch) (page_seq x (num_pages n)) s = Inr s'"
    by (simp add: printPageContents_def)
  then show ?thesis using s by (rule iter_res_inv) (rule print_one_moved[OF E])
qed

lemma updatePageContents_moved:
  assumes E: "frame_intact E" and s: "moved_state a b s"
    and m: "is_cstr m" "length m < page_size a"
    and run: "updatePageContents E (responder_peer E) x m True s = Inr s'"
  shows "moved_state a b s'"
proof (cases s)
  case (Pair n p)
  with run have "iter_res (update_one E (responder_peer E) m True) (page_seq x (num_pages n)) s = Inr s'"
    by (simp add: updatePageContents_def)
  then show ?thesis using s by (rule iter_res_inv) (rule update_one_moved[OF E _ m])
qed

lemma printMsiArray_same:
  assumes "printMsiArray n = Inr n'"
  shows "\<exists>l. n' = n\<lparr>log := l\<rparr>"
proof -
  have "\<exists>l. n' = n\<lparr>log := l\<rparr>"
    using assms unfolding printMsiArray_def
  proof (rule iter_res_inv [where I = "\<lambda>m. \<exists>l. m = n\<lparr>log := l\<rparr>"])
    show "\<exists>l. n = n\<lparr>log := l\<rparr>" by (intro exI[of _ "log n"]) simp
  qed (auto simp: rbind_eq_Inr say_def)
  then show ?thesis .
qed

text \<open>A message comes from \<open>scanf(" %[^\n]")\<close>: it has at least one character.\<close>

fun valid_command :: "command \<Rightarrow> bool" where
  "valid_command (Cmd_write request_page message) \<longleftrightarrow> message \<noteq> [] \<and> is_cstr message"
| "valid_command _ \<longleftrightarrow> True"

lemma run_command_moved:
  assumes wf: "wf_pair a b" and E: "frame_intact E" and c: "valid_command c"
    and run: "run_command E (responder_peer E) c (a, Inr b) = Inr s'"
  shows "moved_state a b s'"
proof (cases c)
  case (Cmd_read x)
  then show ?thesis using printPageContents_moved[OF E moved_state_start[OF wf]] run by simp
next
  case (Cmd_write x m)
  with run obtain s1 where s1: "length m < page_size a"
      "updatePageContents E (responder_peer E) x m True (a, Inr b) = Inr s1"
      "printPageContents E (responder_peer E) x False s1 = Inr s'"
    by (auto simp: rbind_eq_Inr)
  have "moved_state a b s1"
    using updatePageContents_moved[OF E moved_state_start[OF wf] _ s1(1,2)] c Cmd_write by simp
  then show ?thesis using printPageContents_moved[OF E] s1(3) by blast
next
  case Cmd_view
  with run obtain l where "s' = (a\<lparr>log := l\<rparr>, Inr b)"
    using printMsiArray_same by (auto simp: rbind_eq_Inr)
  then show ?thesis using wf
    by (simp add: moved_state_def moved_def wf_pair_def view_def)
next
  case (Cmd_other x)
  then show ?thesis using run wf
    by (auto simp: moved_state_def moved_def wf_pair_def view_def)
qed

section \<open>Reachable states of the two processes\<close>

record dsm =
  node_a :: node
  node_b :: node

inductive dsm_step :: "env \<Rightarrow> dsm \<Rightarrow> dsm \<Rightarrow> bool" for E where
  command_a: "valid_command c \<Longrightarrow>
     run_command E (responder_peer E) c (node_a s, Inr (node_b s)) = Inr (a', Inr b') \<Longrightarrow>
     dsm_step E s \<lparr>node_a = a', node_b = b'\<rparr>"
| command_b: "valid_command c \<Longrightarrow>
     run_command E (responder_peer E) c (node_b s, Inr (node_a s)) = Inr (b', Inr a') \<Longrightarrow>
     dsm_step E s \<lparr>node_a = a', node_b = b'\<rparr>"

inductive_cases dsm_stepE: "dsm_step E s t"

text \<open>
  A process after its set-up: the mapping exists, and \<open>fillWithInvalid\<close> has run over the
  zero-initialised \<open>msi_array\<close> (whose zero is \<open>m\<close>).
\<close>

definition start_node :: "nat \<Rightarrow> nat \<Rightarrow> node res" where
  "start_node ps np = rbind (fillWithInvalid np (replicate 100 MSI_m))
     (\<lambda>a. Inr \<lparr>page_size = ps, num_pages = np, msi_array = a, mem = mmap_region ps np, log = []\<rparr>)"

definition dsm_start :: "nat \<Rightarrow> nat \<Rightarrow> dsm \<Rightarrow> bool" where
  "dsm_start ps np s \<longleftrightarrow>
     (case start_node ps np of Inl _ \<Rightarrow> False | Inr n \<Rightarrow> s = \<lparr>node_a = n, node_b = n\<rparr>)"

text \<open>
  The configurations the program works in: a power-of-two page size in which a request fits,
  and fewer pages than \<open>msi_array\<close> has entries, all below 2 GiB.
\<close>

definition config_ok :: "nat \<Rightarrow> nat \<Rightarrow> bool" where
  "config_ok ps np \<longleftrightarrow> page_size_ok ps \<and> 8 \<le> ps \<and> np < 100 \<and> np * ps < 2 ^ 31"

subsection \<open>Filling the table\<close>

lemma fillWithInvalid_prefix:
  "k \<le> length a \<Longrightarrow> iter_res (\<lambda>j b. array_write b j MSI_i) [0..<k] a = Inr (replicate k MSI_i @ drop k a)"
proof (induction k)
  case 0
  then show ?case by simp
next
  case (Suc k)
  then have "drop k a = a ! k # drop (Suc k) a" by (simp add: Cons_nth_drop_Suc)
  with Suc show ?case
    by (simp add: iter_res_append array_write_def list_update_append replicate_append_same[symmetric])
qed

lemma fillWithInvalid_ok:
  "np < length a \<Longrightarrow> fillWithInvalid np a = Inr (replicate (Suc np) MSI_i @ drop (Suc np) a)"
  unfolding fillWithInvalid_def by (rule fillWithInvalid_prefix) simp

lemma fillWithInvalid_overflow:
  assumes "length a \<le> np"
  shows "fillWithInvalid np a = Inl OutOfBounds"
proof -
  have "[0..<Suc np] = [0..<length a] @ length a # [Suc (length a)..<Suc np]"
    using assms by (metis le_imp_less_Suc less_imp_le_nat upt_add_eq_append upt_conv_Cons le_add_diff_inverse zero_le)
  then show ?thesis
    using fillWithInvalid_prefix[of "length a" a]
    by (simp add: fillWithInvalid_def iter_res_append array_write_def)
qed

lemma start_node_ok:
  assumes cfg: "config_ok ps np"
  shows "\<exists>n. start_node ps np = Inr n \<and> wf_node n \<and> page_size n = ps \<and> num_pages n = np
           \<and> (\<forall>j < np. page_state n j = MSI_i \<and> text_at n j = [])"
proof -
  have assms: "page_size_ok ps" "8 \<le> ps" "np < 100" "np * ps < 2 ^ 31"
    using cfg by (simp_all add: config_ok_def)
  let ?a = "replicate (Suc np) MSI_i @ drop (Suc np) (replicate 100 MSI_m)"
  let ?n = "\<lparr>page_size = ps, num_pages = np, msi_array = ?a, mem = mmap_region ps np, log = []\<rparr>"
  have "start_node ps np = Inr ?n"
    using fillWithInvalid_ok[of np "replicate 100 MSI_m"] assms(3)
    by (simp add: start_node_def del: replicate_Suc drop_replicate)
  moreover have "terminated ps (mmap_region ps np) j" if "j < np" for j
  proof -
    have "(j + 1) * ps \<le> np * ps" using that by (intro mult_le_mono1) simp
    then show ?thesis using assms(2)
      by (simp add: terminated_def page_bytes_def mmap_region_def)
  qed
  moreover have "wf_region ps (mmap_region ps np)" using assms by (intro wf_mmap_region) auto
  moreover have "text_at ?n j = []" for j
    by (simp add: text_at_def page_text_def mmap_region_def cstr_of_def takeWhile_eq_Nil_iff)
  moreover have "page_state ?n j = MSI_i" if "j < np" for j
    using that by (simp add: page_state_def nth_append del: replicate_Suc)
  ultimately show ?thesis using assms
    by (intro exI[of _ ?n]) (auto simp: wf_node_def mmap_region_def)
qed

subsection \<open>The invariant of reachable states\<close>

definition dsm_inv :: "nat \<Rightarrow> nat \<Rightarrow> dsm \<Rightarrow> bool" where
  "dsm_inv ps np s \<longleftrightarrow> wf_pair (node_a s) (node_b s) \<and> page_size (node_a s) = ps \<and>
     num_pages (node_a s) = np \<and> (\<forall>j < np. coherent (view (node_a s) (node_b s) j))"

lemma dsm_inv_moved:
  assumes "dsm_inv ps np s" and "moved (node_a s) (node_b s) a' b'"
  shows "dsm_inv ps np \<lparr>node_a = a', node_b = b'\<rparr>"
  using assms by (simp add: dsm_inv_def moved_def) (metis coherent_page_steps)

lemma dsm_inv_step:
  assumes E: "frame_intact E" and inv: "dsm_inv ps np s" and step: "dsm_step E s t"
  shows "dsm_inv ps np t"
  using step
proof (cases rule: dsm_step.cases)
  case (command_a c a' b')
  then have "moved (node_a s) (node_b s) a' b'"
    using run_command_moved[OF _ E] inv by (fastforce simp: dsm_inv_def moved_state_def)
  then show ?thesis using dsm_inv_moved[OF inv] command_a(1) by simp
next
  case (command_b c b' a')
  have "wf_pair (node_b s) (node_a s)" using inv by (auto simp: dsm_inv_def dest: wf_pair_sym)
  then have "moved (node_b s) (node_a s) b' a'"
    using run_command_moved[OF _ E] command_b(2,3) by (fastforce simp: moved_state_def)
  then have "moved (node_a s) (node_b s) a' b'"
    by (rule moved_swap) (use inv in \<open>simp add: dsm_inv_def\<close>)
  then show ?thesis using dsm_inv_moved[OF inv] command_b(1) by simp
qed

lemma dsm_inv_start: "config_ok ps np \<Longrightarrow> dsm_start ps np s \<Longrightarrow> dsm_inv ps np s"
  using start_node_ok[of ps np]
  by (auto simp: dsm_start_def dsm_inv_def wf_pair_def view_def coherent_def split: sum.splits)

interpretation dsm_system: safe_system "dsm_start ps np" "dsm_step E"
  "\<lambda>s. frame_intact E \<and> config_ok ps np \<longrightarrow> dsm_inv ps np s" for E ps np
  by unfold_locales (auto intro: dsm_inv_start dsm_inv_step)

end
