(* ===== verification/Dsm_Race.thy ===== *)
theory Dsm_Race
  imports Dsm_Coherence
begin

text \<open>
  The same two processes with their four threads interleaved: the main loop of each process
  may be stopped between storing into a page, marking it M and sending the invalidation,
  waiting, and taking the answer; the responder of the other process answers a request that
  is in flight in one step. The steps reuse the functions of \<open>Dsm_Node\<close>.
\<close>

section \<open>Where a main loop can be\<close>

text \<open>
  \<open>Unanswered\<close>: the peer has taken the request and sent an empty string, which is nothing; the main
  loop stays in its \<open>read\<close>.
\<close>

datatype phase =
    Idle
  | Stored nat
  | Sent int nat
  | Answered int nat string
  | Unanswered nat

text \<open>
  What a process can do next: \<open>Do_store\<close> and \<open>Do_mark\<close> are \<open>updatePageContents\<close> and
  \<open>transitionStateOnWrite\<close> up to the \<open>send\<close>, \<open>Do_ask\<close> is the branch of \<open>printPageContents\<close>
  for a page in state I up to the \<open>send\<close>, \<open>Do_answer\<close> is the peer's \<open>responder\<close> on the
  request in flight, \<open>Do_finish\<close> is what follows the \<open>read\<close> of its answer.
\<close>

datatype action = Do_store nat string | Do_mark | Do_ask nat | Do_answer | Do_finish

definition no_peer :: "unit peer" where
  "no_peer msg u = (u, Net_silence)"

text \<open>A step of one process: own process and phase, and the peer's process.\<close>

fun half_do :: "env \<Rightarrow> action \<Rightarrow> node \<times> phase \<times> node \<Rightarrow> (node \<times> phase \<times> node) option" where
  "half_do E (Do_store j m) (n, Idle, p) =
     (if j < num_pages n \<and> is_cstr m \<and> length m < page_size n then
        (case update_one E no_peer m False (int j) (n, ()) of
           Inl _ \<Rightarrow> None
         | Inr (n', _) \<Rightarrow> Some (n', Stored j, p))
      else None)"
| "half_do E Do_mark (n, Stored j, p) =
     (case set_msi (int j) MSI_m n of
        Inl _ \<Rightarrow> None
      | Inr n' \<Rightarrow> Some (say (Out_writing (int j)) n', Sent invalidateOp j, p))"
| "half_do E (Do_ask j) (n, Idle, p) =
     (if j < num_pages n \<and> page_state n j = MSI_i then
        (case read_str (page_size n) (j * page_size n) (mem n) of
           Inl _ \<Rightarrow> None
         | Inr (_, r) \<Rightarrow> Some (say Out_fetching (n\<lparr>mem := r\<rparr>), Sent readOp j, p))
      else None)"
| "half_do E Do_answer (n, Sent k j, p) =
     (case handle_request E (format_request (int j) k) p of
        Inl _ \<Rightarrow> None
      | Inr (message, p') \<Rightarrow> Some (n, if message = [] then Unanswered j else Answered k j message, p'))"
| "half_do E Do_finish (n, Answered k j message, p) =
     (if k = invalidateOp then Some (n, Idle, p)
      else if message = ''NULL'' then
        (case madvise_dontneed (page_size n) (int (j * page_size n)) (mem n) of
           Inl _ \<Rightarrow> None
         | Inr r \<Rightarrow> Some (say (Out_page (int j) []) (n\<lparr>mem := r\<rparr>), Idle, p))
      else
        (case update_one E no_peer message False (int j) (n, ()) of
           Inl _ \<Rightarrow> None
         | Inr (n', _) \<Rightarrow>
             (case set_msi (int j) MSI_s n' of
                Inl _ \<Rightarrow> None
              | Inr n'' \<Rightarrow> Some (say (Out_page (int j) message) n'', Idle, p))))"
| "half_do E _ _ = None"

record race =
  na :: node
  nb :: node
  pa :: phase
  pb :: phase

text \<open>The first process moves (\<open>True\<close>) or the second.\<close>

fun race_do :: "env \<Rightarrow> bool \<times> action \<Rightarrow> race \<Rightarrow> race option" where
  "race_do E (True, act) s =
     (case half_do E act (na s, pa s, nb s) of
        None \<Rightarrow> None
      | Some (n', f', p') \<Rightarrow> Some (s\<lparr>na := n', pa := f', nb := p'\<rparr>))"
| "race_do E (False, act) s =
     (case half_do E act (nb s, pb s, na s) of
        None \<Rightarrow> None
      | Some (n', f', p') \<Rightarrow> Some (s\<lparr>nb := n', pb := f', na := p'\<rparr>))"

inductive race_step :: "env \<Rightarrow> race \<Rightarrow> race \<Rightarrow> bool" for E where
  race_move: "race_do E act s = Some t \<Longrightarrow> race_step E s t"

inductive_cases race_stepE: "race_step E s t"

definition race_start :: "nat \<Rightarrow> nat \<Rightarrow> race \<Rightarrow> bool" where
  "race_start ps np s \<longleftrightarrow>
     (case start_node ps np of
        Inl _ \<Rightarrow> False
      | Inr n \<Rightarrow> s = \<lparr>na = n, nb = n, pa = Idle, pb = Idle\<rparr>)"

text \<open>A schedule run from the start.\<close>

fun race_run :: "env \<Rightarrow> (bool \<times> action) list \<Rightarrow> race \<Rightarrow> race option" where
  "race_run E [] s = Some s"
| "race_run E (act # acts) s =
     (case race_do E act s of None \<Rightarrow> None | Some t \<Rightarrow> race_run E acts t)"

definition race_from_start :: "env \<Rightarrow> nat \<Rightarrow> nat \<Rightarrow> (bool \<times> action) list \<Rightarrow> race option" where
  "race_from_start E ps np acts =
     (case start_node ps np of
        Inl _ \<Rightarrow> None
      | Inr n \<Rightarrow> race_run E acts \<lparr>na = n, nb = n, pa = Idle, pb = Idle\<rparr>)"

lemma race_run_reach:
  "reachable init (race_step E) s \<Longrightarrow> race_run E acts s = Some t \<Longrightarrow> reachable init (race_step E) t"
proof (induction acts arbitrary: s)
  case Nil
  then show ?case by simp
next
  case (Cons act acts)
  then obtain u where u: "race_do E act s = Some u" "race_run E acts u = Some t"
    by (auto split: option.splits)
  have "reachable init (race_step E) u"
    using Cons.prems(1) race_move[OF u(1)] by (rule reachable_step)
  then show ?case using u(2) by (rule Cons.IH)
qed

lemma race_from_start_reach:
  assumes "race_from_start E ps np acts = Some t"
  shows "reachable (race_start ps np) (race_step E) t"
proof -
  obtain n where n: "start_node ps np = Inr n"
      "race_run E acts \<lparr>na = n, nb = n, pa = Idle, pb = Idle\<rparr> = Some t"
    using assms by (auto simp: race_from_start_def split: sum.splits)
  have "race_start ps np \<lparr>na = n, nb = n, pa = Idle, pb = Idle\<rparr>" using n(1) by (simp add: race_start_def)
  then show ?thesis using race_run_reach[OF reachable_init n(2)] by blast
qed

section \<open>Two writers at rest are impossible\<close>

text \<open>
  Both copies can be in state M, but then one of the two writers still has an invalidation in
  flight that its peer has not answered.
\<close>

definition pending :: "phase \<Rightarrow> nat \<Rightarrow> bool" where
  "pending f j \<longleftrightarrow> f = Sent invalidateOp j"

fun phase_ok :: "node \<Rightarrow> phase \<Rightarrow> bool" where
  "phase_ok n Idle \<longleftrightarrow> True"
| "phase_ok n (Stored j) \<longleftrightarrow> j < num_pages n"
| "phase_ok n (Sent k j) \<longleftrightarrow> j < num_pages n \<and> k \<in> {readOp, invalidateOp}"
| "phase_ok n (Answered k j m) \<longleftrightarrow> j < num_pages n \<and> is_cstr m \<and> length m < page_size n"
| "phase_ok n (Unanswered j) \<longleftrightarrow> j < num_pages n"

definition half_inv :: "nat \<Rightarrow> node \<Rightarrow> phase \<Rightarrow> node \<Rightarrow> phase \<Rightarrow> bool" where
  "half_inv np n f p g \<longleftrightarrow> wf_pair n p \<and> num_pages n = np \<and> phase_ok n f \<and> phase_ok p g \<and>
     (\<forall>j < num_pages n. page_state n j = MSI_m \<and> page_state p j = MSI_m \<longrightarrow> pending f j \<or> pending g j)"

lemma half_inv_sym: "half_inv np n f p g \<Longrightarrow> half_inv np p g n f"
  by (auto simp: half_inv_def wf_pair_def)

lemma phase_ok_config:
  "page_size n' = page_size n \<Longrightarrow> num_pages n' = num_pages n \<Longrightarrow> phase_ok n' f = phase_ok n f"
  by (cases f) simp_all

text \<open>A step that leaves at most one of the two copies of \<open>j\<close> in state M keeps the invariant.\<close>

lemma half_inv_move:
  assumes inv: "half_inv np n f p g" and n': "only_page j n n'" and p': "only_page j p p'"
    and f': "phase_ok n f'" and mono: "\<And>q. q \<noteq> j \<Longrightarrow> pending f q \<Longrightarrow> pending f' q"
    and j: "page_state n' j = MSI_m \<Longrightarrow> page_state p' j = MSI_m \<Longrightarrow> pending f' j \<or> pending g j"
  shows "half_inv np n' f' p' g"
  unfolding half_inv_def
proof (intro conjI allI impI)
  note D = only_pageD[OF n'] and D' = only_pageD[OF p']
  show "wf_pair n' p'" using inv n' p' by (auto simp: half_inv_def intro: wf_pair_only)
  show "num_pages n' = np" using inv D(3) by (simp add: half_inv_def)
  show "phase_ok n' f'" "phase_ok p' g"
    using inv f' phase_ok_config[OF D(2,3)] phase_ok_config[OF D'(2,3)] by (simp_all add: half_inv_def)
  fix q assume q: "q < num_pages n'" "page_state n' q = MSI_m \<and> page_state p' q = MSI_m"
  show "pending f' q \<or> pending g q"
  proof (cases "q = j")
    case True
    then show ?thesis using j q(2) by simp
  next
    case False
    then have "page_state n q = MSI_m" "page_state p q = MSI_m" "q < num_pages n"
      using q D(3,4) D'(3,4) inv by (auto simp: half_inv_def wf_pair_def)
    then show ?thesis using inv mono False by (auto simp: half_inv_def)
  qed
qed

lemma update_one_quiet:
  assumes wf: "wf_node a" and j: "j < num_pages a" and s: "is_cstr s" "length s < page_size a"
  shows "\<exists>a'. update_one E pr s False (int j) (a, p) = Inr (a', p)
           \<and> only_page j a a' \<and> text_at a' j = s \<and> page_state a' = page_state a"
proof -
  obtain r where "write_str (page_size a) (j * page_size a) s (mem a) = Inr r"
      "only_page j a (a\<lparr>mem := r\<rparr>)" "text_at (a\<lparr>mem := r\<rparr>) j = s"
    using write_page_ok[OF wf j s] by blast
  then show ?thesis using int_page_offset(2)[OF wf j] by (simp add: update_one_def)
qed

lemma half_do_store:
  assumes inv: "half_inv np n Idle p g" and run: "half_do E (Do_store j m) (n, Idle, p) = Some (n', f', p')"
  shows "half_inv np n' f' p' g"
proof -
  have wf: "wf_node n" "wf_node p" using inv by (auto simp: half_inv_def wf_pair_def)
  have j: "j < num_pages n" and m: "is_cstr m" "length m < page_size n"
    using run by (auto split: if_splits)
  obtain n1 where n1: "update_one E no_peer m False (int j) (n, ()) = Inr (n1, ())" "only_page j n n1"
      "page_state n1 = page_state n"
    using update_one_quiet[OF wf(1) j m, where E = E and pr = no_peer and p = "()"] by auto
  then have res: "n' = n1" "f' = Stored j" "p' = p" using run j m by simp_all
  show ?thesis unfolding res
    by (rule half_inv_move[OF inv n1(2)]) (use wf j n1(3) inv in \<open>auto simp: pending_def half_inv_def\<close>)
qed

lemma half_do_mark:
  assumes inv: "half_inv np n (Stored j) p g" and run: "half_do E Do_mark (n, Stored j, p) = Some (n', f', p')"
  shows "half_inv np n' f' p' g"
proof -
  have wf: "wf_node n" "wf_node p" and j: "j < num_pages n" using inv by (auto simp: half_inv_def wf_pair_def)
  obtain n1 where n1: "set_msi (int j) MSI_m n = Inr n1" "only_page j n n1"
    using set_msi_ok[OF wf(1) j, of MSI_m] by blast
  then have res: "n' = say (Out_writing (int j)) n1" "f' = Sent invalidateOp j" "p' = p" using run by auto
  show ?thesis unfolding res
    by (rule half_inv_move[OF inv]) (use wf j n1(2) in \<open>auto simp: pending_def\<close>)
qed

lemma half_do_ask:
  assumes inv: "half_inv np n Idle p g" and run: "half_do E (Do_ask j) (n, Idle, p) = Some (n', f', p')"
  shows "half_inv np n' f' p' g"
proof -
  have wf: "wf_node n" "wf_node p" using inv by (auto simp: half_inv_def wf_pair_def)
  have j: "j < num_pages n" and st: "page_state n j = MSI_i" using run by (auto split: if_splits)
  obtain r where r: "read_str (page_size n) (j * page_size n) (mem n) = Inr (text_at n j, r)"
      "wf_node (n\<lparr>mem := r\<rparr>)" "text_at (n\<lparr>mem := r\<rparr>) = text_at n"
    using read_page_ok[OF wf(1) j] by blast
  then have res: "n' = say Out_fetching (n\<lparr>mem := r\<rparr>)" "f' = Sent readOp j" "p' = p" using run j st by auto
  have "only_page j n n'" using r(2,3) unfolding res by (simp add: only_page_def)
  then show ?thesis unfolding res
    by (rule half_inv_move[OF inv]) (use wf j st in \<open>auto simp: pending_def\<close>)
qed

lemma half_do_answer:
  assumes inv: "half_inv np n (Sent k j) p g" and run: "half_do E Do_answer (n, Sent k j, p) = Some (n', f', p')"
  shows "half_inv np n' f' p' g"
proof -
  have wf: "wf_node n" "wf_node p" and j: "j < num_pages n" and jp: "j < num_pages p"
    and k: "k \<in> {readOp, invalidateOp}" and cfg: "page_size p = page_size n"
    using inv by (auto simp: half_inv_def wf_pair_def)
  obtain m p1 where p1: "handle_request E (format_request (int j) k) p = Inr (m, p1)" "only_page j p p1"
      "page_state p1 j \<noteq> MSI_m" "is_cstr m" "length m < page_size n"
  proof (cases "k = invalidateOp")
    case True
    then show ?thesis using handle_invalidate[OF wf(2) jp, of E] that wf_nodeD(5)[OF wf(1)] by auto
  next
    case False
    then have "k = readOp" using k by simp
    then show ?thesis
      using handle_read_valid[OF wf(2) jp, of E] handle_read_invalid[OF wf(2) jp, of E] that
        text_at_short[OF wf(2) jp] wf_nodeD(5)[OF wf(1)] cfg
      by (cases "page_state p j = MSI_i") auto
  qed
  then have res: "n' = n" "f' = (if m = [] then Unanswered j else Answered k j m)" "p' = p1" using run by auto
  show ?thesis unfolding res
    by (rule half_inv_move[OF inv _ p1(2)]) (use wf j p1(3-) in \<open>auto simp: pending_def\<close>)
qed

lemma half_do_finish:
  assumes inv: "half_inv np n (Answered k j m) p g"
    and run: "half_do E Do_finish (n, Answered k j m, p) = Some (n', f', p')"
  shows "half_inv np n' f' p' g"
proof -
  have wf: "wf_node n" "wf_node p" and j: "j < num_pages n" and m: "is_cstr m" "length m < page_size n"
    using inv by (auto simp: half_inv_def wf_pair_def)
  have states: "f' = Idle \<and> p' = p \<and> only_page j n n' \<and> page_state n' j \<in> {page_state n j, MSI_s}"
  proof (cases "k = invalidateOp \<or> m = ''NULL''")
    case True
    obtain r where "madvise_dontneed (page_size n) (int (j * page_size n)) (mem n) = Inr r"
        "only_page j n (n\<lparr>mem := r\<rparr>)"
      using drop_page_ok[OF wf(1) j] by blast
    then show ?thesis using True run wf(1) by (auto split: if_splits)
  next
    case False
    obtain n1 where n1: "update_one E no_peer m False (int j) (n, ()) = Inr (n1, ())" "only_page j n n1"
      using update_one_quiet[OF wf(1) j m, where E = E and pr = no_peer and p = "()"] by auto
    have "wf_node n1" "j < num_pages n1" using only_pageD(1,3)[OF n1(2)] j by simp_all
    then obtain n2 where "set_msi (int j) MSI_s n1 = Inr n2" "only_page j n1 n2" "page_state n2 j = MSI_s"
      using set_msi_ok by blast
    then show ?thesis using False run n1 only_page_trans[OF n1(2)] by auto
  qed
  then have "only_page j n n'" by simp
  then show ?thesis
    by (rule half_inv_move[OF inv]) (use states wf j inv in \<open>auto simp: pending_def half_inv_def\<close>)
qed

lemma half_do_inv:
  assumes inv: "half_inv np n f p g" and run: "half_do E act (n, f, p) = Some (n', f', p')"
  shows "half_inv np n' f' p' g"
proof (cases act)
  case (Do_store j m)
  with assms half_do_store show ?thesis by (cases f) auto
next
  case Do_mark
  with assms half_do_mark show ?thesis by (cases f) auto
next
  case (Do_ask j)
  with assms half_do_ask show ?thesis by (cases f) auto
next
  case Do_answer
  with assms half_do_answer show ?thesis by (cases f) auto
next
  case Do_finish
  with assms half_do_finish show ?thesis by (cases f) auto
qed

lemma race_do_inv:
  assumes "half_inv np (na s) (pa s) (nb s) (pb s)" and "race_do E act s = Some t"
  shows "half_inv np (na t) (pa t) (nb t) (pb t)"
proof (cases act)
  case (Pair who act')
  show ?thesis
  proof (cases who)
    case True
    then show ?thesis using assms Pair half_do_inv[OF assms(1)] by (auto split: option.splits)
  next
    case False
    then show ?thesis using assms(2) Pair half_do_inv[OF half_inv_sym[OF assms(1)]]
      by (auto split: option.splits intro: half_inv_sym)
  qed
qed

interpretation race_system: safe_system "race_start ps np" "race_step E"
  "\<lambda>s. config_ok ps np \<longrightarrow> half_inv np (na s) (pa s) (nb s) (pb s)" for E ps np
proof
  fix s assume "race_start ps np s"
  then show "config_ok ps np \<longrightarrow> half_inv np (na s) (pa s) (nb s) (pb s)"
    using start_node_ok[of ps np]
    by (auto simp: race_start_def half_inv_def wf_pair_def split: sum.splits)
next
  fix s t
  assume "config_ok ps np \<longrightarrow> half_inv np (na s) (pa s) (nb s) (pb s)" and "race_step E s t"
  then show "config_ok ps np \<longrightarrow> half_inv np (na t) (pa t) (nb t) (pb t)"
    using race_do_inv by (blast elim: race_stepE)
qed

end
