(* ===== verification/Dsm_Properties.thy ===== *)
theory Dsm_Properties
  imports Dsm_Race
begin

text \<open>
  What the distributed-memory program guarantees, as theorems about its definitions: coherence
  of every reachable state of the two processes, the effect of every command, the requests
  that fault, and what the interleaving of the threads breaks.
\<close>

section \<open>Commands on one page\<close>

lemma page_seq_one [simp]: "page_seq (int j) np = [int j]"
  by (simp add: page_seq_def)

lemma run_write_ok:
  assumes wf: "wf_pair a b" and E: "frame_intact E" and j: "j < num_pages a"
    and m: "is_cstr m" "length m < page_size a"
  shows "\<exists>a' b'. run_command E (responder_peer E) (Cmd_write (int j) m) (a, Inr b) = Inr (a', Inr b')
           \<and> wf_pair a' b' \<and> only_page j a a' \<and> only_page j b b' \<and> view a' b' j = spec_write m (view a b j)
           \<and> last (log a') = Out_page (int j) m"
proof -
  obtain a1 b1 where a1: "update_one E (responder_peer E) m True (int j) (a, Inr b) = Inr (a1, Inr b1)"
      "only_page j a a1" "only_page j b b1" "view a1 b1 j = spec_write m (view a b j)"
    using update_one_write[OF wf j E m] by blast
  have st: "page_state a1 j = MSI_m" "text_at a1 j = m"
    using a1(4) by (simp_all add: view_def spec_write_def)
  have "wf_node a1" "j < num_pages a1" using only_pageD(1,3)[OF a1(2)] j by simp_all
  then obtain a2 where a2: "print_one E (responder_peer E) False (int j) (a1, Inr b1) = Inr (a2, Inr b1)"
      "only_page j a1 a2" "page_state a2 j = MSI_m" "text_at a2 j = m" "last (log a2) = Out_page (int j) m"
    using print_one_local[of a1 j E "responder_peer E" "Inr b1"] st by auto
  have run: "run_command E (responder_peer E) (Cmd_write (int j) m) (a, Inr b) = Inr (a2, Inr b1)"
    using a1(1) a2(1) m(2) by (simp add: updatePageContents_def printPageContents_def)
  have only: "only_page j a a2" by (rule only_page_trans[OF a1(2) a2(2)])
  have "wf_pair a2 b1" by (rule wf_pair_only[OF wf only a1(3)])
  moreover have "view a2 b1 j = spec_write m (view a b j)"
    using a1(4) a2(3,4) st by (simp add: view_def spec_write_def)
  ultimately show ?thesis using run only a1(3) a2(5) by blast
qed

lemma run_read_ok:
  assumes wf: "wf_pair a b" and E: "frame_intact E" and j: "j < num_pages a"
  shows "case spec_read (view a b j) of
           None \<Rightarrow> run_command E (responder_peer E) (Cmd_read (int j)) (a, Inr b) = Inl Blocked
         | Some (v, t) \<Rightarrow> \<exists>a' b'. run_command E (responder_peer E) (Cmd_read (int j)) (a, Inr b) = Inr (a', Inr b')
             \<and> only_page j a a' \<and> only_page j b b' \<and> view a' b' j = v \<and> last (log a') = Out_page (int j) t"
  using print_one_read[OF wf j E]
  by (cases "spec_read (view a b j)") (auto simp: printPageContents_def)

text \<open>A concrete pair of processes, for the witnesses: one page of 16 bytes, freshly set up.\<close>

definition env0 :: env where
  "env0 = \<lparr>dangling = (\<lambda>b. b), garbage = []\<rparr>"

lemma frame_intact_env0 [simp]: "frame_intact env0"
  by (simp add: frame_intact_def env0_def)

definition node0 :: node where
  "node0 = projr (start_node 16 2)"

lemma page_size_ok_16 [simp]: "page_size_ok 16"
  unfolding page_size_ok_def by (rule exI[of _ 4]) simp

lemma config_ok_16_2 [simp]: "config_ok 16 2"
  by (simp add: config_ok_def)

lemma node0_start: "start_node 16 2 = Inr node0"
  using start_node_ok[OF config_ok_16_2] by (auto simp: node0_def)

lemma node0_ok [simp]:
  "wf_node node0" "page_size node0 = 16" "num_pages node0 = 2"
  using start_node_ok[OF config_ok_16_2] node0_start by auto

lemma node0_pages: "j < 2 \<Longrightarrow> page_state node0 j = MSI_i \<and> text_at node0 j = []"
  using start_node_ok[OF config_ok_16_2] node0_start by auto

lemma wf_pair_node0 [simp]: "wf_pair node0 node0"
  by (simp add: wf_pair_def)

section \<open>Coherence\<close>

text \<open>
  C1. In every state two joined processes can reach by running commands one after another, a
  page that one of them has modified is invalid at the other, and a page shared by both holds
  the same string at both.
\<close>

theorem dsm_coherence:
  assumes "reachable (dsm_start ps np) (dsm_step E) s" and "frame_intact E" and "config_ok ps np" and "j < np"
  shows "(page_state (node_a s) j = MSI_m \<longrightarrow> page_state (node_b s) j = MSI_i)
    \<and> (page_state (node_b s) j = MSI_m \<longrightarrow> page_state (node_a s) j = MSI_i)
    \<and> (page_state (node_a s) j = MSI_s \<and> page_state (node_b s) j = MSI_s
         \<longrightarrow> text_at (node_a s) j = text_at (node_b s) j)"
  using dsm_system.reachable_inv[OF assms(1)] assms(2-)
  by (auto simp: dsm_inv_def coherent_def view_def)

theorem dsm_coherence_witness:
  "\<exists>s. reachable (dsm_start 16 2) (dsm_step env0) s \<and> page_state (node_a s) 1 = MSI_m
     \<and> page_state (node_b s) 1 = MSI_i"
proof -
  obtain a' b' where run: "run_command env0 (responder_peer env0) (Cmd_write (int 1) ''hi'') (node0, Inr node0)
      = Inr (a', Inr b')" and v: "view a' b' 1 = spec_write ''hi'' (view node0 node0 1)"
    using run_write_ok[of node0 node0 env0 1 "''hi''"] by auto
  let ?s = "\<lparr>node_a = a', node_b = b'\<rparr>"
  have "dsm_start 16 2 \<lparr>node_a = node0, node_b = node0\<rparr>" by (simp add: dsm_start_def node0_start)
  moreover have "dsm_step env0 \<lparr>node_a = node0, node_b = node0\<rparr> ?s"
    using command_a[of "Cmd_write (int 1) ''hi''" env0 "\<lparr>node_a = node0, node_b = node0\<rparr>" a' b'] run
    by simp
  ultimately have r: "reachable (dsm_start 16 2) (dsm_step env0) ?s"
    by (blast intro: reachable_init reachable_step)
  have m: "page_state (node_a ?s) 1 = MSI_m" using v by (simp add: view_def spec_write_def)
  have "page_state (node_b ?s) 1 = MSI_i"
    using dsm_coherence[OF r frame_intact_env0 config_ok_16_2, of 1] m by simp
  with r m show ?thesis by blast
qed

text \<open>
  C2. A write of a message that fits the page buffer, followed by a read of the same page on the
  other process: the read prints exactly what was written and leaves the page shared by both,
  with two exceptions. After a write of the empty string the read waits for ever; after a write of
  the word \<open>"NULL"\<close>, which is also the answer for an invalid page, it prints the empty string and
  the reader stays invalid while the writer's copy becomes shared.
\<close>

theorem dsm_read_after_write:
  assumes "wf_pair a b" and "frame_intact E" and "j < num_pages a"
    and "is_cstr m" and "length m < page_size a"
  shows "\<exists>a1 b1.
     run_command E (responder_peer E) (Cmd_write (int j) m) (a, Inr b) = Inr (a1, Inr b1)
   \<and> (if m = [] then run_command E (responder_peer E) (Cmd_read (int j)) (b1, Inr a1) = Inl Blocked
      else \<exists>a2 b2. run_command E (responder_peer E) (Cmd_read (int j)) (b1, Inr a1) = Inr (b2, Inr a2)
        \<and> page_state a2 j = MSI_s \<and> text_at a2 j = m
        \<and> (if m = ''NULL'' then last (log b2) = Out_page (int j) [] \<and> page_state b2 j = MSI_i \<and> text_at b2 j = []
           else last (log b2) = Out_page (int j) m \<and> page_state b2 j = MSI_s \<and> text_at b2 j = m))"
proof -
  obtain a1 b1 where w: "run_command E (responder_peer E) (Cmd_write (int j) m) (a, Inr b) = Inr (a1, Inr b1)"
      "wf_pair a1 b1" "only_page j b b1" "view a1 b1 j = spec_write m (view a b j)"
    using run_write_ok[OF assms] by blast
  have j: "j < num_pages b1" using w(3) assms(1,3) by (simp add: only_page_def wf_pair_def)
  have "view b1 a1 j = ((MSI_i, []), (MSI_m, m))" using w(4) by (simp add: view_def spec_write_def)
  then have spec: "spec_read (view b1 a1 j) = (if m = ''NULL'' then Some (((MSI_i, []), (MSI_s, m)), [])
      else if m = [] then None else Some (((MSI_s, m), (MSI_s, m)), m))" by simp
  note read = run_read_ok[OF wf_pair_sym[OF w(2)] assms(2) j, unfolded spec]
  consider "m = []" | "m = ''NULL''" | "m \<noteq> []" "m \<noteq> ''NULL''" by blast
  then show ?thesis
  proof cases
    case 1
    then show ?thesis using w(1) read by (intro exI[of _ a1] exI[of _ b1]) simp
  next
    case 2
    then obtain b2 a2 where "run_command E (responder_peer E) (Cmd_read (int j)) (b1, Inr a1) = Inr (b2, Inr a2)"
        "view b2 a2 j = ((MSI_i, []), (MSI_s, m))" "last (log b2) = Out_page (int j) []"
      using read by auto
    then show ?thesis using w(1) 2
      by (intro exI[of _ a1] exI[of _ b1]) (auto simp: view_def intro!: exI[of _ a2] exI[of _ b2])
  next
    case 3
    then obtain b2 a2 where "run_command E (responder_peer E) (Cmd_read (int j)) (b1, Inr a1) = Inr (b2, Inr a2)"
        "view b2 a2 j = ((MSI_s, m), (MSI_s, m))" "last (log b2) = Out_page (int j) m"
      using read by auto
    then show ?thesis using w(1) 3
      by (intro exI[of _ a1] exI[of _ b1]) (auto simp: view_def intro!: exI[of _ a2] exI[of _ b2])
  qed
qed

theorem dsm_read_after_write_witness:
  "\<exists>a1 b1 a2 b2.
     run_command env0 (responder_peer env0) (Cmd_write (int 1) ''hi'') (node0, Inr node0) = Inr (a1, Inr b1)
   \<and> run_command env0 (responder_peer env0) (Cmd_read (int 1)) (b1, Inr a1) = Inr (b2, Inr a2)
   \<and> last (log b2) = Out_page (int 1) ''hi'' \<and> page_state a2 1 = MSI_s \<and> page_state b2 1 = MSI_s
   \<and> text_at a2 1 = ''hi'' \<and> text_at b2 1 = ''hi''"
  using dsm_read_after_write[of node0 node0 env0 1 "''hi''"] by auto

text \<open>
  C3. A command of one process moves the joint view of every page by the steps of the one-page
  protocol and keeps both processes well-formed: the detailed program refines the protocol.
\<close>

theorem dsm_command_refines:
  assumes "wf_pair a b" and "frame_intact E" and "valid_command c"
    and "run_command E (responder_peer E) c (a, Inr b) = Inr (a', p')"
  shows "\<exists>b'. p' = Inr b' \<and> wf_pair a' b' \<and> num_pages a' = num_pages a
     \<and> (\<forall>q < num_pages a. page_step\<^sup>*\<^sup>* (view a b q) (view a' b' q))"
  using run_command_moved[OF assms] by (auto simp: moved_state_def moved_def)

theorem dsm_command_refines_witness:
  "\<exists>a' b'. run_command env0 (responder_peer env0) (Cmd_write (int 0) ''hi'') (node0, Inr node0) = Inr (a', Inr b')
     \<and> wf_pair a' b' \<and> page_step\<^sup>*\<^sup>* (view node0 node0 0) (view a' b' 0)"
proof -
  obtain a' b' where run: "run_command env0 (responder_peer env0) (Cmd_write (int 0) ''hi'') (node0, Inr node0)
      = Inr (a', Inr b')"
    using run_write_ok[of node0 node0 env0 0 "''hi''"] by auto
  then show ?thesis using dsm_command_refines[OF wf_pair_node0 frame_intact_env0 _ run] by auto
qed

text \<open>
  C7. A read of one page behaves exactly as the protocol's \<open>spec_read\<close>: it prints the string
  and reaches the view that the specification gives, changes no other page of either process,
  and waits for ever exactly where the specification has no result.
\<close>

theorem dsm_read_command:
  assumes "wf_pair a b" and "frame_intact E" and "j < num_pages a"
  shows "case spec_read (view a b j) of
     None \<Rightarrow> run_command E (responder_peer E) (Cmd_read (int j)) (a, Inr b) = Inl Blocked
   | Some (v, t) \<Rightarrow> \<exists>a' b'. run_command E (responder_peer E) (Cmd_read (int j)) (a, Inr b) = Inr (a', Inr b')
       \<and> view a' b' j = v \<and> last (log a') = Out_page (int j) t
       \<and> (\<forall>q < num_pages a. q \<noteq> j \<longrightarrow> view a' b' q = view a b q)"
proof (cases "spec_read (view a b j)")
  case None
  then show ?thesis using run_read_ok[OF assms] by simp
next
  case (Some vt)
  then show ?thesis using run_read_ok[OF assms] view_only_page[OF assms(1)]
    by (cases vt) fastforce
qed

theorem dsm_read_command_witness:
  "\<exists>a' b'. run_command env0 (responder_peer env0) (Cmd_read (int 0)) (node0, Inr node0) = Inr (a', Inr b')
     \<and> last (log a') = Out_page 0 []"
proof -
  have "spec_read (view node0 node0 0) = Some (((MSI_i, []), (MSI_i, [])), [])"
    using node0_pages[of 0] by (simp add: view_def)
  then show ?thesis using dsm_read_command[of node0 node0 env0 0] by auto
qed

text \<open>
  A page whose content is the word \<open>"NULL"\<close> is not shared: the answer \<open>"NULL"\<close> to a read
  request also says that the peer's page is invalid, so the reader prints the empty string and
  stays invalid while the writer's copy leaves state M.
\<close>

theorem dsm_null_content:
  assumes "wf_pair a b" and "frame_intact E" and "j < num_pages a"
  shows "\<exists>a1 b1 a2 b2.
     run_command E (responder_peer E) (Cmd_write (int j) ''NULL'') (a, Inr b) = Inr (a1, Inr b1)
   \<and> run_command E (responder_peer E) (Cmd_read (int j)) (b1, Inr a1) = Inr (b2, Inr a2)
   \<and> last (log b2) = Out_page (int j) [] \<and> page_state b2 j = MSI_i \<and> text_at b2 j = []
   \<and> page_state a2 j = MSI_s \<and> text_at a2 j = ''NULL''"
proof -
  have m: "is_cstr ''NULL''" "length ''NULL'' < page_size a"
    using wf_nodeD(5)[OF wf_pairD(1)[OF assms(1)]] by auto
  obtain a1 b1 where w: "run_command E (responder_peer E) (Cmd_write (int j) ''NULL'') (a, Inr b) = Inr (a1, Inr b1)"
      "wf_pair a1 b1" "only_page j b b1" "view a1 b1 j = spec_write ''NULL'' (view a b j)"
    using run_write_ok[OF assms(1-3) m] by blast
  have j: "j < num_pages b1" using w(3) assms(1,3) by (simp add: only_page_def wf_pair_def)
  have "view b1 a1 j = ((MSI_i, []), (MSI_m, ''NULL''))" using w(4) by (simp add: view_def spec_write_def)
  then have spec: "spec_read (view b1 a1 j) = Some (((MSI_i, []), (MSI_s, ''NULL'')), [])" by simp
  obtain b2 a2 where r: "run_command E (responder_peer E) (Cmd_read (int j)) (b1, Inr a1) = Inr (b2, Inr a2)"
      "view b2 a2 j = ((MSI_i, []), (MSI_s, ''NULL''))" "last (log b2) = Out_page (int j) []"
    using run_read_ok[OF wf_pair_sym[OF w(2)] assms(2) j] spec by auto
  show ?thesis using w(1) r by (intro exI[of _ a1] exI[of _ b1] exI[of _ a2] exI[of _ b2]) (simp add: view_def)
qed

theorem dsm_null_content_witness:
  "\<exists>a1 b1 a2 b2.
     run_command env0 (responder_peer env0) (Cmd_write (int 0) ''NULL'') (node0, Inr node0) = Inr (a1, Inr b1)
   \<and> run_command env0 (responder_peer env0) (Cmd_read (int 0)) (b1, Inr a1) = Inr (b2, Inr a2)
   \<and> last (log b2) = Out_page (int 0) [] \<and> page_state b2 0 = MSI_i \<and> text_at b2 0 = []
   \<and> page_state a2 0 = MSI_s \<and> text_at a2 0 = ''NULL''"
  by (rule dsm_null_content) simp_all

section \<open>Commands on all pages\<close>

lemma page_seq_all:
  assumes "0 < np"
  shows "page_seq (-1) np = map int [0..<np]"
proof -
  have "np \<noteq> 0" using assms by simp
  then show ?thesis unfolding page_seq_def by (simp only: if_True if_False refl simp_thms)
qed

lemma update_all_prefix:
  assumes wf: "wf_pair a b" and E: "frame_intact E" and m: "is_cstr m" "length m < page_size a"
  shows "k \<le> num_pages a \<Longrightarrow>
    \<exists>a' b'. iter_res (update_one E (responder_peer E) m True) (map int [0..<k]) (a, Inr b) = Inr (a', Inr b')
      \<and> wf_pair a' b' \<and> page_size a' = page_size a \<and> num_pages a' = num_pages a
      \<and> (\<forall>j < k. view a' b' j = ((MSI_m, m), (MSI_i, [])))"
proof (induction k)
  case 0
  then show ?case using wf by simp
next
  case (Suc k)
  then obtain a1 b1 where a1: "iter_res (update_one E (responder_peer E) m True) (map int [0..<k]) (a, Inr b) = Inr (a1, Inr b1)"
      "wf_pair a1 b1" "page_size a1 = page_size a" "num_pages a1 = num_pages a"
      "\<forall>j < k. view a1 b1 j = ((MSI_m, m), (MSI_i, []))" by auto
  obtain a2 b2 where a2: "update_one E (responder_peer E) m True (int k) (a1, Inr b1) = Inr (a2, Inr b2)"
      "only_page k a1 a2" "only_page k b1 b2" "view a2 b2 k = spec_write m (view a1 b1 k)"
    using update_one_write[OF a1(2) _ E m(1), of k] a1(3,4) m(2) Suc.prems by auto
  have "view a2 b2 j = ((MSI_m, m), (MSI_i, []))" if "j < Suc k" for j
  proof (cases "j = k")
    case True
    then show ?thesis using a2(4) by (simp add: spec_write_def)
  next
    case False
    then show ?thesis using that a1(4,5) view_only_page[OF a1(2) a2(2,3), of j] Suc.prems by simp
  qed
  then show ?case
    using a1 a2(1) wf_pair_only[OF a1(2) a2(2,3)] only_pageD(2,3)[OF a2(2)]
    by (simp add: iter_res_append)
qed

lemma print_all_prefix:
  assumes wf: "wf_node n"
  shows "k \<le> num_pages n \<Longrightarrow>
    \<exists>n'. iter_res (print_one E pr False) (map int [0..<k]) (n, p) = Inr (n', p)
      \<and> wf_node n' \<and> page_size n' = page_size n \<and> num_pages n' = num_pages n
      \<and> (\<forall>j < num_pages n. page_state n' j = page_state n j \<and> text_at n' j = text_at n j)"
proof (induction k)
  case 0
  then show ?case using wf by simp
next
  case (Suc k)
  then obtain n1 where n1: "iter_res (print_one E pr False) (map int [0..<k]) (n, p) = Inr (n1, p)"
      "wf_node n1" "page_size n1 = page_size n" "num_pages n1 = num_pages n"
      "\<forall>j < num_pages n. page_state n1 j = page_state n j \<and> text_at n1 j = text_at n j" by auto
  obtain n2 where n2: "print_one E pr False (int k) (n1, p) = Inr (n2, p)" "only_page k n1 n2"
      "page_state n2 k = page_state n1 k" "text_at n2 k = text_at n1 k"
    using print_one_local[OF n1(2), of k E pr p] n1(4) Suc.prems by auto
  have "page_state n2 j = page_state n j \<and> text_at n2 j = text_at n j" if "j < num_pages n" for j
    using that n1(4,5) n2(3,4) only_pageD(4)[OF n2(2), of j] by (cases "j = k") auto
  then show ?case using n1(1,3,4) n2(1) only_pageD(1-3)[OF n2(2)] by (simp add: iter_res_append)
qed

text \<open>
  C16. A write to page -1 stores the message in every page of the writer, takes every page to
  state M, and leaves every page of the peer invalid and dropped.
\<close>

theorem dsm_write_all:
  assumes "wf_pair a b" and "frame_intact E" and "0 < num_pages a" and "is_cstr m" and "length m < page_size a"
  shows "\<exists>a' b'. run_command E (responder_peer E) (Cmd_write (-1) m) (a, Inr b) = Inr (a', Inr b')
     \<and> wf_pair a' b' \<and> (\<forall>j < num_pages a. view a' b' j = ((MSI_m, m), (MSI_i, [])))"
proof -
  obtain a1 b1 where a1: "iter_res (update_one E (responder_peer E) m True) (map int [0..<num_pages a]) (a, Inr b) = Inr (a1, Inr b1)"
      "wf_pair a1 b1" "page_size a1 = page_size a" "num_pages a1 = num_pages a"
      "\<forall>j < num_pages a. view a1 b1 j = ((MSI_m, m), (MSI_i, []))"
    using update_all_prefix[OF assms(1,2,4,5) order_refl] by blast
  have wf1: "wf_node a1" using a1(2) by (simp add: wf_pair_def)
  obtain a2 where a2: "iter_res (print_one E (responder_peer E) False) (map int [0..<num_pages a1]) (a1, Inr b1) = Inr (a2, Inr b1)"
      "wf_node a2" "page_size a2 = page_size a1" "num_pages a2 = num_pages a1"
      "\<forall>j < num_pages a1. page_state a2 j = page_state a1 j \<and> text_at a2 j = text_at a1 j"
    using print_all_prefix[OF wf1 order_refl, where E = E and pr = "responder_peer E" and p = "Inr b1"]
    by metis
  have "run_command E (responder_peer E) (Cmd_write (-1) m) (a, Inr b) = Inr (a2, Inr b1)"
    using a1(1,4) a2(1) assms(3,5) by (simp add: updatePageContents_def printPageContents_def page_seq_all)
  moreover have "wf_pair a2 b1" using a1(2) a2(2-4) by (simp add: wf_pair_def)
  ultimately show ?thesis using a1(4,5) a2(5)
    by (intro exI[of _ a2] exI[of _ b1]) (simp add: view_def)
qed

theorem dsm_write_all_witness:
  "\<exists>a' b'. run_command env0 (responder_peer env0) (Cmd_write (-1) ''hi'') (node0, Inr node0) = Inr (a', Inr b')
     \<and> wf_pair a' b' \<and> (\<forall>j < num_pages node0. view a' b' j = ((MSI_m, ''hi''), (MSI_i, [])))"
  by (rule dsm_write_all) simp_all

section \<open>Requests and memory that are not there\<close>

text \<open>
  C18. No command checks the page number: any number other than -1 and the existing pages makes
  a read or a write access memory outside the mapping (or overflow the \<open>int\<close> offset).
\<close>

theorem dsm_no_such_page:
  assumes "wf_node a" and "x \<noteq> -1" and "x < 0 \<or> int (num_pages a) \<le> x"
  shows "run_command E pr (Cmd_read x) (a, p) \<in> {Inl OutOfBounds, Inl SignedOverflow}
    \<and> (length m < page_size a \<longrightarrow>
         run_command E pr (Cmd_write x m) (a, p) \<in> {Inl OutOfBounds, Inl SignedOverflow})"
proof -
  have x: "\<not> (0 \<le> x \<and> x < int (num_pages a))" using assms(3) by auto
  have "page_seq x (num_pages a) = [x]" using assms(2) by (simp add: page_seq_def)
  then show ?thesis
    using outside_faults(1)[OF assms(1) x, of E pr True p] outside_faults(2)[OF assms(1) x, of E pr m True p]
    by (auto simp: printPageContents_def updatePageContents_def)
qed

theorem dsm_no_such_page_witness:
  "run_command env0 (responder_peer env0) (Cmd_read 2) (node0, Inr node0) \<in> {Inl OutOfBounds, Inl SignedOverflow}"
  using dsm_no_such_page[of node0 2 env0 "responder_peer env0" "Inr node0" "''x''"] by simp

text \<open>
  C19. \<open>fillWithInvalid\<close> writes one entry more than there are pages: it succeeds exactly when the
  number of pages is below the length of the table (100 in the program), and then the entries
  0 to \<open>num_pages\<close> are invalid and the others unchanged.
\<close>

theorem dsm_fill_bound:
  "fillWithInvalid np a =
     (if np < length a then Inr (replicate (Suc np) MSI_i @ drop (Suc np) a) else Inl OutOfBounds)"
  using fillWithInvalid_ok[of np a] fillWithInvalid_overflow[of a np] by simp

text \<open>
  \<open>updatePageContents\<close> truncates nothing: a message longer than a page runs on into the next
  one, which then holds the message's tail.
\<close>

theorem dsm_long_message_spills:
  assumes "wf_node a" and "Suc j < num_pages a" and "is_cstr m"
    and "page_size a \<le> length m" and "length m < 2 * page_size a"
  shows "\<exists>a'. updatePageContents E pr (int j) m False (a, p) = Inr (a', p)
     \<and> text_at a' (Suc j) = drop (page_size a) m \<and> text_at a' j = m"
proof -
  let ?ps = "page_size a"
  note D = wf_nodeD[OF assms(1)]
  have "(j + 2) * ?ps \<le> num_pages a * ?ps" using assms(2) by (intro mult_le_mono1) simp
  then have le: "j * ?ps + 2 * ?ps \<le> length (bytes (mem a))" using D(8) by (simp add: algebra_simps)
  obtain r where r: "write_str ?ps (j * ?ps) m (mem a) = Inr r"
      "bytes r = put_str (bytes (mem a)) (j * ?ps) m"
    using write_str_ok[OF D(1), of "j * ?ps" m] le assms(5) by auto
  have d: "drop (j * ?ps) (bytes r) = m @ NUL # drop (j * ?ps + length m + 1) (bytes (mem a))"
    using le r(2) by (simp add: put_str_def)
  have "drop (Suc j * ?ps) (bytes r) = drop ?ps (drop (j * ?ps) (bytes r))" by (simp add: add.commute)
  also have "\<dots> = drop ?ps m @ NUL # drop (j * ?ps + length m + 1) (bytes (mem a))"
    using assms(4) d by simp
  finally have d': "drop (Suc j * ?ps) (bytes r) = \<dots>" .
  have "is_cstr (drop ?ps m)" using assms(3) by (auto simp: is_cstr_def dest: in_set_dropD)
  then have t: "text_at (a\<lparr>mem := r\<rparr>) (Suc j) = drop ?ps m" "text_at (a\<lparr>mem := r\<rparr>) j = m"
    using d d' assms(3) by (simp_all add: text_at_def page_text_def del: mult_Suc)
  have "updatePageContents E pr (int j) m False (a, p) = Inr (a\<lparr>mem := r\<rparr>, p)"
    using int_page_offset(2)[OF assms(1), of j] assms(2) r(1)
    by (simp add: updatePageContents_def update_one_def)
  with t show ?thesis by blast
qed

theorem dsm_long_message_spills_witness:
  "\<exists>a'. updatePageContents env0 no_peer (int 0) ''0123456789abcdefgh'' False (node0, ()) = Inr (a', ())
     \<and> text_at a' 1 = ''gh''"
  using dsm_long_message_spills[of node0 0 "''0123456789abcdefgh''" env0 no_peer "()"] by auto

section \<open>The responder\<close>

text \<open>
  C17. The request that is sent is the request that is understood: the responder answers a
  read request with the page or with \<open>"NULL"\<close>, an invalidation with \<open>"Success"\<close>; the requested
  page becomes shared, stays invalid, or becomes invalid and empty, and no other page changes.
\<close>

theorem dsm_responder_answers:
  assumes "wf_node n" and "j < num_pages n" and "k \<in> {readOp, invalidateOp}"
  shows "\<exists>message n'. handle_request E (format_request (int j) k) n = Inr (message, n')
     \<and> wf_node n' \<and> (\<forall>q < num_pages n. q \<noteq> j \<longrightarrow> page_state n' q = page_state n q \<and> text_at n' q = text_at n q)
     \<and> (if k = invalidateOp then message = ''Success'' \<and> page_state n' j = MSI_i \<and> text_at n' j = []
        else if page_state n j = MSI_i then message = ''NULL'' \<and> page_state n' j = MSI_i
        else message = text_at n j \<and> page_state n' j = MSI_s \<and> text_at n' j = text_at n j)"
proof (cases "k = invalidateOp")
  case True
  then show ?thesis using handle_invalidate[OF assms(1,2), of E] only_pageD by fastforce
next
  case False
  then have k: "k = readOp" using assms(3) by simp
  show ?thesis
  proof (cases "page_state n j = MSI_i")
    case True
    obtain n' where "handle_request E (format_request (int j) readOp) n = Inr (''NULL'', n')"
        "only_page j n n'" "page_state n' j = MSI_i"
      using handle_read_invalid[OF assms(1,2) True] by blast
    then show ?thesis using False k True only_pageD by auto
  next
    case valid: False
    obtain n' where "handle_request E (format_request (int j) readOp) n = Inr (text_at n j, n')"
        "only_page j n n'" "page_state n' j = MSI_s" "text_at n' j = text_at n j"
      using handle_read_valid[OF assms(1,2) valid] by blast
    then show ?thesis using False k valid only_pageD by auto
  qed
qed

theorem dsm_responder_answers_witness:
  "\<exists>message n'. handle_request env0 (format_request (int 0) readOp) node0 = Inr (message, n')
     \<and> message = ''NULL'' \<and> page_state n' 0 = MSI_i"
  using dsm_responder_answers[of node0 0 readOp env0] node0_pages[of 0]
  by (auto simp: readOp_def invalidateOp_def)

text \<open>
  A request without the separator, or with nothing after it, makes the responder pass a
  NULL pointer to \<open>atoi\<close>.
\<close>

theorem dsm_malformed_request:
  assumes "is_cstr s" and "length s < page_size n" and "CHR ''-'' \<notin> set s"
  shows "handle_request E s n = Inl NullDeref \<and> (Suc (length s) < page_size n \<longrightarrow>
           handle_request E (s @ ''-'') n = Inl NullDeref)"
proof -
  have "strtok CHR ''-'' [] = None" "strtok CHR ''-'' ''-'' = None" by (simp_all add: strtok_def)
  then have "parse_request s = Inl NullDeref" "parse_request (s @ ''-'') = Inl NullDeref"
    using strtok_token[of s "CHR ''-''" "[]"] strtok_last_token[of s "CHR ''-''"] assms(3)
    by (cases "s = []"; simp add: parse_request_def)+
  then show ?thesis using assms(1,2) by (simp add: handle_request_def as_cstr_fill_buffer)
qed

theorem dsm_malformed_request_witness:
  "handle_request env0 ''17'' node0 = Inl NullDeref \<and> handle_request env0 ''17-'' node0 = Inl NullDeref"
  using dsm_malformed_request[of "''17''" node0 env0] by simp

text \<open>
  The page fault handler rounds the faulting address down with a bit mask: for a page size
  that is a power of two this is the start of the page that contains the address.
\<close>

theorem dsm_fault_page_base:
  assumes "page_size_ok ps" and "l < 2 ^ 64"
  shows "uffd_dst ps l = l div ps * ps \<and> uffd_dst ps l \<le> l \<and> l < uffd_dst ps l + ps"
  using uffd_dst_eq[OF assms] page_size_pos[OF assms(1)]
    dividend_less_div_times[of ps l] by (simp add: add.commute)

theorem dsm_fault_page_base_witness: "uffd_dst 16 37 = 32"
  using dsm_fault_page_base[of 16 37] by simp

section \<open>Interleaved threads\<close>

text \<open>
  C8. Under every interleaving of the two main loops and the two responders, two processes
  whose main loops are at rest never both hold a page in state M.
\<close>

theorem race_single_writer_at_rest:
  assumes "reachable (race_start ps np) (race_step E) s" and "config_ok ps np"
    and "pa s = Idle" and "pb s = Idle" and "j < np"
  shows "\<not> (page_state (na s) j = MSI_m \<and> page_state (nb s) j = MSI_m)"
  using race_system.reachable_inv[OF assms(1)] assms(2-)
  by (auto simp: half_inv_def pending_def)

definition one_write :: "(bool \<times> action) list" where
  "one_write = [(True, Do_store 0 ''v1''), (True, Do_mark), (True, Do_answer), (True, Do_finish)]"

lemma one_write_runs:
  "race_from_start env0 16 2 one_write \<noteq> None
   \<and> pa (the (race_from_start env0 16 2 one_write)) = Idle \<and> pb (the (race_from_start env0 16 2 one_write)) = Idle
   \<and> page_state (na (the (race_from_start env0 16 2 one_write))) 0 = MSI_m"
  by code_simp

theorem race_single_writer_at_rest_witness:
  "\<exists>s. reachable (race_start 16 2) (race_step env0) s \<and> page_state (na s) 0 = MSI_m \<and> page_state (nb s) 0 \<noteq> MSI_m"
proof -
  obtain s where s: "race_from_start env0 16 2 one_write = Some s" using one_write_runs by auto
  have r: "reachable (race_start 16 2) (race_step env0) s" by (rule race_from_start_reach[OF s])
  show ?thesis
    using race_single_writer_at_rest[OF r config_ok_16_2, of 0] one_write_runs s r by auto
qed

definition stale_schedule :: "(bool \<times> action) list" where
  "stale_schedule = one_write @
     [(False, Do_ask 0), (False, Do_answer),
      (True, Do_store 0 ''v2''), (True, Do_mark), (True, Do_answer), (True, Do_finish),
      (False, Do_finish)]"

lemma stale_schedule_runs:
  "case race_from_start env0 16 2 stale_schedule of
     None \<Rightarrow> False
   | Some s \<Rightarrow> pa s = Idle \<and> pb s = Idle
       \<and> page_state (na s) 0 = MSI_m \<and> text_at (na s) 0 = ''v2''
       \<and> page_state (nb s) 0 = MSI_s \<and> text_at (nb s) 0 = ''v1''"
  by code_simp

text \<open>
  C14. Coherence does not survive interleaving: a read whose answer is overtaken by a write of
  the peer installs the old contents as shared, so that a state at rest is reachable where one
  process holds the page modified and the other still shares the older string.
\<close>

theorem race_stale_read:
  "\<exists>s. reachable (race_start 16 2) (race_step env0) s \<and> pa s = Idle \<and> pb s = Idle
     \<and> page_state (na s) 0 = MSI_m \<and> page_state (nb s) 0 = MSI_s \<and> text_at (na s) 0 \<noteq> text_at (nb s) 0"
  using stale_schedule_runs race_from_start_reach
  by (cases "race_from_start env0 16 2 stale_schedule") fastforce+

text \<open>
  Two overlapping writes to page \<open>j\<close>: both processes store and mark before either invalidation is
  answered.
\<close>

definition lost_schedule :: "nat \<Rightarrow> string \<Rightarrow> string \<Rightarrow> (bool \<times> action) list" where
  "lost_schedule j m1 m2 =
     [(True, Do_store j m1), (True, Do_mark), (False, Do_store j m2), (False, Do_mark),
      (True, Do_answer), (False, Do_answer), (True, Do_finish), (False, Do_finish)]"

lemma store_and_mark:
  assumes wf: "wf_node n" and j: "j < num_pages n" and m: "is_cstr m" "length m < page_size n"
  shows "\<exists>n1 n2. half_do E (Do_store j m) (n, Idle, p) = Some (n1, Stored j, p)
    \<and> half_do E Do_mark (n1, Stored j, p) = Some (n2, Sent invalidateOp j, p)
    \<and> wf_node n2 \<and> num_pages n2 = num_pages n \<and> page_size n2 = page_size n
    \<and> page_state n2 j = MSI_m \<and> text_at n2 j = m"
proof -
  obtain n1 where n1: "update_one E no_peer m False (int j) (n, ()) = Inr (n1, ())" "only_page j n n1" "text_at n1 j = m"
    using update_one_quiet[OF wf j m, where E = E and pr = no_peer and p = "()"] by auto
  note D = only_pageD[OF n1(2)]
  obtain n2 where n2: "set_msi (int j) MSI_m n1 = Inr n2" "only_page j n1 n2" "page_state n2 j = MSI_m" "text_at n2 j = m"
    using set_msi_ok[OF D(1), of j MSI_m] j D(3) n1(3) by auto
  let ?n2 = "say (Out_writing (int j)) n2"
  have "wf_node ?n2" "num_pages ?n2 = num_pages n" "page_size ?n2 = page_size n" "page_state ?n2 j = MSI_m" "text_at ?n2 j = m"
    using only_pageD[OF n2(2)] D n2(3,4) by simp_all
  then show ?thesis using n1(1) n2(1) j m by (intro exI[of _ n1] exI[of _ ?n2]) simp
qed

lemma take_invalidation:
  assumes wf: "wf_node p" and j: "j < num_pages p"
  shows "\<exists>p'. half_do E Do_answer (n, Sent invalidateOp j, p) = Some (n, Answered invalidateOp j ''Success'', p')
    \<and> wf_node p' \<and> num_pages p' = num_pages p \<and> page_state p' j = MSI_i \<and> text_at p' j = []"
proof -
  obtain p' where "handle_request E (format_request (int j) invalidateOp) p = Inr (''Success'', p')" "only_page j p p'"
      "page_state p' j = MSI_i" "text_at p' j = []"
    using handle_invalidate[OF wf j, of E] by blast
  then show ?thesis using only_pageD[of j p p'] by (intro exI[of _ p']) simp
qed

text \<open>
  C15. On every page, with any two messages that fit, two overlapping writes are both lost: after
  both processes have stored and marked, each holds its own message in state M; after each has
  then answered the other's invalidation both are at rest, and both hold the page invalid and
  empty.
\<close>

theorem race_lost_updates:
  assumes "config_ok ps np" and "j < np"
    and "is_cstr m1" "length m1 < ps" and "is_cstr m2" "length m2 < ps"
  shows "\<exists>s t. race_from_start E ps np (take 4 (lost_schedule j m1 m2)) = Some s
    \<and> page_state (na s) j = MSI_m \<and> text_at (na s) j = m1
    \<and> page_state (nb s) j = MSI_m \<and> text_at (nb s) j = m2
    \<and> race_run E (drop 4 (lost_schedule j m1 m2)) s = Some t
    \<and> pa t = Idle \<and> pb t = Idle
    \<and> page_state (na t) j = MSI_i \<and> text_at (na t) j = []
    \<and> page_state (nb t) j = MSI_i \<and> text_at (nb t) j = []"
proof -
  obtain n where n: "start_node ps np = Inr n" "wf_node n" "page_size n = ps" "num_pages n = np"
    using start_node_ok[OF assms(1)] by blast
  obtain a1 a2 where a: "half_do E (Do_store j m1) (n, Idle, n) = Some (a1, Stored j, n)"
      "half_do E Do_mark (a1, Stored j, n) = Some (a2, Sent invalidateOp j, n)"
      "wf_node a2" "num_pages a2 = np" "page_state a2 j = MSI_m" "text_at a2 j = m1"
    using store_and_mark[OF n(2), of j m1 E n] assms(2-4) n(3,4) by auto
  obtain b1 b2 where b: "half_do E (Do_store j m2) (n, Idle, a2) = Some (b1, Stored j, a2)"
      "half_do E Do_mark (b1, Stored j, a2) = Some (b2, Sent invalidateOp j, a2)"
      "wf_node b2" "num_pages b2 = np" "page_state b2 j = MSI_m" "text_at b2 j = m2"
    using store_and_mark[OF n(2), of j m2 E a2] assms(2,5,6) n(3,4) by auto
  obtain b3 where b3: "half_do E Do_answer (a2, Sent invalidateOp j, b2) = Some (a2, Answered invalidateOp j ''Success'', b3)"
      "page_state b3 j = MSI_i" "text_at b3 j = []"
    using take_invalidation[OF b(3), of j E a2] assms(2) b(4) by auto
  obtain a3 where a3: "half_do E Do_answer (b3, Sent invalidateOp j, a2) = Some (b3, Answered invalidateOp j ''Success'', a3)"
      "page_state a3 j = MSI_i" "text_at a3 j = []"
    using take_invalidation[OF a(3), of j E b3] assms(2) a(4) by auto
  have fin: "half_do E Do_finish (x, Answered invalidateOp j ''Success'', y) = Some (x, Idle, y)" for x y by simp
  let ?s = "\<lparr>na = a2, nb = b2, pa = Sent invalidateOp j, pb = Sent invalidateOp j\<rparr>"
  let ?t = "\<lparr>na = a3, nb = b3, pa = Idle, pb = Idle\<rparr>"
  have s: "race_from_start E ps np (take 4 (lost_schedule j m1 m2)) = Some ?s"
    by (simp add: race_from_start_def lost_schedule_def n(1) a(1,2) b(1,2) del: half_do.simps)
  have t: "race_run E (drop 4 (lost_schedule j m1 m2)) ?s = Some ?t"
    by (simp add: lost_schedule_def b3(1) a3(1) fin del: half_do.simps)
  show ?thesis
    by (intro exI[of _ ?s] exI[of _ ?t] conjI s t) (simp_all add: a(5,6) b(5,6) a3(2,3) b3(2,3))
qed

theorem race_lost_updates_witness:
  "\<exists>s t. race_from_start env0 16 2 (take 4 (lost_schedule 0 ''aa'' ''bb'')) = Some s
    \<and> page_state (na s) 0 = MSI_m \<and> text_at (na s) 0 = ''aa''
    \<and> page_state (nb s) 0 = MSI_m \<and> text_at (nb s) 0 = ''bb''
    \<and> race_run env0 (drop 4 (lost_schedule 0 ''aa'' ''bb'')) s = Some t
    \<and> pa t = Idle \<and> pb t = Idle
    \<and> page_state (na t) 0 = MSI_i \<and> text_at (na t) 0 = []
    \<and> page_state (nb t) 0 = MSI_i \<and> text_at (nb t) 0 = []"
  by (rule race_lost_updates[OF config_ok_16_2]) (simp_all add: is_cstr_def)

end
