(* ===== verification/Dsm_Progress.thy ===== *)
theory Dsm_Progress
  imports Dsm_Properties
begin

text \<open>
  What the two joined processes can always do: a command on existing pages never faults, it ends or
  waits for an empty page; under interleaving, every schedule settles a main loop within three of its own
  steps: at rest, or with a request that the peer answered with the empty string, for good.
\<close>

section \<open>Loops that end or wait\<close>

lemma iter_res_progress:
  assumes "I s" and "\<And>x s. x \<in> set xs \<Longrightarrow> I s \<Longrightarrow> f x s = Inl e \<or> (\<exists>t. f x s = Inr t \<and> I t)"
  shows "iter_res f xs s = Inl e \<or> (\<exists>t. iter_res f xs s = Inr t \<and> I t)"
  using assms
proof (induction xs arbitrary: s)
  case (Cons x xs)
  have "f x s = Inl e \<or> (\<exists>t. f x s = Inr t \<and> I t)" using Cons.prems by simp
  then show ?case
  proof
    assume "\<exists>t. f x s = Inr t \<and> I t"
    then obtain t where t: "f x s = Inr t" "I t" by blast
    show ?thesis using Cons.IH[OF t(2)] Cons.prems(2) t(1) by simp
  qed simp
qed simp

lemma iter_res_total:
  assumes "I s" and "\<And>x s. x \<in> set xs \<Longrightarrow> I s \<Longrightarrow> \<exists>t. f x s = Inr t \<and> I t"
  shows "\<exists>t. iter_res f xs s = Inr t \<and> I t"
  using assms
proof (induction xs arbitrary: s)
  case (Cons x xs)
  obtain t where "f x s = Inr t" "I t" using Cons.prems by fastforce
  then show ?case using Cons.IH[of t] Cons.prems(2) by simp
qed simp

text \<open>Two running processes of a fixed configuration.\<close>

definition running_pair :: "nat \<Rightarrow> nat \<Rightarrow> node \<times> node res \<Rightarrow> bool" where
  "running_pair ps np s \<longleftrightarrow> (\<exists>a b. s = (a, Inr b) \<and> wf_pair a b \<and> page_size a = ps \<and> num_pages a = np)"

lemma running_pair_only:
  assumes "wf_pair a b" "page_size a = ps" "num_pages a = np" "only_page j a a'" "only_page j b b'"
  shows "running_pair ps np (a', Inr b')"
  using assms wf_pair_only[OF assms(1,4,5)] only_pageD(2,3)[OF assms(4)] by (auto simp: running_pair_def)

text \<open>The pages a command names exist.\<close>

fun names_pages :: "nat \<Rightarrow> command \<Rightarrow> bool" where
  "names_pages np (Cmd_read x) \<longleftrightarrow> (x = -1 \<and> 0 < np) \<or> (0 \<le> x \<and> x < int np)"
| "names_pages np (Cmd_write x m) \<longleftrightarrow> (x = -1 \<and> 0 < np) \<or> (0 \<le> x \<and> x < int np)"
| "names_pages np _ \<longleftrightarrow> True"

lemma page_seq_exists:
  assumes "(x = -1 \<and> 0 < np) \<or> (0 \<le> x \<and> x < int np)" and "y \<in> set (page_seq x np)"
  shows "\<exists>j. y = int j \<and> j < np"
  using assms by (auto simp: page_seq_def intro: exI[of _ "nat x"] split: if_splits)

lemma print_one_safe:
  assumes E: "frame_intact E" and s: "running_pair ps np s" and j: "j < np"
  shows "print_one E (responder_peer E) True (int j) s = Inl Blocked
    \<or> (\<exists>t. print_one E (responder_peer E) True (int j) s = Inr t \<and> running_pair ps np t)"
    and "\<exists>t. print_one E (responder_peer E) False (int j) s = Inr t \<and> running_pair ps np t"
proof -
  obtain a b where ab: "s = (a, Inr b)" "wf_pair a b" "page_size a = ps" "num_pages a = np"
    using s by (auto simp: running_pair_def)
  have ja: "j < num_pages a" using j ab(4) by simp
  show "print_one E (responder_peer E) True (int j) s = Inl Blocked
    \<or> (\<exists>t. print_one E (responder_peer E) True (int j) s = Inr t \<and> running_pair ps np t)"
  proof (cases "spec_read (view a b j)")
    case None
    then show ?thesis using print_one_read[OF ab(2) ja E] ab(1) by simp
  next
    case (Some vt)
    obtain v t where vt: "vt = (v, t)" by (cases vt)
    then obtain a' b' where "print_one E (responder_peer E) True (int j) (a, Inr b) = Inr (a', Inr b')"
        "only_page j a a'" "only_page j b b'"
      using print_one_read[OF ab(2) ja E] Some by auto
    then show ?thesis using running_pair_only[OF ab(2-4)] ab(1) by blast
  qed
  obtain n' where n': "print_one E (responder_peer E) False (int j) (a, Inr b) = Inr (n', Inr b)" "only_page j a n'"
    using print_one_local[OF wf_pairD(1)[OF ab(2)] ja, of E "responder_peer E" "Inr b"] by blast
  have "only_page j b b" using wf_pairD(2)[OF ab(2)] by simp
  then show "\<exists>t. print_one E (responder_peer E) False (int j) s = Inr t \<and> running_pair ps np t"
    using running_pair_only[OF ab(2-4) n'(2)] n'(1) ab(1) by blast
qed

lemma update_one_safe:
  assumes E: "frame_intact E" and s: "running_pair ps np s" and j: "j < np"
    and m: "is_cstr m" "length m < ps"
  shows "\<exists>t. update_one E (responder_peer E) m True (int j) s = Inr t \<and> running_pair ps np t"
proof -
  obtain a b where ab: "s = (a, Inr b)" "wf_pair a b" "page_size a = ps" "num_pages a = np"
    using s by (auto simp: running_pair_def)
  then obtain a' b' where "update_one E (responder_peer E) m True (int j) (a, Inr b) = Inr (a', Inr b')"
      "only_page j a a'" "only_page j b b'"
    using update_one_write[OF ab(2) _ E m(1), of j] j m(2) by auto
  then show ?thesis using running_pair_only[OF ab(2-4)] ab(1) by blast
qed

lemma printMsiArray_total:
  assumes "wf_node n"
  shows "\<exists>l. printMsiArray n = Inr (n\<lparr>log := l\<rparr>)"
proof -
  have "\<exists>t. iter_res (\<lambda>j n. rbind (array_read (msi_array n) (int j))
      (\<lambda>v. Inr (say (Out_msi j (getMSItype v)) n))) [0..<num_pages n] n = Inr t \<and> (\<exists>l. t = n\<lparr>log := l\<rparr>)"
  proof (rule iter_res_total[where I = "\<lambda>m. \<exists>l. m = n\<lparr>log := l\<rparr>"])
    show "\<exists>l. n = n\<lparr>log := l\<rparr>" by (rule exI[of _ "log n"]) simp
    fix x s assume x: "x \<in> set [0..<num_pages n]" and s: "\<exists>l. s = n\<lparr>log := l\<rparr>"
    have "x < length (msi_array n)" using x wf_nodeD[OF assms] by auto
    then show "\<exists>t. rbind (array_read (msi_array s) (int x)) (\<lambda>v. Inr (say (Out_msi x (getMSItype v)) s)) = Inr t
        \<and> (\<exists>l. t = n\<lparr>log := l\<rparr>)"
      using s by (auto simp: array_read_def say_def)
  qed
  then show ?thesis by (auto simp: printMsiArray_def)
qed

section \<open>Commands are safe\<close>

lemma loop_running:
  assumes s: "running_pair ps np s" and x: "(x = -1 \<and> 0 < np) \<or> (0 \<le> x \<and> x < int np)"
    and run: "\<And>n p. s = (n, p) \<Longrightarrow> run s = iter_res f (page_seq x (num_pages n)) s"
    and step: "\<And>j s. j < np \<Longrightarrow> running_pair ps np s \<Longrightarrow> f (int j) s = Inl e \<or> (\<exists>t. f (int j) s = Inr t \<and> running_pair ps np t)"
  shows "run s = Inl e \<or> (\<exists>t. run s = Inr t \<and> running_pair ps np t)"
proof -
  obtain a b where ab: "s = (a, Inr b)" "num_pages a = np" using s by (auto simp: running_pair_def)
  have "iter_res f (page_seq x np) s = Inl e \<or> (\<exists>t. iter_res f (page_seq x np) s = Inr t \<and> running_pair ps np t)"
    by (rule iter_res_progress[where I = "running_pair ps np", OF s]) (use step page_seq_exists[OF x] in blast)
  then show ?thesis using run[OF ab(1)] ab(2) by simp
qed

text \<open>Reads may wait; writes and the state table always finish.\<close>

fun may_wait :: "command \<Rightarrow> bool" where
  "may_wait (Cmd_read x) \<longleftrightarrow> True"
| "may_wait _ \<longleftrightarrow> False"

lemma update_then_print_safe:
  assumes E: "frame_intact E" and s: "running_pair ps np s"
    and x: "(x = -1 \<and> 0 < np) \<or> (0 \<le> x \<and> x < int np)" and m: "is_cstr m" "length m < ps"
  shows "\<exists>t. rbind (updatePageContents E (responder_peer E) x m True s) (printPageContents E (responder_peer E) x False) = Inr t
    \<and> running_pair ps np t"
proof -
  have "\<exists>t. updatePageContents E (responder_peer E) x m True s = Inr t \<and> running_pair ps np t"
  proof -
    have "updatePageContents E (responder_peer E) x m True s = Inl e \<or>
        (\<exists>t. updatePageContents E (responder_peer E) x m True s = Inr t \<and> running_pair ps np t)" for e
      by (rule loop_running[OF s x, where f = "update_one E (responder_peer E) m True"])
         (simp add: updatePageContents_def, use update_one_safe[OF E _ _ m] in blast)
    from this[of Blocked] this[of NullDeref] show ?thesis by auto
  qed
  then obtain t where t: "updatePageContents E (responder_peer E) x m True s = Inr t" "running_pair ps np t" by blast
  have "printPageContents E (responder_peer E) x False t = Inl e \<or>
      (\<exists>u. printPageContents E (responder_peer E) x False t = Inr u \<and> running_pair ps np u)" for e
    by (rule loop_running[OF t(2) x, where f = "print_one E (responder_peer E) False"])
       (simp add: printPageContents_def, use print_one_safe(2)[OF E] in blast)
  from this[of Blocked] this[of NullDeref] show ?thesis using t(1) by auto
qed

text \<open>
  C4. A command on existing pages, with a message that fits its buffer, is safe in every
  well-formed pair of processes: it leads to a well-formed pair of the same configuration, or, for
  a read only, it waits; no other fault is possible.
\<close>

theorem dsm_command_safe:
  assumes "wf_pair a b" and "frame_intact E" and "valid_command c" and "names_pages (num_pages a) c"
    and "\<And>x m. c = Cmd_write x m \<Longrightarrow> length m < page_size a"
  shows "(may_wait c \<and> run_command E (responder_peer E) c (a, Inr b) = Inl Blocked) \<or>
    (\<exists>a' b'. run_command E (responder_peer E) c (a, Inr b) = Inr (a', Inr b') \<and>
       wf_pair a' b' \<and> page_size a' = page_size a \<and> num_pages a' = num_pages a)"
proof -
  let ?s = "(a, Inr b)" and ?ps = "page_size a" and ?np = "num_pages a"
  have s: "running_pair ?ps ?np ?s" using assms(1) by (simp add: running_pair_def)
  show ?thesis
  proof (cases c)
    case (Cmd_read x)
    have "printPageContents E (responder_peer E) x True ?s = Inl Blocked \<or>
        (\<exists>t. printPageContents E (responder_peer E) x True ?s = Inr t \<and> running_pair ?ps ?np t)"
      by (rule loop_running[OF s, where f = "print_one E (responder_peer E) True"])
         (use assms(4) Cmd_read in simp, simp add: printPageContents_def, use print_one_safe(1)[OF assms(2)] in blast)
    then show ?thesis using Cmd_read by (auto simp: running_pair_def)
  next
    case (Cmd_write x m)
    then have "\<exists>t. rbind (updatePageContents E (responder_peer E) x m True ?s)
        (printPageContents E (responder_peer E) x False) = Inr t \<and> running_pair ?ps ?np t"
      using assms(3-5) by (intro update_then_print_safe[OF assms(2) s]) auto
    then show ?thesis using Cmd_write assms(5) by (auto simp: running_pair_def)
  next
    case Cmd_view
    have "wf_node a" using assms(1) by (rule wf_pairD)
    then obtain l where "printMsiArray a = Inr (a\<lparr>log := l\<rparr>)" using printMsiArray_total by blast
    then show ?thesis using Cmd_view assms(1) by (simp add: wf_pair_def)
  qed (use assms(1) in \<open>simp add: wf_pair_def say_def\<close>)
qed

theorem dsm_command_safe_witness:
  "\<exists>a' b'. run_command env0 (responder_peer env0) (Cmd_write (- 1) ''hi'') (node0, Inr node0) = Inr (a', Inr b')
     \<and> wf_pair a' b' \<and> page_size a' = 16 \<and> num_pages a' = 2"
  using dsm_command_safe[of node0 node0 env0 "Cmd_write (- 1) ''hi''"] by simp

section \<open>Interleaved threads come to rest\<close>

fun phase_of :: "bool \<Rightarrow> race \<Rightarrow> phase" where
  "phase_of True s = pa s"
| "phase_of False s = pb s"

fun node_of :: "bool \<Rightarrow> race \<Rightarrow> node" where
  "node_of True s = na s"
| "node_of False s = nb s"

text \<open>A main loop is settled when it is at rest or will never get an answer.\<close>

definition settled :: "phase \<Rightarrow> bool" where
  "settled f \<longleftrightarrow> f = Idle \<or> (\<exists>j. f = Unanswered j)"

text \<open>A page for which the peer's answer is empty: it is valid there, and empty.\<close>

definition waits_for_empty :: "phase \<Rightarrow> node \<Rightarrow> bool" where
  "waits_for_empty f p \<longleftrightarrow> (\<exists>j. f = Sent readOp j \<and> page_state p j \<noteq> MSI_i \<and> text_at p j = [])"

text \<open>The steps of one process in a schedule, and how many it has at most until it is settled.\<close>

definition own :: "bool \<Rightarrow> (bool \<times> action) list \<Rightarrow> nat" where
  "own who acts = length (filter (\<lambda>x. fst x = who) acts)"

fun steps_left :: "phase \<Rightarrow> nat" where
  "steps_left Idle = 0"
| "steps_left (Stored j) = 3"
| "steps_left (Sent k j) = 2"
| "steps_left (Answered k j m) = 1"
| "steps_left (Unanswered j) = 0"

lemma settled_steps: "settled f \<longleftrightarrow> steps_left f = 0"
  by (cases f) (simp_all add: settled_def)

lemma half_do_steps:
  "half_do E act (n, f, p) = Some (n', f', p') \<Longrightarrow> \<not> settled f \<Longrightarrow> steps_left f' < steps_left f"
  by (cases act; cases f) (auto simp: settled_def split: sum.splits if_splits prod.splits)

lemma unanswered_stuck: "half_do E act (n, Unanswered j, p) = None"
  by (cases act) simp_all

lemma race_do_own:
  "race_do E (who, act) s = Some t \<Longrightarrow> \<exists>n' p'. half_do E act (node_of who s, phase_of who s, node_of (\<not> who) s)
     = Some (n', phase_of who t, p')"
  by (cases who) (auto split: option.splits)

lemma race_do_other: "race_do E (who', act) s = Some t \<Longrightarrow> who' \<noteq> who \<Longrightarrow> phase_of who t = phase_of who s"
  by (cases who'; cases who) (auto split: option.splits)

text \<open>Every schedule settles a main loop within the steps it has left, whatever the other does.\<close>

lemma run_settles:
  "race_run E acts s = Some t \<Longrightarrow> steps_left (phase_of who s) \<le> own who acts \<Longrightarrow>
    \<exists>us vs u. acts = us @ vs \<and> own who us \<le> steps_left (phase_of who s) \<and> race_run E us s = Some u
      \<and> settled (phase_of who u)"
proof (induction acts arbitrary: s)
  case Nil
  then show ?case by (intro exI[of _ "[]"]) (simp add: own_def settled_steps)
next
  case (Cons a acts)
  obtain who' act where a: "a = (who', act)" by (cases a)
  obtain s1 where s1: "race_do E (who', act) s = Some s1" "race_run E acts s1 = Some t"
    using Cons.prems(1) a by (auto split: option.splits)
  show ?case
  proof (cases "settled (phase_of who s)")
    case True
    then show ?thesis by (intro exI[of _ "[]"] exI[of _ "a # acts"] exI[of _ s]) (simp add: own_def)
  next
    case False
    have less: "steps_left (phase_of who s1) + (if who' = who then 1 else 0) \<le> steps_left (phase_of who s)"
    proof (cases "who' = who")
      case True
      then obtain n' p' where "half_do E act (node_of who s, phase_of who s, node_of (\<not> who) s) = Some (n', phase_of who s1, p')"
        using race_do_own s1(1) by blast
      from half_do_steps[OF this False] True show ?thesis by simp
    qed (use race_do_other[OF s1(1)] in simp)
    have own: "own who (a # acts) = (if who' = who then 1 else 0) + own who acts" "own who (a # us) = (if who' = who then 1 else 0) + own who us" for us
      by (simp_all add: own_def a)
    show ?thesis
    proof (cases "steps_left (phase_of who s1) \<le> own who acts")
      case True
      then obtain us vs u where "acts = us @ vs" "own who us \<le> steps_left (phase_of who s1)" "race_run E us s1 = Some u"
          "settled (phase_of who u)"
        using Cons.IH[OF s1(2)] by blast
      then show ?thesis using less own(2)[of us] s1(1) a
        by (intro exI[of _ "a # us"] exI[of _ vs] exI[of _ u]) auto
    next
      case False
      then show ?thesis using less own(1) Cons.prems(2) by (auto split: if_splits)
    qed
  qed
qed

text \<open>Every phase that is not settled has its next step.\<close>

lemma finish_step:
  assumes "half_inv np n (Answered k j m) p g"
  shows "\<exists>n'. half_do E Do_finish (n, Answered k j m, p) = Some (n', Idle, p)"
proof -
  have wf: "wf_node n" and j: "j < num_pages n" and m: "is_cstr m" "length m < page_size n"
    using assms by (auto simp: half_inv_def wf_pair_def)
  obtain r where r: "madvise_dontneed (page_size n) (int (j * page_size n)) (mem n) = Inr r"
    using drop_page_ok[OF wf j] by blast
  obtain n1 where n1: "update_one E no_peer m False (int j) (n, ()) = Inr (n1, ())" "only_page j n n1"
    using update_one_quiet[OF wf j m, where E = E and pr = no_peer and p = "()"] by auto
  obtain n2 where "set_msi (int j) MSI_s n1 = Inr n2"
    using set_msi_ok[of n1 j MSI_s] only_pageD(1,3)[OF n1(2)] j by auto
  then show ?thesis using r n1(1) by (cases "k = invalidateOp"; cases "m = ''NULL''") simp_all
qed

lemma answer_step:
  assumes inv: "half_inv np n (Sent k j) p g"
  shows "\<exists>p' m. half_do E Do_answer (n, Sent k j, p) = Some (n, if m = [] then Unanswered j else Answered k j m, p')
    \<and> (m = [] \<longrightarrow> waits_for_empty (Sent k j) p)"
proof -
  have wf: "wf_node p" and jp: "j < num_pages p" and k: "k = readOp \<or> k = invalidateOp"
    using inv by (auto simp: half_inv_def wf_pair_def)
  consider "k = invalidateOp" | "k = readOp" "page_state p j = MSI_i" | "k = readOp" "page_state p j \<noteq> MSI_i"
    using k by blast
  then show ?thesis
  proof cases
    case 1
    then show ?thesis using handle_invalidate[OF wf jp, of E]
      by (auto intro!: exI[of _ "''Success''"])
  next
    case 2
    then show ?thesis using handle_read_invalid[OF wf jp 2(2), of E]
      by (auto intro!: exI[of _ "''NULL''"])
  next
    case 3
    then show ?thesis using handle_read_valid[OF wf jp 3(2), of E]
      by (auto simp: waits_for_empty_def intro!: exI[of _ "text_at p j"])
  qed
qed

lemma mark_step:
  assumes "half_inv np n (Stored j) p g"
  shows "\<exists>n'. half_do E Do_mark (n, Stored j, p) = Some (n', Sent invalidateOp j, p)"
proof -
  have wf: "wf_node n" and j: "j < num_pages n" using assms by (auto simp: half_inv_def wf_pair_def)
  obtain n1 where "set_msi (int j) MSI_m n = Inr n1" using set_msi_ok[OF wf j, of MSI_m] by blast
  then show ?thesis by simp
qed

lemma next_step:
  assumes "half_inv np n f p g" and "\<not> settled f"
  shows "\<exists>act r. half_do E act (n, f, p) = Some r"
proof (cases f)
  case (Stored j)
  then show ?thesis using mark_step[of np n j p g E] assms(1) by blast
next
  case (Sent k j)
  then show ?thesis using answer_step[of np n k j p g E] assms(1) by blast
next
  case (Answered k j m)
  then show ?thesis using finish_step[of np n k j m p g E] assms(1) by blast
qed (use assms(2) in \<open>simp_all add: settled_def\<close>)

text \<open>An answer fails to come only for a page that is valid and empty at the peer.\<close>

lemma unanswered_empty:
  assumes inv: "half_inv np n f p g" and run: "half_do E act (n, f, p) = Some (n', Unanswered j, p')"
  shows "waits_for_empty f p"
proof -
  have "\<exists>k i. act = Do_answer \<and> f = Sent k i"
    using run by (cases act; cases f) (auto split: sum.splits if_splits prod.splits)
  then obtain k i where f: "act = Do_answer" "f = Sent k i" by blast
  obtain p1 m where m: "half_do E Do_answer (n, Sent k i, p) = Some (n, if m = [] then Unanswered i else Answered k i m, p1)"
      "m = [] \<longrightarrow> waits_for_empty (Sent k i) p"
    using answer_step[of np n k i p g E] inv f(2) by blast
  then have "(if m = [] then Unanswered i else Answered k i m) = Unanswered j" using run unfolding f by simp
  then have "m = []" by (simp split: if_splits)
  then show ?thesis using m(2) f(2) by simp
qed

declare half_do.simps [simp del]

lemma race_inv_of:
  assumes "reachable (race_start ps np) (race_step E) s" and "config_ok ps np"
  shows "half_inv np (node_of who s) (phase_of who s) (node_of (\<not> who) s) (phase_of (\<not> who) s)"
proof -
  have "half_inv np (na s) (pa s) (nb s) (pb s)"
    using race_system.reachable_inv[OF assms(1)] assms(2) by blast
  then show ?thesis using half_inv_sym by (cases who) auto
qed

text \<open>
  C9. Whatever the interleaving so far, a main loop that is not settled has a next step, and every
  schedule in which it takes three steps of its own, whatever the other process does meanwhile, has
  settled it by then: it is at rest, or its request was answered with the empty string. That happens
  only if the peer held the page valid and empty when it took the request, and from then on the
  main loop has no step any more.
\<close>

theorem race_comes_to_rest:
  assumes "reachable (race_start ps np) (race_step E) s" and "config_ok ps np"
  shows "(\<not> settled (phase_of who s) \<longrightarrow> (\<exists>act t. race_do E (who, act) s = Some t))
    \<and> (\<forall>acts t. race_run E acts s = Some t \<and> 3 \<le> own who acts \<longrightarrow>
        (\<exists>us vs u. acts = us @ vs \<and> own who us \<le> 3 \<and> race_run E us s = Some u \<and> settled (phase_of who u)))
    \<and> (\<forall>act t j. race_do E (who, act) s = Some t \<and> phase_of who t = Unanswered j \<longrightarrow>
        waits_for_empty (phase_of who s) (node_of (\<not> who) s))
    \<and> (\<forall>j act. phase_of who s = Unanswered j \<longrightarrow> race_do E (who, act) s = None)"
proof (intro conjI allI impI; (elim conjE)?)
  note inv = race_inv_of[OF assms, of who]
  show "\<exists>act t. race_do E (who, act) s = Some t" if "\<not> settled (phase_of who s)"
  proof -
    have "\<exists>act r. half_do E act (node_of who s, phase_of who s, node_of (\<not> who) s) = Some r"
      by (rule next_step[OF inv that])
    then obtain act r where "half_do E act (node_of who s, phase_of who s, node_of (\<not> who) s) = Some r"
      by blast
    then have "\<exists>t. race_do E (who, act) s = Some t" by (cases r; cases who) auto
    then show ?thesis by blast
  qed
  show "\<exists>us vs u. acts = us @ vs \<and> own who us \<le> 3 \<and> race_run E us s = Some u \<and> settled (phase_of who u)"
    if "race_run E acts s = Some t" "3 \<le> own who acts" for acts t
  proof -
    have "steps_left (phase_of who s) \<le> 3" by (cases "phase_of who s") simp_all
    then show ?thesis using run_settles[OF that(1), of who] that(2) by fastforce
  qed
  show "waits_for_empty (phase_of who s) (node_of (\<not> who) s)"
    if "race_do E (who, act) s = Some t" "phase_of who t = Unanswered j" for act t j
    using race_do_own[OF that(1)] unanswered_empty[OF inv] that(2) by metis
  show "race_do E (who, act) s = None" if "phase_of who s = Unanswered j" for j act
    using that unanswered_stuck by (cases who) simp_all
qed

lemma stored_start:
  "case race_from_start env0 16 2 [(True, Do_store 0 ''v1'')] of None \<Rightarrow> False
   | Some s \<Rightarrow> pa s = Stored 0 \<and> race_run env0 [(True, Do_mark), (True, Do_answer), (True, Do_finish)] s \<noteq> None"
  by code_simp

theorem race_comes_to_rest_witness:
  "\<exists>s us vs u. reachable (race_start 16 2) (race_step env0) s \<and> pa s = Stored 0
     \<and> [(True, Do_mark), (True, Do_answer), (True, Do_finish)] = us @ vs
     \<and> race_run env0 us s = Some u \<and> settled (pa u)"
proof -
  obtain s t where s: "race_from_start env0 16 2 [(True, Do_store 0 ''v1'')] = Some s" "pa s = Stored 0"
      "race_run env0 [(True, Do_mark), (True, Do_answer), (True, Do_finish)] s = Some t"
    using stored_start by (auto split: option.splits)
  have r: "reachable (race_start 16 2) (race_step env0) s" by (rule race_from_start_reach[OF s(1)])
  have "3 \<le> own True [(True, Do_mark), (True, Do_answer), (True, Do_finish)]" by (simp add: own_def)
  with race_comes_to_rest[OF r config_ok_16_2, of True] r s(2,3) show ?thesis by (metis phase_of.simps(1))
qed

end
