(* ===== verification/CScan.thy ===== *)
theory CScan
  imports CString
begin

text \<open>
  The C library's numbers in other notations: \<open>strtoul\<close> with its base taken from the prefix, and
  the pointers that \<open>"%p"\<close> prints and reads (as glibc writes them).
\<close>

section \<open>Hexadecimal digits and strtoul\<close>

definition hex_digit :: "nat \<Rightarrow> char" where
  "hex_digit d = (if d < 10 then char_of (48 + d) else char_of (87 + d))"

fun show_hex :: "nat \<Rightarrow> string" where
  "show_hex n = (if n < 16 then [hex_digit n] else show_hex (n div 16) @ [hex_digit (n mod 16)])"

declare show_hex.simps [simp del]

definition hex_value :: "char \<Rightarrow> nat option" where
  "hex_value c =
     (let k = char_code c in
      if 48 \<le> k \<and> k \<le> 57 then Some (k - 48)
      else if 97 \<le> k \<and> k \<le> 102 then Some (k - 87)
      else if 65 \<le> k \<and> k \<le> 70 then Some (k - 55) else None)"

fun hex_val :: "nat \<Rightarrow> string \<Rightarrow> nat" where
  "hex_val acc [] = acc"
| "hex_val acc (c # cs) = (case hex_value c of None \<Rightarrow> acc | Some d \<Rightarrow> hex_val (16 * acc + d) cs)"

fun oct_val :: "nat \<Rightarrow> string \<Rightarrow> nat" where
  "oct_val acc [] = acc"
| "oct_val acc (c # cs) =
     (if 48 \<le> char_code c \<and> char_code c \<le> 55 then oct_val (8 * acc + (char_code c - 48)) cs else acc)"

text \<open>\<open>strtoul(s, NULL, 0)\<close>: white space, a sign, and the base from the prefix.\<close>

definition strtoul :: "string \<Rightarrow> u64" where
  "strtoul s =
     (let t = dropWhile is_white s;
          neg = (t \<noteq> [] \<and> hd t = CHR ''-'');
          t = (if t \<noteq> [] \<and> hd t \<in> {CHR ''-'', CHR ''+''} then tl t else t);
          v = (case t of
                 c # x # d # cs \<Rightarrow>
                   if c = CHR ''0'' \<and> x \<in> {CHR ''x'', CHR ''X''} \<and> hex_value d \<noteq> None then hex_val 0 (d # cs)
                   else if c = CHR ''0'' then oct_val 0 t else digits_val 0 t
               | c # cs \<Rightarrow> if c = CHR ''0'' then oct_val 0 t else digits_val 0 t
               | [] \<Rightarrow> 0)
      in if 2 ^ 64 \<le> v then - 1 else if neg then - of_nat v else of_nat v)"

text \<open>\<open>"%p"\<close>: printed and read back.\<close>

definition show_ptr :: "nat \<Rightarrow> string" where
  "show_ptr a = (if a = 0 then ''(nil)'' else ''0x'' @ show_hex a)"

definition scan_ptr :: "string \<Rightarrow> nat option" where
  "scan_ptr s =
     (let t = dropWhile is_white s in
      if take 5 t = ''(nil)'' then Some 0
      else
        let h = (if take 2 t \<in> {''0x'', ''0X''} then drop 2 t else t) in
        if h \<noteq> [] \<and> hex_value (hd h) \<noteq> None then Some (hex_val 0 h) else None)"

section \<open>What is printed is read back\<close>

lemma hex_value_digit: "d < 16 \<Longrightarrow> hex_value (hex_digit d) = Some d"
  by (auto simp: hex_value_def hex_digit_def char_code_def Let_def)

lemma hex_val_append:
  "\<forall>c \<in> set s. hex_value c \<noteq> None \<Longrightarrow> hex_val acc (s @ t) = hex_val (hex_val acc s) t"
  by (induction s arbitrary: acc) (auto split: option.splits)

lemma show_hex_digits: "\<forall>c \<in> set (show_hex n). hex_value c \<noteq> None"
proof (induction n rule: show_hex.induct)
  case (1 n)
  then show ?case by (subst show_hex.simps) (auto simp: hex_value_digit)
qed

lemma hex_val_show_hex: "hex_val 0 (show_hex n) = n"
proof (induction n rule: show_hex.induct)
  case (1 n)
  show ?case
  proof (cases "n < 16")
    case True
    then show ?thesis by (subst show_hex.simps) (simp add: hex_value_digit)
  next
    case False
    with 1 show ?thesis
      by (subst show_hex.simps) (simp add: hex_val_append show_hex_digits hex_value_digit)
  qed
qed

lemma show_hex_ne [simp]: "show_hex n \<noteq> []"
  by (subst show_hex.simps) simp

lemma length_show_hex: "n < 16 ^ k \<Longrightarrow> 0 < k \<Longrightarrow> length (show_hex n) \<le> k"
proof (induction n arbitrary: k rule: show_hex.induct)
  case (1 n)
  show ?case
  proof (cases "n < 16")
    case True
    with 1 show ?thesis by (subst show_hex.simps) simp
  next
    case False
    then have "k \<noteq> 1" using 1(2) by auto
    then obtain k' where k: "k = Suc k'" "0 < k'" using 1(3) by (cases k) auto
    have "n div 16 < 16 ^ k'" using 1(2) k by (simp add: div_less_iff_less_mult mult.commute)
    with 1(1)[OF False this] k False show ?thesis by (subst show_hex.simps) simp
  qed
qed

lemma hex_value_neq: "hex_value c \<noteq> None \<Longrightarrow> c \<noteq> NUL \<and> c \<noteq> CHR ''-''"
  by (auto simp: hex_value_def char_code_def Let_def)

lemma show_ptr_chars: "is_cstr (show_ptr a) \<and> CHR ''-'' \<notin> set (show_ptr a) \<and> show_ptr a \<noteq> []"
proof -
  have "c \<noteq> NUL \<and> c \<noteq> CHR ''-''" if "c \<in> set (show_hex a)" for c
    using show_hex_digits[of a] that by (intro hex_value_neq) blast
  then have "NUL \<notin> set (show_hex a)" "CHR ''-'' \<notin> set (show_hex a)" by blast+
  then show ?thesis by (simp add: show_ptr_def is_cstr_def)
qed

lemma scan_show_ptr: "scan_ptr (show_ptr a) = Some a"
proof (cases "a = 0")
  case True
  then show ?thesis by (simp add: scan_ptr_def show_ptr_def is_white_def char_code_def)
next
  case False
  have "hex_value (hd (show_hex a)) \<noteq> None" using show_hex_digits[of a] by (meson hd_in_set show_hex_ne)
  then show ?thesis using False hex_val_show_hex[of a]
    by (simp add: scan_ptr_def show_ptr_def is_white_def char_code_def)
qed

lemma show_nat_hd: "0 < n \<Longrightarrow> hd (show_nat n) \<noteq> CHR ''0''"
proof (induction n rule: show_nat.induct)
  case (1 n)
  show ?case
  proof (cases "n < 10")
    case True
    have "char_code (digit_char n) = 48 + n" using True by simp
    then have "digit_char n \<noteq> CHR ''0''" using 1(2) by (auto simp: char_code_def)
    then show ?thesis using True by (subst show_nat.simps) simp
  next
    case False
    then show ?thesis using 1(1)[OF False] by (subst show_nat.simps) (simp add: hd_append)
  qed
qed

lemma strtoul_show_nat:
  assumes "n < 2 ^ 64"
  shows "strtoul (show_nat n) = of_nat n"
proof (cases "n = 0")
  case True
  have "show_nat 0 = ''0''" by code_simp
  then show ?thesis using True by (simp add: strtoul_def is_white_def char_code_def Let_def)
next
  case False
  obtain c cs where eq: "show_nat n = c # cs" and d: "is_digit c" using show_nat_Cons by blast
  have c0: "c \<noteq> CHR ''0''" using show_nat_hd[of n] False eq by simp
  have v: "digits_val 0 (c # cs) = n" using digits_val_show_nat_0[of n] eq by simp
  have w: "\<not> is_white c" by (rule is_digit_not_white[OF d])
  have sg: "c \<noteq> CHR ''-''" "c \<noteq> CHR ''+''" using is_digit_not_sign[OF d] by simp_all
  have "strtoul (c # cs) = (if 2 ^ 64 \<le> digits_val 0 (c # cs) then - 1 else of_nat (digits_val 0 (c # cs)))"
    using c0 w sg by (cases cs; cases "tl cs") (simp_all add: strtoul_def Let_def del: digits_val.simps)
  then show ?thesis using eq v assms by simp
qed

end
