(* ===== verification/Dsm_Setup.thy ===== *)
theory Dsm_Setup
  imports Dsm_Coherence CScan
begin

text \<open>
  How two processes of the distributed-memory program (Assignment 3, part 3, \<open>s2dsm.c\<close>) find
  each other: the first half of \<open>main\<close>. Each listens on its own port, tries to connect to the
  other's, accepts a connection, and connects again if its first attempt failed; the process whose
  first attempt failed asks for the number of pages and tells the other, which waits for the
  message. Every call may fail; a failing \<open>connect\<close> ends nothing, and the first one decides the
  role. Then both register their mapping and start their threads.
\<close>

section \<open>The handshake\<close>

text \<open>
  The first process, with the number \<open>scanf\<close> read and the address \<open>mmap\<close> returned: the length of
  its mapping and the message it sends.
\<close>

definition handshake_send :: "nat \<Rightarrow> u64 \<Rightarrow> nat option \<Rightarrow> (u64 \<times> string) res" where
  "handshake_send ps n mapped =
     (let len = n * of_nat ps in
      case mapped of
        None \<Rightarrow> Inl Exit_failure
      | Some addr \<Rightarrow> Inr (len, take 4095 (show_nat (unat len) @ CHR ''-'' # show_ptr addr)))"

text \<open>
  The second process, with the bytes that arrived: the length, the number of pages and the address
  it asks \<open>mmap\<close> for. An address that cannot be read stays the address of the token itself.
\<close>

definition handshake_recv :: "nat \<Rightarrow> char list option \<Rightarrow> (u64 \<times> u64 \<times> nat option) res" where
  "handshake_recv ps input =
     (case input of
        None \<Rightarrow> Inl Exit_failure
      | Some d \<Rightarrow>
          (case strtok CHR ''-'' (cstr_of (take 1024 d)) of
             None \<Rightarrow> Inl NullDeref
           | Some (t1, rest) \<Rightarrow>
               (let len = strtoul t1 in
                case strtok CHR ''-'' rest of
                  None \<Rightarrow> Inl NullDeref
                | Some (t2, _) \<Rightarrow> Inr (len, len div of_nat ps, scan_ptr t2))))"

section \<open>The stages of one process\<close>

datatype stage = At_start | Listening | Tried | Accepted | Paired | Ready | Gone

text \<open>
  \<open>linked\<close>: \<open>remote_socket\<close> is connected to the peer; \<open>backlog\<close>: connections waiting at
  \<open>local_server_fd\<close>; \<open>inbox\<close>: what has arrived on \<open>new_socket\<close>.
\<close>

record proc =
  stage :: stage
  local_port :: "16 word"
  remote_port :: "16 word"
  first_connection_failed :: bool
  linked :: bool
  backlog :: nat
  inbox :: "string option"
  pages :: u64
  map_len :: u64

text \<open>The arguments; \<open>htons\<close> keeps 16 bits of a port.\<close>

definition start_proc :: "string list \<Rightarrow> proc res" where
  "start_proc argv =
     (if length argv \<noteq> 3 then Inl Exit_failure
      else Inr \<lparr>stage = At_start, local_port = ucast (strtoul (argv ! 1)),
        remote_port = ucast (strtoul (argv ! 2)), first_connection_failed = False, linked = False,
        backlog = 0, inbox = None, pages = 0, map_len = 0\<rparr>)"

text \<open>
  What happens next in a process: a block of calls that succeeds (with what the user types and
  where \<open>mmap\<close> puts the mapping), one of the two calls of \<open>connect\<close> (\<open>fine\<close>: it meets no error
  of its own, so that it succeeds when the peer listens; otherwise it fails, listening or not), or
  a call that fails and ends the process.
\<close>

datatype event = Ev_listen | Ev_connect bool | Ev_accept | Ev_reconnect bool | Ev_ask u64 nat | Ev_told | Ev_fail

definition listens :: "proc \<Rightarrow> proc \<Rightarrow> bool" where
  "listens peer own \<longleftrightarrow> stage peer \<notin> {At_start, Gone} \<and> local_port peer = remote_port own"

definition connect_peer :: "bool \<Rightarrow> proc \<times> proc \<Rightarrow> bool \<times> proc \<times> proc" where
  "connect_peer fine = (\<lambda>(a, b).
     if fine \<and> listens b a then (True, a\<lparr>linked := True\<rparr>, b\<lparr>backlog := Suc (backlog b)\<rparr>) else (False, a, b))"

fun proc_do :: "nat \<Rightarrow> event \<Rightarrow> proc \<times> proc \<Rightarrow> (proc \<times> proc) option" where
  "proc_do ps Ev_listen (a, b) =
     (if stage a = At_start then Some (a\<lparr>stage := Listening\<rparr>, b) else None)"
| "proc_do ps (Ev_connect fine) (a, b) =
     (if stage a = Listening then
        (let (ok, a', b') = connect_peer fine (a, b) in
         Some (a'\<lparr>first_connection_failed := \<not> ok, stage := Tried\<rparr>, b'))
      else None)"
| "proc_do ps Ev_accept (a, b) =
     (if stage a = Tried \<and> 0 < backlog a then Some (a\<lparr>backlog := backlog a - 1, stage := Accepted\<rparr>, b)
      else None)"
| "proc_do ps (Ev_reconnect fine) (a, b) =
     (if stage a = Accepted then
        (let (ok, a', b') = (if first_connection_failed a then connect_peer fine (a, b) else (True, a, b)) in
         Some (a'\<lparr>stage := Paired\<rparr>, b'))
      else None)"
| "proc_do ps (Ev_ask n addr) (a, b) =
     (if stage a = Paired \<and> first_connection_failed a \<and> addr < 2 ^ 64 then
        (case handshake_send ps n (if n * of_nat ps = 0 then None else Some addr) of
           Inl e \<Rightarrow> Some (a\<lparr>stage := Gone\<rparr>, b)
         | Inr (len, msg) \<Rightarrow>
             if linked a then Some (a\<lparr>pages := n, map_len := len, stage := Ready\<rparr>, b\<lparr>inbox := Some msg\<rparr>)
             else Some (a\<lparr>stage := Gone\<rparr>, b))
      else None)"
| "proc_do ps Ev_told (a, b) =
     (if stage a = Paired \<and> \<not> first_connection_failed a then
        (case (inbox a, stage b) of
           (None, Gone) \<Rightarrow> Some (a\<lparr>stage := Gone\<rparr>, b)
         | (None, _) \<Rightarrow> None
         | (Some msg, _) \<Rightarrow>
             (case handshake_recv ps (Some msg) of
                Inl e \<Rightarrow> Some (a\<lparr>stage := Gone\<rparr>, b)
              | Inr (len, n, hint) \<Rightarrow>
                  if len = 0 then Some (a\<lparr>stage := Gone\<rparr>, b)
                  else Some (a\<lparr>inbox := None, pages := n, map_len := len, stage := Ready\<rparr>, b)))
      else None)"
| "proc_do ps Ev_fail (a, b) =
     (if stage a \<notin> {Ready, Gone} then Some (a\<lparr>stage := Gone\<rparr>, b) else None)"

section \<open>Two processes\<close>

text \<open>Started with each other's ports, which differ.\<close>

definition crossed :: "proc \<times> proc \<Rightarrow> bool" where
  "crossed = (\<lambda>(a, b). local_port a = remote_port b \<and> local_port b = remote_port a \<and> local_port a \<noteq> local_port b)"

definition pair_start :: "proc \<times> proc \<Rightarrow> bool" where
  "pair_start = (\<lambda>(a, b). (\<exists>argv. start_proc argv = Inr a) \<and> (\<exists>argv. start_proc argv = Inr b) \<and> crossed (a, b))"

text \<open>Without failures no call fails and the user asks for a mapping that is not empty.\<close>

fun benign :: "nat \<Rightarrow> event \<Rightarrow> bool" where
  "benign ps Ev_fail \<longleftrightarrow> False"
| "benign ps (Ev_connect fine) \<longleftrightarrow> fine"
| "benign ps (Ev_reconnect fine) \<longleftrightarrow> fine"
| "benign ps (Ev_ask n addr) \<longleftrightarrow> n * of_nat ps \<noteq> 0"
| "benign ps _ \<longleftrightarrow> True"

text \<open>
  Which failures may occur: none; all but an error of the first \<open>connect\<close>, which then fails only
  when the peer does not listen; all.
\<close>

datatype failures = No_failure | No_connect_error | Any_failure

fun allowed :: "failures \<Rightarrow> nat \<Rightarrow> event \<Rightarrow> bool" where
  "allowed No_failure ps e \<longleftrightarrow> benign ps e"
| "allowed No_connect_error ps e \<longleftrightarrow> e \<noteq> Ev_connect False"
| "allowed Any_failure ps e \<longleftrightarrow> True"

inductive pair_step :: "failures \<Rightarrow> nat \<Rightarrow> proc \<times> proc \<Rightarrow> proc \<times> proc \<Rightarrow> bool" for mode ps where
  step_a: "allowed mode ps e \<Longrightarrow> proc_do ps e (a, b) = Some (a', b') \<Longrightarrow> pair_step mode ps (a, b) (a', b')"
| step_b: "allowed mode ps e \<Longrightarrow> proc_do ps e (b, a) = Some (b', a') \<Longrightarrow> pair_step mode ps (a, b) (a', b')"

inductive_cases pair_stepE: "pair_step mode ps s t"

text \<open>Both are ready; both wait for a message that nobody sends.\<close>

definition both_ready :: "proc \<times> proc \<Rightarrow> bool" where
  "both_ready = (\<lambda>(a, b). stage a = Ready \<and> stage b = Ready)"

definition both_wait :: "proc \<times> proc \<Rightarrow> bool" where
  "both_wait = (\<lambda>(a, b). stage a = Paired \<and> stage b = Paired \<and> \<not> first_connection_failed a
     \<and> \<not> first_connection_failed b \<and> inbox a = None \<and> inbox b = None)"

section \<open>The handshake is understood\<close>

text \<open>The receiver understands what the sender sends.\<close>

lemma handshake_ok:
  assumes "a < 2 ^ 64" and "handshake_send ps np (Some a) = Inr (len, msg)"
  shows "handshake_recv ps (Some msg) = Inr (len, len div of_nat ps, Some a)"
proof -
  let ?n = "unat len"
  have "?n < 2 ^ LENGTH(64)" by (rule unsigned_less)
  then have n: "?n < 2 ^ 64" by simp
  have "length (show_nat ?n) \<le> 20" by (rule length_show_nat_le) (use n in simp_all)
  moreover have "length (show_hex a) \<le> 16" by (rule length_show_hex) (use assms(1) in simp_all)
  then have "length (show_ptr a) \<le> 18" by (simp add: show_ptr_def)
  ultimately have l: "length (show_nat ?n @ CHR ''-'' # show_ptr a) \<le> 1024" by simp
  have msg: "msg = show_nat ?n @ CHR ''-'' # show_ptr a"
    using assms(2) l by (auto simp: handshake_send_def Let_def)
  have "cstr_of (take 1024 msg) = msg" using l msg show_ptr_chars[of a] by simp
  moreover have "strtok CHR ''-'' msg = Some (show_nat ?n, show_ptr a)"
    unfolding msg by (rule strtok_token) simp_all
  moreover have "strtok CHR ''-'' (show_ptr a) = Some (show_ptr a, [])"
    using show_ptr_chars[of a] by (intro strtok_last_token) simp_all
  moreover have "strtoul (show_nat ?n) = len" using strtoul_show_nat[OF n] by simp
  ultimately show ?thesis by (simp add: handshake_recv_def scan_show_ptr)
qed

section \<open>At most one process is the first\<close>

lemma start_procD:
  "start_proc argv = Inr p \<Longrightarrow> stage p = At_start \<and> \<not> first_connection_failed p \<and> \<not> linked p
     \<and> backlog p = 0 \<and> inbox p = None"
  by (auto simp: start_proc_def split: if_splits)

lemma crossed_swap: "crossed (a, b) \<longleftrightarrow> crossed (b, a)"
  by (auto simp: crossed_def)

text \<open>
  No connection of the process waits at its peer: it has not called \<open>connect\<close>, or its first call
  failed and it waits in \<open>accept\<close>.
\<close>

definition unconnected :: "proc \<Rightarrow> bool" where
  "unconnected a \<longleftrightarrow> stage a \<in> {At_start, Listening} \<or> stage a = Tried \<and> first_connection_failed a"

definition half_role :: "proc \<Rightarrow> proc \<Rightarrow> bool" where
  "half_role a b \<longleftrightarrow> (first_connection_failed a \<longrightarrow> stage a \<notin> {At_start, Listening}) \<and>
     (unconnected a \<longrightarrow> backlog b = 0 \<and> stage b \<in> {At_start, Listening, Tried, Gone})"

text \<open>Two living first processes: both are in \<open>accept\<close>, and neither has connected to the other.\<close>

definition both_first :: "proc \<times> proc \<Rightarrow> bool" where
  "both_first = (\<lambda>(a, b). first_connection_failed a \<and> first_connection_failed b
     \<and> stage a \<noteq> Gone \<and> stage b \<noteq> Gone)"

definition roles_ok :: "proc \<times> proc \<Rightarrow> bool" where
  "roles_ok = (\<lambda>(a, b). crossed (a, b) \<and> half_role a b \<and> half_role b a \<and>
     (both_first (a, b) \<longrightarrow> stage a = Tried \<and> stage b = Tried))"

lemma roles_ok_swap: "roles_ok (a, b) \<longleftrightarrow> roles_ok (b, a)"
  by (auto simp: roles_ok_def both_first_def crossed_swap)

definition one_first :: "proc \<times> proc \<Rightarrow> bool" where
  "one_first = (\<lambda>(a, b). crossed (a, b) \<and>
     (first_connection_failed a \<longrightarrow> stage a \<notin> {At_start, Listening}) \<and>
     (first_connection_failed b \<longrightarrow> stage b \<notin> {At_start, Listening}) \<and> \<not> both_first (a, b))"

lemma one_first_swap: "one_first (a, b) \<longleftrightarrow> one_first (b, a)"
  by (auto simp: one_first_def both_first_def crossed_swap)

text \<open>What a step leaves alone: the ports, and the peer's stage and role.\<close>

definition same_peer :: "proc \<times> proc \<Rightarrow> proc \<times> proc \<Rightarrow> bool" where
  "same_peer = (\<lambda>(a, b) (a', b').
     local_port a' = local_port a \<and> remote_port a' = remote_port a \<and>
     local_port b' = local_port b \<and> remote_port b' = remote_port b \<and>
     stage b' = stage b \<and> first_connection_failed b' = first_connection_failed b)"

lemma proc_do_same_peer: "proc_do ps e (a, b) = Some (a', b') \<Longrightarrow> same_peer (a, b) (a', b')"
proof (cases e)
  case (Ev_ask n addr)
  then show "proc_do ps e (a, b) = Some (a', b') \<Longrightarrow> ?thesis"
    by (cases "handshake_send ps n (if n * of_nat ps = 0 then None else Some addr)")
       (auto simp: same_peer_def split: if_splits prod.splits)
next
  case Ev_told
  then show "proc_do ps e (a, b) = Some (a', b') \<Longrightarrow> ?thesis"
    by (cases "inbox a"; cases "stage b"; cases "handshake_recv ps (inbox a)")
       (auto simp: same_peer_def split: if_splits prod.splits)
qed (auto simp: same_peer_def connect_peer_def Let_def split: if_splits prod.splits)

text \<open>A step moves its own process on; only the first \<open>connect\<close> decides the role.\<close>

lemma proc_do_role:
  assumes "proc_do ps e (a, b) = Some (a', b')" and "\<And>fine. e \<noteq> Ev_connect fine"
  shows "first_connection_failed a' = first_connection_failed a \<and> stage a \<noteq> Gone \<and>
    (stage a' \<in> {At_start, Listening} \<longrightarrow> stage a = At_start)"
proof (cases e)
  case (Ev_ask n addr)
  then show ?thesis using assms(1)
    by (cases "handshake_send ps n (if n * of_nat ps = 0 then None else Some addr)")
       (auto split: if_splits prod.splits)
next
  case Ev_told
  then show ?thesis using assms(1)
    by (cases "inbox a"; cases "stage b"; cases "handshake_recv ps (inbox a)")
       (auto split: if_splits prod.splits)
qed (use assms in \<open>auto simp: connect_peer_def Let_def split: if_splits prod.splits\<close>)

text \<open>Only \<open>accept\<close> takes a process out of \<open>Tried\<close> alive, and only \<open>connect\<close> fills a backlog.\<close>

lemma proc_do_stage:
  assumes "proc_do ps e (a, b) = Some (a', b')" and "\<And>fine. e \<noteq> Ev_connect fine" and "e \<noteq> Ev_accept"
    and "\<And>fine. e \<noteq> Ev_reconnect fine"
  shows "stage a' = Gone \<or> stage a = At_start \<and> stage a' = Listening \<or> stage a = Paired \<and> stage a' = Ready"
    and "backlog a' = backlog a" and "backlog b' = backlog b"
proof -
  have "(stage a' = Gone \<or> stage a = At_start \<and> stage a' = Listening \<or> stage a = Paired \<and> stage a' = Ready)
    \<and> backlog a' = backlog a \<and> backlog b' = backlog b"
  proof (cases e)
    case (Ev_ask n addr)
    then show ?thesis using assms(1)
      by (cases "handshake_send ps n (if n * of_nat ps = 0 then None else Some addr)")
         (auto split: if_splits prod.splits)
  next
    case Ev_told
    then show ?thesis using assms(1)
      by (cases "inbox a"; cases "stage b"; cases "handshake_recv ps (inbox a)")
         (auto split: if_splits prod.splits)
  qed (use assms in \<open>auto split: if_splits\<close>)
  then show "stage a' = Gone \<or> stage a = At_start \<and> stage a' = Listening \<or> stage a = Paired \<and> stage a' = Ready"
    and "backlog a' = backlog a" and "backlog b' = backlog b" by blast+
qed

lemmas roles_defs = roles_ok_def both_first_def half_role_def unconnected_def

lemma crossed_do: "proc_do ps e (a, b) = Some (a', b') \<Longrightarrow> crossed (a', b') = crossed (a, b)"
  using proc_do_same_peer[of ps e a b a' b'] by (simp add: crossed_def same_peer_def)

lemma roles_ok_connect:
  assumes inv: "roles_ok (a, b)" and step: "proc_do ps (Ev_connect fine) (a, b) = Some (a', b')"
  shows "roles_ok (a', b')"
proof -
  have st: "stage a = Listening" using step by (simp split: if_splits)
  then have f: "\<not> first_connection_failed a" using inv by (auto simp: roles_ok_def half_role_def)
  show ?thesis
  proof (cases "fine \<and> listens b a")
    case True
    then have s: "a' = a\<lparr>linked := True, first_connection_failed := False, stage := Tried\<rparr>"
        "b' = b\<lparr>backlog := Suc (backlog b)\<rparr>"
      using step st by (simp_all add: connect_peer_def)
    show ?thesis using inv st f crossed_do[OF step] unfolding s by (cases "stage b") (simp_all add: roles_defs)
  next
    case False
    then have s: "a' = a\<lparr>first_connection_failed := True, stage := Tried\<rparr>" "b' = b"
      using step st by (simp_all add: connect_peer_def split: if_splits)
    show ?thesis using inv st f crossed_do[OF step] unfolding s by (cases "stage b") (simp_all add: roles_defs)
  qed
qed

lemma roles_ok_accept:
  assumes inv: "roles_ok (a, b)" and step: "proc_do ps Ev_accept (a, b) = Some (a', b')"
  shows "roles_ok (a', b')"
proof -
  have st: "stage a = Tried" "0 < backlog a" "a' = a\<lparr>backlog := backlog a - 1, stage := Accepted\<rparr>" "b' = b"
    using step by (auto split: if_splits)
  show ?thesis using inv st(1,2) crossed_do[OF step] unfolding st(3,4) by (cases "stage b") (auto simp: roles_defs)
qed

lemma roles_ok_reconnect:
  assumes inv: "roles_ok (a, b)" and step: "proc_do ps (Ev_reconnect fine) (a, b) = Some (a', b')"
  shows "roles_ok (a', b')"
proof -
  have st: "stage a = Accepted" using step by (simp split: if_splits)
  have s: "stage a' = Paired" "first_connection_failed a' = first_connection_failed a" "backlog a' = backlog a"
      "stage b' = stage b" "first_connection_failed b' = first_connection_failed b" "same_peer (a, b) (a', b')"
    using step st proc_do_same_peer[OF step] by (auto simp: connect_peer_def split: if_splits)
  show ?thesis using inv st s crossed_do[OF step] by (cases "stage b") (simp_all add: roles_defs same_peer_def)
qed

lemma roles_ok_other:
  assumes inv: "roles_ok (a, b)" and step: "proc_do ps e (a, b) = Some (a', b')"
    and e: "\<And>fine. e \<noteq> Ev_connect fine" "e \<noteq> Ev_accept" "\<And>fine. e \<noteq> Ev_reconnect fine"
  shows "roles_ok (a', b')"
proof -
  note s = proc_do_role[OF step e(1)] proc_do_same_peer[OF step] proc_do_stage(2,3)[OF step e]
  consider "stage a' = Gone" | "stage a = At_start" "stage a' = Listening" | "stage a = Paired" "stage a' = Ready"
    using proc_do_stage(1)[OF step e] by blast
  then show ?thesis
  proof cases
    case 1
    then show ?thesis using inv s crossed_do[OF step] by (simp add: roles_defs same_peer_def)
  next
    case 2
    then show ?thesis using inv s crossed_do[OF step] by (simp add: roles_defs same_peer_def)
  next
    case 3
    then show ?thesis using inv s crossed_do[OF step] by (cases "stage b") (simp_all add: roles_defs same_peer_def)
  qed
qed

lemma roles_ok_do:
  assumes inv: "roles_ok (a, b)" and step: "proc_do ps e (a, b) = Some (a', b')"
  shows "roles_ok (a', b')"
proof (cases e)
  case (Ev_connect fine)
  show ?thesis by (rule roles_ok_connect[OF inv step[unfolded Ev_connect]])
next
  case (Ev_reconnect fine)
  show ?thesis by (rule roles_ok_reconnect[OF inv step[unfolded Ev_reconnect]])
next
  case Ev_accept
  show ?thesis by (rule roles_ok_accept[OF inv step[unfolded Ev_accept]])
qed (rule roles_ok_other[OF inv step]; simp)+

lemma one_first_do:
  assumes inv: "one_first (a, b)" and step: "proc_do ps e (a, b) = Some (a', b')" and e: "e \<noteq> Ev_connect False"
  shows "one_first (a', b')"
proof (cases "e = Ev_connect True")
  case True
  then show ?thesis using assms
    by (auto simp: one_first_def both_first_def crossed_def connect_peer_def listens_def split: if_splits)
next
  case False
  then have ne: "e \<noteq> Ev_connect fine" for fine using e by (cases fine) auto
  note role = proc_do_role[OF step ne] and peer = proc_do_same_peer[OF step]
  show ?thesis using inv role peer by (auto simp: one_first_def both_first_def crossed_def same_peer_def)
qed

interpretation roles: safe_system pair_start "pair_step mode ps" roles_ok for mode ps
proof
  fix s assume "pair_start s"
  then show "roles_ok s"
    by (cases s) (auto simp: pair_start_def roles_ok_def both_first_def half_role_def dest!: start_procD)
next
  fix s t assume inv: "roles_ok s" and "pair_step mode ps s t"
  from this(2) show "roles_ok t"
  proof cases
    case (step_a e a b a' b')
    then show ?thesis using roles_ok_do inv by blast
  next
    case (step_b e b a b' a')
    then have "roles_ok (b, a)" using inv roles_ok_swap[of b a] by blast
    then have "roles_ok (b', a')" using roles_ok_do step_b by blast
    then show ?thesis using step_b(2) roles_ok_swap[of b' a'] by blast
  qed
qed

lemma allowed_connect: "mode \<noteq> Any_failure \<Longrightarrow> allowed mode ps e \<Longrightarrow> e \<noteq> Ev_connect False"
  by (cases mode) auto

interpretation pairing: safe_system pair_start "pair_step mode ps" "\<lambda>s. mode \<noteq> Any_failure \<longrightarrow> one_first s"
  for mode ps
proof
  fix s assume "pair_start s"
  then show "mode \<noteq> Any_failure \<longrightarrow> one_first s"
    by (cases s) (auto simp: pair_start_def one_first_def both_first_def dest!: start_procD)
next
  fix s t assume inv: "mode \<noteq> Any_failure \<longrightarrow> one_first s" and step: "pair_step mode ps s t"
  show "mode \<noteq> Any_failure \<longrightarrow> one_first t"
  proof
    assume m: "mode \<noteq> Any_failure"
    from step show "one_first t"
    proof cases
      case (step_a e a b a' b')
      then show ?thesis using one_first_do[of a b ps e a' b'] inv m allowed_connect[OF m] by blast
    next
      case (step_b e b a b' a')
      then have "one_first (b, a)" using inv m one_first_swap[of b a] by blast
      then have "one_first (b', a')" using one_first_do[of b a ps e b' a'] step_b allowed_connect[OF m] by blast
      then show ?thesis using step_b(2) one_first_swap[of b' a'] by blast
    qed
  qed
qed

section \<open>Without failures\<close>

text \<open>
  What one process tells of the other: it is connected after its first attempt, or after its
  second when the first failed; its connection waits in the peer's backlog until the peer accepts
  it; once the first process is ready, its message waits for the peer or has been understood.
\<close>

definition connected :: "proc \<Rightarrow> bool" where
  "connected a \<longleftrightarrow> stage a \<in> {Tried, Accepted, Paired, Ready}
     \<and> (first_connection_failed a \<longrightarrow> stage a \<in> {Paired, Ready})"

definition accepted :: "proc \<Rightarrow> nat" where
  "accepted a = (if stage a \<in> {Accepted, Paired, Ready} then 1 else 0)"

definition told :: "nat \<Rightarrow> proc \<Rightarrow> proc \<Rightarrow> bool" where
  "told ps a b \<longleftrightarrow> map_len a = pages a * of_nat ps \<and> map_len a \<noteq> 0 \<and>
     (if stage b = Ready then map_len b = map_len a \<and> pages b = map_len a div of_nat ps
      else \<exists>msg addr. inbox b = Some msg \<and>
        handshake_recv ps (Some msg) = Inr (map_len a, map_len a div of_nat ps, Some addr))"

definition half_paired :: "nat \<Rightarrow> proc \<Rightarrow> proc \<Rightarrow> bool" where
  "half_paired ps a b \<longleftrightarrow> stage a \<noteq> Gone \<and> (linked a \<longleftrightarrow> connected a) \<and>
     backlog b + accepted b = (if linked a then 1 else 0) \<and>
     (if first_connection_failed a \<and> stage a = Ready then told ps a b
      else inbox b = None \<and> (stage b = Ready \<longrightarrow> first_connection_failed b))"

definition pair_inv :: "nat \<Rightarrow> proc \<times> proc \<Rightarrow> bool" where
  "pair_inv ps = (\<lambda>(a, b). one_first (a, b) \<and> half_paired ps a b \<and> half_paired ps b a)"

lemma pair_inv_swap: "pair_inv ps (a, b) \<longleftrightarrow> pair_inv ps (b, a)"
  using one_first_swap[of a b] by (auto simp: pair_inv_def)

lemmas pair_inv_defs = half_paired_def connected_def accepted_def

text \<open>Only the message, the sizes and being ready matter to \<open>told\<close>.\<close>

lemma told_frame [simp]:
  "told ps (a\<lparr>stage := s\<rparr>) b = told ps a b" "told ps (a\<lparr>linked := l\<rparr>) b = told ps a b"
  "told ps (a\<lparr>backlog := k\<rparr>) b = told ps a b" "told ps (a\<lparr>first_connection_failed := f\<rparr>) b = told ps a b"
  "told ps a (b\<lparr>linked := l\<rparr>) = told ps a b" "told ps a (b\<lparr>backlog := k\<rparr>) = told ps a b"
  "told ps a (b\<lparr>first_connection_failed := f\<rparr>) = told ps a b"
  by (simp_all add: told_def)

lemma told_stage [simp]: "stage b \<noteq> Ready \<Longrightarrow> s \<noteq> Ready \<Longrightarrow> told ps a (b\<lparr>stage := s\<rparr>) = told ps a b"
  by (simp add: told_def)

lemma pair_invD:
  assumes "pair_inv ps (a, b)"
  shows "half_paired ps a b" "half_paired ps b a" "local_port b = remote_port a"
    "\<not> (first_connection_failed a \<and> first_connection_failed b)"
    "stage a \<noteq> Gone" "stage b \<noteq> Gone"
    "first_connection_failed a \<Longrightarrow> stage a \<notin> {At_start, Listening}"
    "first_connection_failed b \<Longrightarrow> stage b \<notin> {At_start, Listening}"
  using assms unfolding pair_inv_def one_first_def both_first_def crossed_def half_paired_def prod.case by blast+

lemma half_paired_listen:
  assumes inv: "pair_inv ps (a, b)" and step: "proc_do ps Ev_listen (a, b) = Some (a', b')"
  shows "half_paired ps a' b' \<and> half_paired ps b' a'"
proof -
  have st: "stage a = At_start" "a' = a\<lparr>stage := Listening\<rparr>" "b' = b"
    using step by (simp_all split: if_splits)
  have f: "\<not> first_connection_failed a" using pair_invD(7)[OF inv] st(1) by blast
  show ?thesis using pair_invD(1,2)[OF inv] st(1) f
    unfolding st(2,3) by (simp add: pair_inv_defs)
qed

lemma half_paired_connect:
  assumes inv: "pair_inv ps (a, b)" and step: "proc_do ps (Ev_connect True) (a, b) = Some (a', b')"
  shows "half_paired ps a' b' \<and> half_paired ps b' a'"
proof -
  have st: "stage a = Listening" using step by (auto split: if_splits)
  have f: "\<not> first_connection_failed a" using pair_invD(7)[OF inv] st by auto
  show ?thesis
  proof (cases "stage b = At_start")
    case True
    then have s: "a' = a\<lparr>first_connection_failed := True, stage := Tried\<rparr>" "b' = b"
      using step st by (simp_all add: connect_peer_def listens_def)
    show ?thesis using pair_invD(1,2)[OF inv] pair_invD(8)[OF inv] st f True
      unfolding s by (simp add: pair_inv_defs)
  next
    case False
    then have s: "a' = a\<lparr>linked := True, first_connection_failed := False, stage := Tried\<rparr>"
        "b' = b\<lparr>backlog := Suc (backlog b)\<rparr>"
      using step st pair_invD(3,6)[OF inv] by (simp_all add: connect_peer_def listens_def)
    show ?thesis using pair_invD(1,2)[OF inv] st f False
      unfolding s by (simp add: pair_inv_defs)
  qed
qed

lemma half_paired_accept:
  assumes inv: "pair_inv ps (a, b)" and step: "proc_do ps Ev_accept (a, b) = Some (a', b')"
  shows "half_paired ps a' b' \<and> half_paired ps b' a'"
proof -
  have st: "stage a = Tried" "0 < backlog a" "a' = a\<lparr>backlog := backlog a - 1, stage := Accepted\<rparr>" "b' = b"
    using step by (auto split: if_splits)
  then obtain k where k: "backlog a = Suc k" by (cases "backlog a") auto
  have "linked b" using pair_invD(2)[OF inv] k by (simp add: half_paired_def split: if_splits)
  then have b: "linked b" "k = 0" using pair_invD(2)[OF inv] st(1) k by (simp_all add: half_paired_def accepted_def)
  show ?thesis using pair_invD(1,2)[OF inv] st(1) b k
    unfolding st(3,4) by (simp add: pair_inv_defs)
qed

lemma half_paired_reconnect:
  assumes inv: "pair_inv ps (a, b)" and step: "proc_do ps (Ev_reconnect True) (a, b) = Some (a', b')"
  shows "half_paired ps a' b' \<and> half_paired ps b' a'"
proof -
  have st: "stage a = Accepted" using step by (auto split: if_splits)
  show ?thesis
  proof (cases "first_connection_failed a")
    case False
    then have s: "a' = a\<lparr>stage := Paired\<rparr>" "b' = b" using step st by simp_all
    show ?thesis using pair_invD(1,2)[OF inv] st False
      unfolding s by (simp add: pair_inv_defs)
  next
    case True
    have "linked b" using pair_invD(2)[OF inv] st by (simp add: half_paired_def accepted_def split: if_splits)
    then have "listens b a" using pair_invD(2,3)[OF inv] by (auto simp: pair_inv_defs listens_def)
    then have s: "a' = a\<lparr>linked := True, stage := Paired\<rparr>" "b' = b\<lparr>backlog := Suc (backlog b)\<rparr>"
      using step st True by (simp_all add: connect_peer_def)
    have f: "\<not> first_connection_failed b" using pair_invD(4)[OF inv] True by blast
    show ?thesis using pair_invD(1,2)[OF inv] st True f
      unfolding s by (cases "stage b") (simp_all add: pair_inv_defs)
  qed
qed

lemma half_paired_ask:
  assumes inv: "pair_inv ps (a, b)" and step: "proc_do ps (Ev_ask n addr) (a, b) = Some (a', b')"
    and n: "n * of_nat ps \<noteq> 0"
  shows "half_paired ps a' b' \<and> half_paired ps b' a'"
proof -
  have st: "stage a = Paired" "first_connection_failed a" "addr < 2 ^ 64"
    using step by (simp_all split: if_splits)
  have f: "\<not> first_connection_failed b" using pair_invD(4)[OF inv] st(2) by blast
  have b: "stage b \<noteq> Ready" "linked a" using pair_invD(1)[OF inv] st f by (auto simp: half_paired_def connected_def)
  obtain msg where send: "handshake_send ps n (Some addr) = Inr (n * of_nat ps, msg)"
    by (simp add: handshake_send_def Let_def)
  have s: "a' = a\<lparr>pages := n, map_len := n * of_nat ps, stage := Ready\<rparr>" "b' = b\<lparr>inbox := Some msg\<rparr>"
    using step st n b(2) by (simp_all add: send)
  have "told ps a' b'"
    using handshake_ok[OF st(3) send] b(1) n unfolding s by (auto simp: told_def)
  then show ?thesis using pair_invD(1,2)[OF inv] st(1,2) f b
    unfolding s by (cases "stage b") (simp_all add: pair_inv_defs)
qed

lemma half_paired_told:
  assumes inv: "pair_inv ps (a, b)" and step: "proc_do ps Ev_told (a, b) = Some (a', b')"
  shows "half_paired ps a' b' \<and> half_paired ps b' a'"
proof -
  have st: "stage a = Paired" "\<not> first_connection_failed a" using step by (simp_all split: if_splits)
  obtain msg where msg: "inbox a = Some msg"
    using step st pair_invD(6)[OF inv] by (cases "inbox a"; cases "stage b") simp_all
  have b: "first_connection_failed b" "stage b = Ready" "told ps b a"
    using pair_invD(2)[OF inv] msg by (auto simp: half_paired_def split: if_splits)
  obtain addr where recv: "handshake_recv ps (Some msg) = Inr (map_len b, map_len b div of_nat ps, Some addr)"
      "map_len b \<noteq> 0"
    using b(3) msg st(1) by (auto simp: told_def)
  have s: "a' = a\<lparr>inbox := None, pages := map_len b div of_nat ps, map_len := map_len b, stage := Ready\<rparr>" "b' = b"
    using step st recv msg by auto
  have "told ps b a'" using b(3) unfolding s told_def by auto
  then show ?thesis using pair_invD(1,2)[OF inv] st b(1,2)
    unfolding s by (simp add: pair_inv_defs)
qed

lemma pair_inv_do:
  assumes inv: "pair_inv ps (a, b)" and step: "proc_do ps e (a, b) = Some (a', b')" and e: "benign ps e"
  shows "pair_inv ps (a', b')"
proof -
  have "half_paired ps a' b' \<and> half_paired ps b' a'"
  proof (cases e)
    case Ev_listen
    show ?thesis by (rule half_paired_listen[OF inv step[unfolded Ev_listen]])
  next
    case (Ev_connect fine)
    then have "e = Ev_connect True" using e by simp
    then show ?thesis by (intro half_paired_connect[OF inv]) (use step in simp)
  next
    case Ev_accept
    show ?thesis by (rule half_paired_accept[OF inv step[unfolded Ev_accept]])
  next
    case (Ev_reconnect fine)
    then have "e = Ev_reconnect True" using e by simp
    then show ?thesis by (intro half_paired_reconnect[OF inv]) (use step in simp)
  next
    case (Ev_ask n addr)
    show ?thesis by (rule half_paired_ask[OF inv step[unfolded Ev_ask]]) (use e Ev_ask in simp)
  next
    case Ev_told
    show ?thesis by (rule half_paired_told[OF inv step[unfolded Ev_told]])
  qed (use e in simp)
  moreover have "one_first (a', b')"
    by (rule one_first_do[OF _ step]) (use inv e in \<open>auto simp: pair_inv_def\<close>)
  ultimately show ?thesis by (simp add: pair_inv_def)
qed

interpretation paired: safe_system pair_start "pair_step No_failure ps" "pair_inv ps" for ps
proof
  fix s assume s: "pair_start s"
  then have "one_first s" using pairing.inv_init[of s No_failure] by blast
  then show "pair_inv ps s" using s
    by (cases s) (auto simp: pair_start_def pair_inv_def pair_inv_defs dest!: start_procD)
next
  fix s t assume inv: "pair_inv ps s" and "pair_step No_failure ps s t"
  from this(2) show "pair_inv ps t"
  proof cases
    case (step_a e a b a' b')
    then show ?thesis using pair_inv_do[of ps a b e a' b'] inv by simp
  next
    case (step_b e b a b' a')
    then have "pair_inv ps (b, a)" using inv pair_inv_swap[of ps b a] by blast
    then have "pair_inv ps (b', a')" using pair_inv_do[of ps b a e b' a'] step_b by simp
    then show ?thesis using step_b(2) pair_inv_swap[of ps b' a'] by blast
  qed
qed

section \<open>Every run ends, paired or waiting\<close>

fun rank :: "stage \<Rightarrow> nat" where
  "rank At_start = 5"
| "rank Listening = 4"
| "rank Tried = 3"
| "rank Accepted = 2"
| "rank Paired = 1"
| "rank Ready = 0"
| "rank Gone = 0"

definition to_go :: "proc \<times> proc \<Rightarrow> nat" where
  "to_go = (\<lambda>(a, b). rank (stage a) + rank (stage b))"

lemma rank_do: "proc_do ps e (a, b) = Some (a', b') \<Longrightarrow> rank (stage a') < rank (stage a)"
proof (cases e)
  case (Ev_ask n addr)
  then show "proc_do ps e (a, b) = Some (a', b') \<Longrightarrow> ?thesis"
    by (cases "handshake_send ps n (if n * of_nat ps = 0 then None else Some addr)")
       (auto split: if_splits prod.splits)
next
  case Ev_told
  then show "proc_do ps e (a, b) = Some (a', b') \<Longrightarrow> ?thesis"
    by (cases "inbox a"; cases "stage b"; cases "handshake_recv ps (inbox a)")
       (auto split: if_splits prod.splits)
next
  case Ev_fail
  then show "proc_do ps e (a, b) = Some (a', b') \<Longrightarrow> ?thesis"
    by (cases "stage a") (auto split: if_splits)
qed (auto simp: connect_peer_def Let_def split: if_splits prod.splits)

lemma to_go_step: "pair_step mode ps s t \<Longrightarrow> to_go t < to_go s"
proof (erule pair_stepE)
  fix e a b a' b' assume "s = (a, b)" "t = (a', b')" "proc_do ps e (a, b) = Some (a', b')"
  then show ?thesis using rank_do[of ps e a b a' b'] proc_do_same_peer[of ps e a b a' b']
    by (simp add: to_go_def same_peer_def)
next
  fix e a b a' b' assume "s = (a, b)" "t = (a', b')" "proc_do ps e (b, a) = Some (b', a')"
  then show ?thesis using rank_do[of ps e b a b' a'] proc_do_same_peer[of ps e b a b' a']
    by (simp add: to_go_def same_peer_def)
qed

lemma to_go_run: "(pair_step mode ps ^^ k) s t \<Longrightarrow> to_go t + k \<le> to_go s"
proof (induction k arbitrary: t)
  case (Suc k)
  then obtain u where u: "(pair_step mode ps ^^ k) s u" "pair_step mode ps u t" by auto
  show ?case using Suc.IH[OF u(1)] to_go_step[OF u(2)] by simp
qed simp

text \<open>What a process that cannot move is waiting for.\<close>

definition waits :: "proc \<Rightarrow> proc \<Rightarrow> bool" where
  "waits a b \<longleftrightarrow> stage a = Ready \<or> stage a = Tried \<and> \<not> linked b \<or>
     stage a = Paired \<and> \<not> first_connection_failed a \<and> inbox a = None"

lemma moves_or_waits:
  assumes inv: "pair_inv ps (a, b)" and ps: "of_nat ps \<noteq> (0 :: u64)" and w: "\<not> waits a b"
  shows "\<exists>e t. benign ps e \<and> proc_do ps e (a, b) = Some t"
proof (cases "stage a")
  case At_start
  then have "benign ps Ev_listen \<and> proc_do ps Ev_listen (a, b) = Some (a\<lparr>stage := Listening\<rparr>, b)" by simp
  then show ?thesis by blast
next
  case Listening
  then have "\<exists>t. benign ps (Ev_connect True) \<and> proc_do ps (Ev_connect True) (a, b) = Some t" by (simp split: prod.split)
  then show ?thesis by blast
next
  case Tried
  then have "linked b" using w by (simp add: waits_def)
  then have "0 < backlog a" using pair_invD(2)[OF inv] Tried by (simp add: half_paired_def accepted_def)
  then have "\<exists>t. benign ps Ev_accept \<and> proc_do ps Ev_accept (a, b) = Some t" using Tried by simp
  then show ?thesis by blast
next
  case Accepted
  then have "\<exists>t. benign ps (Ev_reconnect True) \<and> proc_do ps (Ev_reconnect True) (a, b) = Some t" by (simp split: prod.split)
  then show ?thesis by blast
next
  case Paired
  show ?thesis
  proof (cases "first_connection_failed a")
    case True
    have "linked a" using pair_invD(1)[OF inv] Paired by (simp add: half_paired_def connected_def)
    then have "\<exists>t. benign ps (Ev_ask 1 0) \<and> proc_do ps (Ev_ask 1 0) (a, b) = Some t"
      using Paired True ps by (simp add: handshake_send_def Let_def)
    then show ?thesis by blast
  next
    case False
    then obtain msg where "inbox a = Some msg" using w Paired by (auto simp: waits_def)
    then have "\<exists>t. benign ps Ev_told \<and> proc_do ps Ev_told (a, b) = Some t"
      using Paired False by (cases "handshake_recv ps (Some msg)") (auto split: prod.split)
    then show ?thesis by blast
  qed
qed (use w pair_invD(5)[OF inv] in \<open>simp_all add: waits_def\<close>)

lemma ready_not_waited_for:
  assumes "half_paired ps a b" "half_paired ps b a" "waits b a" "stage a = Ready"
  shows "stage b \<noteq> Paired"
proof
  assume b: "stage b = Paired"
  then have w: "\<not> first_connection_failed b" "inbox b = None" using assms(3) by (auto simp: waits_def)
  then have "first_connection_failed a" using assms(2,4) by (simp add: half_paired_def)
  then have "told ps a b" using assms(1,4) by (simp add: half_paired_def)
  with w(2) b show False by (simp add: told_def)
qed

lemma both_waiting:
  assumes inv: "pair_inv ps (a, b)" and w: "waits a b" "waits b a"
  shows "both_ready (a, b) \<or> both_wait (a, b)"
proof -
  note ha = pair_invD(1)[OF inv] and hb = pair_invD(2)[OF inv] and f = pair_invD(4)[OF inv]
  have la: "stage a = Ready \<or> stage a = Paired \<Longrightarrow> linked a" and lb: "stage b = Ready \<or> stage b = Paired \<Longrightarrow> linked b"
    using ha hb unfolding half_paired_def connected_def by blast+
  have ta: "stage a \<noteq> Tried"
  proof
    assume t: "stage a = Tried"
    then have nl: "\<not> linked b" using w(1) by (simp add: waits_def)
    then have sb: "stage b = Tried" "\<not> linked a" using w(2) lb unfolding waits_def by blast+
    have "connected a = linked a" "connected b = linked b" using ha hb unfolding half_paired_def by blast+
    then have "first_connection_failed a \<and> first_connection_failed b"
      using t sb nl by (simp add: connected_def)
    with f show False by blast
  qed
  have tb: "stage b \<noteq> Tried"
  proof
    assume "stage b = Tried"
    then have "\<not> linked a" using w(2) by (simp add: waits_def)
    then show False using la ta w(1) unfolding waits_def by blast
  qed
  have "\<not> (stage a = Ready \<and> stage b = Paired)" "\<not> (stage b = Ready \<and> stage a = Paired)"
    using ready_not_waited_for[OF ha hb w(2)] ready_not_waited_for[OF hb ha w(1)] by blast+
  then show ?thesis using ta tb w unfolding waits_def both_ready_def both_wait_def prod.case by blast
qed

lemma paired_progress:
  assumes inv: "pair_inv ps s" and ps: "of_nat ps \<noteq> (0 :: u64)"
  shows "both_ready s \<or> both_wait s \<or> (\<exists>t. pair_step No_failure ps s t)"
proof (cases s)
  case (Pair a b)
  have inv': "pair_inv ps (b, a)" using inv Pair pair_inv_swap[of ps a b] by simp
  consider "waits a b \<and> waits b a" | "\<not> waits a b" | "\<not> waits b a" by blast
  then show ?thesis
  proof cases
    case 1
    then show ?thesis using both_waiting[of ps a b] inv Pair by blast
  next
    case 2
    then obtain e a' b' where "benign ps e" "proc_do ps e (a, b) = Some (a', b')"
      using moves_or_waits[of ps a b] inv ps Pair by auto
    then show ?thesis using step_a[of No_failure ps e a b a' b'] Pair by auto
  next
    case 3
    then obtain e a' b' where "benign ps e" "proc_do ps e (b, a) = Some (b', a')"
      using moves_or_waits[OF inv' ps] by auto
    then show ?thesis using step_b[of No_failure ps e b a b' a'] Pair by auto
  qed
qed

lemma run_reachable: "init s \<Longrightarrow> (step ^^ k) s t \<Longrightarrow> reachable init step t"
proof (induction k arbitrary: t)
  case 0
  then show ?case using reachable_init[of init s] by simp
next
  case (Suc k)
  then show ?case using reachable_step[of init step] by auto
qed

lemma both_wait_stuck:
  assumes "both_wait s"
  shows "\<not> pair_step No_failure ps s t"
proof
  assume "pair_step No_failure ps s t"
  then show False
  proof (rule pair_stepE)
    fix e a b a' b' assume e: "allowed No_failure ps e" "s = (a, b)" "proc_do ps e (a, b) = Some (a', b')"
    then show False using assms by (cases e) (simp_all add: both_wait_def)
  next
    fix e b a b' a' assume e: "allowed No_failure ps e" "s = (a, b)" "proc_do ps e (b, a) = Some (b', a')"
    then show False using assms by (cases e) (simp_all add: both_wait_def)
  qed
qed

section \<open>Runs written as lists of events\<close>

fun pair_run :: "nat \<Rightarrow> (bool \<times> event) list \<Rightarrow> proc \<times> proc \<Rightarrow> (proc \<times> proc) option" where
  "pair_run ps [] s = Some s"
| "pair_run ps ((True, e) # es) (a, b) =
     (case proc_do ps e (a, b) of None \<Rightarrow> None | Some (a', b') \<Rightarrow> pair_run ps es (a', b'))"
| "pair_run ps ((False, e) # es) (a, b) =
     (case proc_do ps e (b, a) of None \<Rightarrow> None | Some (b', a') \<Rightarrow> pair_run ps es (a', b'))"

lemma pair_run_steps:
  "pair_run ps es s = Some t \<Longrightarrow> \<forall>(x, e) \<in> set es. allowed mode ps e \<Longrightarrow> (pair_step mode ps)\<^sup>*\<^sup>* s t"
proof (induction ps es s rule: pair_run.induct)
  case (2 ps e es a b)
  then obtain a' b' where ab: "proc_do ps e (a, b) = Some (a', b')" by (auto split: option.splits)
  have "pair_step mode ps (a, b) (a', b')" using ab 2(3) by (intro step_a[of mode ps e]) auto
  moreover have "(pair_step mode ps)\<^sup>*\<^sup>* (a', b') t" using 2 ab by auto
  ultimately show ?case by (rule converse_rtranclp_into_rtranclp)
next
  case (3 ps e es a b)
  then obtain b' a' where ab: "proc_do ps e (b, a) = Some (b', a')" by (auto split: option.splits)
  have "pair_step mode ps (a, b) (a', b')" using ab 3(3) by (intro step_b[of mode ps e]) auto
  moreover have "(pair_step mode ps)\<^sup>*\<^sup>* (a', b') t" using 3 ab by auto
  ultimately show ?case by (rule converse_rtranclp_into_rtranclp)
qed simp

lemma reachable_steps: "step\<^sup>*\<^sup>* s t \<Longrightarrow> reachable init step s \<Longrightarrow> reachable init step t"
  by (induction rule: rtranclp_induct) (auto intro: reachable_step)

lemma pair_run_reachable:
  assumes "pair_run ps es s = Some t" and "\<forall>(x, e) \<in> set es. allowed mode ps e"
    and "reachable init (pair_step mode ps) s"
  shows "reachable init (pair_step mode ps) t"
  using reachable_steps[OF pair_run_steps[OF assms(1,2)] assms(3)] .

section \<open>From set-up to service\<close>

text \<open>
  After the handshake: the calls that register the mapping and start the two threads. The fault
  thread starts before \<open>fillWithInvalid\<close>, the responder after it.
\<close>

record service_os =
  userfaultfd_ok :: bool
  uffdio_api_ok :: bool
  uffdio_register_ok :: bool
  fault_thread_ok :: bool
  responder_thread_ok :: bool

definition enter_service :: "service_os \<Rightarrow> nat \<Rightarrow> nat \<Rightarrow> node res" where
  "enter_service os ps np =
     rbind (require Exit_failure (userfaultfd_ok os)) (\<lambda>_.
     rbind (require Exit_failure (uffdio_api_ok os)) (\<lambda>_.
     rbind (require Exit_failure (uffdio_register_ok os)) (\<lambda>_.
     rbind (require Exit_failure (fault_thread_ok os)) (\<lambda>_.
     rbind (start_node ps np) (\<lambda>n.
     rbind (require Exit_failure (responder_thread_ok os)) (\<lambda>_.
     Inr n))))))"

definition service_fine :: service_os where
  "service_fine = \<lparr>userfaultfd_ok = True, uffdio_api_ok = True, uffdio_register_ok = True,
     fault_thread_ok = True, responder_thread_ok = True\<rparr>"

lemma enter_service_fine: "enter_service service_fine ps np = start_node ps np"
  by (cases "start_node ps np") (simp_all add: enter_service_def service_fine_def)

lemma pages_of_len:
  assumes "0 < ps" and "unat np * ps < 2 ^ 64"
  shows "np * of_nat ps div of_nat ps = (np :: u64)"
proof -
  have len: "unat (np * of_nat ps) = unat np * ps"
  proof -
    have "np * of_nat ps = of_nat (unat np * ps)" by simp
    then show ?thesis using assms(2) by (simp only: unsigned_of_nat) (simp add: take_bit_nat_eq_self)
  qed
  show ?thesis
  proof (cases "np = 0")
    case False
    then have "1 * ps \<le> unat np * ps" by (intro mult_le_mono1) (simp add: unat_gt_0 Suc_leI)
    then have "ps < 2 ^ 64" using assms(2) by linarith
    then have "unat (of_nat ps :: u64) = ps" by (simp add: unsigned_of_nat take_bit_nat_eq_self)
    then have "unat (np * of_nat ps div of_nat ps :: u64) = unat np"
      using len assms(1) by (simp add: unat_div)
    then show ?thesis by (rule word_unat_eq_iff[THEN iffD2])
  qed simp
qed

lemma ready_roles:
  assumes inv: "pair_inv ps (a, b)" and ready: "both_ready (a, b)"
  shows "first_connection_failed a \<and> \<not> first_connection_failed b \<and> told ps a b
    \<or> first_connection_failed b \<and> \<not> first_connection_failed a \<and> told ps b a"
proof -
  have st: "stage a = Ready" "stage b = Ready" using ready by (simp_all add: both_ready_def)
  have ta: "told ps a b" if "first_connection_failed a"
    using pair_invD(1)[OF inv] st(1) that by (simp add: half_paired_def)
  have tb: "told ps b a" if "first_connection_failed b"
    using pair_invD(2)[OF inv] st(2) that by (simp add: half_paired_def)
  have "first_connection_failed b" if "\<not> first_connection_failed a"
    using pair_invD(1)[OF inv] st(2) that by (simp add: half_paired_def)
  then show ?thesis using ta tb pair_invD(4)[OF inv] by blast
qed

end
