(* ===== verification/Dsm_Setup_Properties.thy ===== *)
theory Dsm_Setup_Properties
  imports Dsm_Setup
begin

text \<open>
  What holds of the set-up of two processes: who becomes the first, that every run ends, how it can
  end badly, and that a good end is the state in which \<open>Dsm_Coherence\<close> starts.
\<close>

section \<open>Two started processes\<close>

abbreviation proc_at :: "16 word \<Rightarrow> 16 word \<Rightarrow> proc" where
  "proc_at l r \<equiv> \<lparr>stage = At_start, local_port = l, remote_port = r, first_connection_failed = False,
     linked = False, backlog = 0, inbox = None, pages = 0, map_len = 0\<rparr>"

lemma start_proc_cases: "start_proc argv = Inr p \<Longrightarrow> p = proc_at (local_port p) (remote_port p)"
  by (auto simp: start_proc_def split: if_splits)

lemma pair_start_example:
  "pair_start (proc_at 8001 8002, proc_at 8002 8001)"
proof -
  have "digit_char 8 = CHR ''8''" "digit_char 0 = CHR ''0''" "digit_char 1 = CHR ''1''" "digit_char 2 = CHR ''2''"
    by code_simp+
  then have "show_nat 8001 = ''8001''" "show_nat 8002 = ''8002''" by (simp_all add: show_nat.simps)
  then have "strtoul ''8001'' = 8001" "strtoul ''8002'' = 8002"
    using strtoul_show_nat[of 8001] strtoul_show_nat[of 8002] by simp_all
  then have "start_proc [''s2dsm'', ''8001'', ''8002''] = Inr (proc_at 8001 8002)"
    "start_proc [''s2dsm'', ''8002'', ''8001''] = Inr (proc_at 8002 8001)"
    by (simp_all add: start_proc_def)
  then show ?thesis by (auto simp: pair_start_def crossed_def)
qed

lemma both_first_stuck:
  assumes ok: "roles_ok (a, b)" and both: "both_first (a, b)" and step: "proc_do ps e (a, b) \<noteq> None"
  shows "e = Ev_fail"
proof -
  have "stage a = Tried" "backlog a = 0"
    using ok both by (auto simp: roles_ok_def both_first_def half_role_def unconnected_def)
  then show ?thesis using step by (cases e) (auto split: if_splits)
qed

text \<open>
  C11. Under every interleaving, two living processes never both take themselves for the first, when
  any call may fail and the first \<open>connect\<close> fails only because the peer does not listen. When
  that \<open>connect\<close> may also meet another error, both can become first; then both wait in \<open>accept\<close> with
  no connection to take, and all they can still do is end: no process that got past its \<open>accept\<close>
  ever shares the role with a living peer.
\<close>

theorem pairing_one_first:
  assumes "reachable pair_start (pair_step mode ps) (a, b)" and "stage a \<noteq> Gone" and "stage b \<noteq> Gone"
  shows "(mode \<noteq> Any_failure \<longrightarrow> \<not> (first_connection_failed a \<and> first_connection_failed b))
    \<and> (first_connection_failed a \<and> first_connection_failed b \<longrightarrow>
        stage a = Tried \<and> stage b = Tried \<and>
        (\<forall>e. e \<noteq> Ev_fail \<longrightarrow> proc_do ps e (a, b) = None \<and> proc_do ps e (b, a) = None))"
proof -
  have ok: "roles_ok (a, b)" by (rule roles.reachable_inv[OF assms(1)])
  have ok': "roles_ok (b, a)" using ok roles_ok_swap[of a b] by blast
  show ?thesis
  proof (cases "both_first (a, b)")
    case True
    then have both': "both_first (b, a)" by (simp add: both_first_def)
    have "mode = Any_failure" using pairing.reachable_inv[OF assms(1)] True by (auto simp: one_first_def)
    moreover have "stage a = Tried \<and> stage b = Tried" using ok True by (simp add: roles_ok_def)
    moreover have "proc_do ps e (a, b) = None \<and> proc_do ps e (b, a) = None" if "e \<noteq> Ev_fail" for e
      using both_first_stuck[OF ok True, of ps e] both_first_stuck[OF ok' both', of ps e] that by blast
    ultimately show ?thesis by blast
  next
    case False
    then show ?thesis using assms(2,3) by (auto simp: both_first_def)
  qed
qed

abbreviation proc_tried :: "16 word \<Rightarrow> 16 word \<Rightarrow> proc" where
  "proc_tried l r \<equiv> \<lparr>stage = Tried, local_port = l, remote_port = r, first_connection_failed = True,
     linked = False, backlog = 0, inbox = None, pages = 0, map_len = 0\<rparr>"

lemma two_firsts_example:
  "reachable pair_start (pair_step Any_failure 4096) (proc_tried 8001 8002, proc_tried 8002 8001)"
proof -
  define es where "es = [(True, Ev_listen), (False, Ev_listen), (True, Ev_connect False), (False, Ev_connect False)]"
  have "pair_run 4096 es (proc_at 8001 8002, proc_at 8002 8001) = Some (proc_tried 8001 8002, proc_tried 8002 8001)"
    unfolding es_def by (simp add: connect_peer_def)
  then show ?thesis
    by (rule pair_run_reachable[OF _ _ reachable_init[of pair_start, OF pair_start_example]]) (simp add: es_def)
qed

lemma one_first_example:
  "\<exists>a b. reachable pair_start (pair_step No_connect_error 4096) (a, b) \<and> stage a \<noteq> Gone \<and> stage b \<noteq> Gone
     \<and> first_connection_failed a"
proof -
  define es where "es = [(True, Ev_listen), (True, Ev_connect True), (False, Ev_listen), (False, Ev_connect True),
    (True, Ev_accept), (True, Ev_reconnect False)]"
  obtain a b where ab: "pair_run 4096 es (proc_at 8001 8002, proc_at 8002 8001) = Some (a, b)"
      "stage a \<noteq> Gone" "stage b \<noteq> Gone" "first_connection_failed a"
    unfolding es_def by (simp add: connect_peer_def listens_def)
  have "reachable pair_start (pair_step No_connect_error 4096) (a, b)"
    by (rule pair_run_reachable[OF ab(1) _ reachable_init[of pair_start, OF pair_start_example]]) (simp add: es_def)
  then show ?thesis using ab(2-4) by blast
qed

theorem pairing_one_first_witness:
  "(\<exists>a b. reachable pair_start (pair_step No_connect_error 4096) (a, b)
      \<and> first_connection_failed a \<and> \<not> first_connection_failed b)
   \<and> (\<exists>a b. reachable pair_start (pair_step Any_failure 4096) (a, b) \<and> both_first (a, b)
      \<and> (\<forall>e. e \<noteq> Ev_fail \<longrightarrow> proc_do 4096 e (a, b) = None \<and> proc_do 4096 e (b, a) = None))"
proof
  obtain a b where ab: "reachable pair_start (pair_step No_connect_error 4096) (a, b)" "stage a \<noteq> Gone"
      "stage b \<noteq> Gone" "first_connection_failed a"
    using one_first_example by blast
  from pairing_one_first[OF ab(1-3)] ab
  show "\<exists>a b. reachable pair_start (pair_step No_connect_error 4096) (a, b)
      \<and> first_connection_failed a \<and> \<not> first_connection_failed b" by blast
next
  let ?a = "proc_tried 8001 8002" and ?b = "proc_tried 8002 8001"
  have "\<forall>e. e \<noteq> Ev_fail \<longrightarrow> proc_do 4096 e (?a, ?b) = None \<and> proc_do 4096 e (?b, ?a) = None"
    using pairing_one_first[OF two_firsts_example] by simp
  moreover have "both_first (?a, ?b)" by (simp add: both_first_def)
  ultimately show "\<exists>a b. reachable pair_start (pair_step Any_failure 4096) (a, b) \<and> both_first (a, b)
      \<and> (\<forall>e. e \<noteq> Ev_fail \<longrightarrow> proc_do 4096 e (a, b) = None \<and> proc_do 4096 e (b, a) = None)"
    using two_firsts_example by blast
qed

text \<open>
  C10. When no call fails, every run of the two set-ups has at most ten steps, and it can always go
  on until both processes are ready or both wait for a message.
\<close>

theorem pairing_ends:
  assumes "pair_start s" and "(pair_step No_failure ps ^^ k) s t" and "of_nat ps \<noteq> (0 :: u64)"
  shows "k \<le> 10 \<and> (both_ready t \<or> both_wait t \<or> (\<exists>u. pair_step No_failure ps t u))"
proof
  have "to_go s = 10" using assms(1) by (cases s) (auto simp: pair_start_def to_go_def dest!: start_procD)
  then show "k \<le> 10" using to_go_run[OF assms(2)] by simp
  have "pair_inv ps t" using paired.reachable_inv run_reachable[of pair_start] assms(1,2) by blast
  then show "both_ready t \<or> both_wait t \<or> (\<exists>u. pair_step No_failure ps t u)"
    by (rule paired_progress) (rule assms(3))
qed

theorem pairing_ends_witness:
  "\<exists>u. pair_step No_failure 4096 (proc_at 8001 8002, proc_at 8002 8001) u"
proof -
  have "(pair_step No_failure 4096 ^^ 0) (proc_at 8001 8002, proc_at 8002 8001) (proc_at 8001 8002, proc_at 8002 8001)"
    "of_nat 4096 \<noteq> (0 :: u64)" by simp_all
  from pairing_ends[OF pair_start_example this]
  show ?thesis by (simp add: both_ready_def both_wait_def del: split_paired_Ex)
qed

text \<open>
  C13. From every start of two processes there is a run, in which no call fails, to a state where
  both first connections have succeeded and both processes wait for the other's message; no step
  is left there.
\<close>

theorem pairing_both_wait:
  assumes "pair_start s"
  shows "\<exists>t. (pair_step No_failure ps)\<^sup>*\<^sup>* s t \<and> both_wait t \<and> (\<forall>u. \<not> pair_step No_failure ps t u)"
proof -
  obtain a b where s: "s = (a, b)" by (cases s)
  obtain l r where ab: "a = proc_at l r" "b = proc_at r l"
    using assms start_proc_cases unfolding s pair_start_def crossed_def prod.case by metis
  define es where "es = [(True, Ev_listen), (False, Ev_listen), (True, Ev_connect True), (False, Ev_connect True),
    (True, Ev_accept), (False, Ev_accept), (True, Ev_reconnect True), (False, Ev_reconnect True)]"
  obtain t where t: "pair_run ps es s = Some t" "both_wait t"
    unfolding s ab es_def by (simp add: connect_peer_def listens_def both_wait_def)
  have "(pair_step No_failure ps)\<^sup>*\<^sup>* s t" by (rule pair_run_steps[OF t(1)]) (simp add: es_def)
  then show ?thesis using t(2) both_wait_stuck by blast
qed

theorem pairing_both_wait_witness:
  "\<exists>t. (pair_step No_failure 4096)\<^sup>*\<^sup>* (proc_at 8001 8002, proc_at 8002 8001) t \<and> both_wait t
     \<and> (\<forall>u. \<not> pair_step No_failure 4096 t u)"
  by (rule pairing_both_wait[OF pair_start_example])

text \<open>
  The second process learns from the first one's message the length of its mapping, the
  number of pages asked for, and the address, when the length does not wrap around.
\<close>

theorem handshake_roundtrip:
  assumes "a < 2 ^ 64" and "0 < ps" and "unat np * ps < 2 ^ 64"
  shows "\<exists>msg. handshake_send ps np (Some a) = Inr (np * of_nat ps, msg) \<and>
           handshake_recv ps (Some msg) = Inr (np * of_nat ps, np, Some a)"
proof -
  obtain msg where "handshake_send ps np (Some a) = Inr (np * of_nat ps, msg)"
    by (simp add: handshake_send_def Let_def)
  then show ?thesis using handshake_ok[OF assms(1)] pages_of_len[OF assms(2,3)] by metis
qed

theorem handshake_roundtrip_witness:
  "\<exists>msg. handshake_send 4096 3 (Some 140000) = Inr (3 * of_nat 4096, msg) \<and>
     handshake_recv 4096 (Some msg) = Inr (3 * of_nat 4096, 3, Some 140000)"
  by (rule handshake_roundtrip) simp_all

text \<open>
  C12. Two set-ups that end well start the system: the two processes agree on the number of pages
  (in the configurations the program works in), one of them was the first, and their start is the
  start of two joined processes.
\<close>

theorem setup_starts_system:
  assumes "reachable pair_start (pair_step No_failure ps) (a, b)" and "both_ready (a, b)"
    and "config_ok ps (unat (pages a))" and "config_ok ps (unat (pages b))"
  shows "pages a = pages b \<and> first_connection_failed a \<noteq> first_connection_failed b \<and>
    (\<exists>n. enter_service service_fine ps (unat (pages a)) = Inr n \<and>
         enter_service service_fine ps (unat (pages b)) = Inr n \<and>
         dsm_start ps (unat (pages a)) \<lparr>node_a = n, node_b = n\<rparr>)"
proof -
  have ps: "0 < ps" using assms(3) by (simp add: config_ok_def page_size_pos)
  have agree: "pages x = pages y" if "told ps x y" "stage y = Ready" "config_ok ps (unat (pages x))" for x y
    using that pages_of_len[OF ps, of "pages x"] by (simp add: told_def config_ok_def)
  have roles: "pages a = pages b \<and> first_connection_failed a \<noteq> first_connection_failed b"
    using ready_roles[OF paired.reachable_inv[OF assms(1)] assms(2)] agree[of a b] agree[of b a] assms(2-4)
    by (auto simp: both_ready_def)
  obtain n where "start_node ps (unat (pages a)) = Inr n" using start_node_ok[OF assms(3)] by blast
  then show ?thesis using roles by (simp add: enter_service_fine dsm_start_def)
qed

abbreviation proc_paired :: "16 word \<Rightarrow> 16 word \<Rightarrow> bool \<Rightarrow> proc" where
  "proc_paired l r failed \<equiv> \<lparr>stage = Paired, local_port = l, remote_port = r, first_connection_failed = failed,
     linked = True, backlog = 0, inbox = None, pages = 0, map_len = 0\<rparr>"

lemma pairing_example:
  "\<exists>a b. reachable pair_start (pair_step No_failure 16) (a, b) \<and> both_ready (a, b) \<and> pages a = 2 \<and> pages b = 2"
proof -
  let ?s = "(proc_at 8001 8002, proc_at 8002 8001)"
  define es where "es = [(True, Ev_listen), (True, Ev_connect True), (False, Ev_listen), (False, Ev_connect True),
    (True, Ev_accept), (True, Ev_reconnect True), (False, Ev_accept), (False, Ev_reconnect True)]"
  let ?a = "proc_paired 8001 8002 True" and ?b = "proc_paired 8002 8001 False"
  have "pair_run 16 es ?s = Some (?a, ?b)"
    unfolding es_def by (simp add: connect_peer_def listens_def)
  then have r: "reachable pair_start (pair_step No_failure 16) (?a, ?b)"
    by (rule pair_run_reachable[OF _ _ reachable_init[of pair_start, OF pair_start_example]]) (simp add: es_def)
  obtain msg where send: "handshake_send 16 2 (Some 0) = Inr (32, msg)"
    by (simp add: handshake_send_def Let_def)
  have recv: "handshake_recv 16 (Some msg) = Inr (32, 2, Some 0)"
    using handshake_ok[OF _ send] by simp
  obtain a b where ab: "pair_run 16 [(True, Ev_ask 2 0), (False, Ev_told)] (?a, ?b) = Some (a, b)"
      "both_ready (a, b)" "pages a = 2" "pages b = 2"
    by (simp add: send recv both_ready_def)
  have "reachable pair_start (pair_step No_failure 16) (a, b)"
    by (rule pair_run_reachable[OF ab(1) _ r]) simp
  then show ?thesis using ab by blast
qed

theorem setup_starts_system_witness:
  "\<exists>a b n. reachable pair_start (pair_step No_failure 16) (a, b) \<and> both_ready (a, b) \<and>
     enter_service service_fine 16 (unat (pages b)) = Inr n \<and> dsm_start 16 (unat (pages a)) \<lparr>node_a = n, node_b = n\<rparr>"
proof -
  obtain a b where ab: "reachable pair_start (pair_step No_failure 16) (a, b)" "both_ready (a, b)" "pages a = 2" "pages b = 2"
    using pairing_example by blast
  have "page_size_ok 16" unfolding page_size_ok_def by (rule exI[of _ 4]) simp
  then have "config_ok 16 (unat (pages a))" "config_ok 16 (unat (pages b))"
    using ab(3,4) by (simp_all add: config_ok_def)
  with setup_starts_system[OF ab(1,2)] ab show ?thesis by blast
qed

end
