(* ===== verification/Dsm_Part12.thy ===== *)
theory Dsm_Part12
  imports Dsm_Node
begin

text \<open>
  The earlier version of the distributed-memory program (Assignment 3, parts 1 and 2,
  \<open>s2dsm.c\<close>): two processes map the same number of pages and fill them on demand, but do not
  exchange their contents.
\<close>

section \<open>The fault handler\<close>

text \<open>
  One turn of its loop: how often it prints its notice (once \<open>poll\<close> has returned), and what becomes
  of the mapping, as in the later version.
\<close>

definition fault_turn12 :: "nat \<Rightarrow> bool \<Rightarrow> uffd_event \<Rightarrow> region \<Rightarrow> nat \<times> region res" where
  "fault_turn12 ps copy_ok event r =
     (case event of
        Poll_fails \<Rightarrow> (0, Inl Exit_failure)
      | Read_eof \<Rightarrow> (1, Inl Exit_failure)
      | Read_fails \<Rightarrow> (1, Inl Exit_failure)
      | Other_event \<Rightarrow> (1, Inl Exit_failure)
      | Pagefault a \<Rightarrow> (1,
          let dst = uffd_dst ps a in
          if copy_ok
          then Inr (r\<lparr>bytes := take dst (bytes r) @ replicate ps NUL @ drop (dst + ps) (bytes r),
                      present := (present r)[dst div ps := True],
                      faults := Suc (faults r)\<rparr>)
          else Inl Exit_failure))"

lemma fault_turn12_handler: "snd (fault_turn12 ps copy_ok event r) = fault_handler ps copy_ok event r"
  by (cases event) (simp_all add: fault_turn12_def)

section \<open>Commands on a private mapping\<close>

definition print_one12 :: "nat \<Rightarrow> int \<Rightarrow> region \<times> out list \<Rightarrow> (region \<times> out list) res" where
  "print_one12 ps i = (\<lambda>(r, outs).
     rbind (page_offset ps i) (\<lambda>l.
     rbind (read_str ps l r) (\<lambda>(page_output, r').
     rbind (require OutOfBounds (length page_output \<le> ps)) (\<lambda>_.
     Inr (r', outs @ [Out_page i page_output])))))"

definition printPageContents12 :: "nat \<Rightarrow> nat \<Rightarrow> int \<Rightarrow> region \<times> out list \<Rightarrow> (region \<times> out list) res" where
  "printPageContents12 ps np request_page ro = iter_res (print_one12 ps) (page_seq request_page np) ro"

definition update_one12 :: "nat \<Rightarrow> string \<Rightarrow> int \<Rightarrow> region \<Rightarrow> region res" where
  "update_one12 ps message i r = rbind (page_offset ps i) (\<lambda>l. write_str ps l message r)"

definition updatePageContents12 :: "nat \<Rightarrow> int \<Rightarrow> nat \<Rightarrow> string \<Rightarrow> region \<Rightarrow> region res" where
  "updatePageContents12 ps request_page np message r =
     iter_res (update_one12 ps message) (page_seq request_page np) r"

datatype command12 = Read12 int | Write12 int string | Other12 int

fun run_command12 :: "nat \<Rightarrow> nat \<Rightarrow> command12 \<Rightarrow> region \<times> out list \<Rightarrow> (region \<times> out list) res" where
  "run_command12 ps np (Read12 request_page) ro = printPageContents12 ps np request_page ro"
| "run_command12 ps np (Write12 request_page message) (r, outs) =
     rbind (require OutOfBounds (length message < ps)) (\<lambda>_.
     rbind (updatePageContents12 ps request_page np message r) (\<lambda>r'.
     printPageContents12 ps np request_page (r', outs)))"
| "run_command12 ps np (Other12 request_page) (r, outs) = Inr (r, outs @ [Out_invalid_option])"

section \<open>The later version extends it\<close>

text \<open>A private mapping inside a process of the later version.\<close>

definition embed :: "node \<Rightarrow> 'p \<Rightarrow> region \<times> out list \<Rightarrow> node \<times> 'p" where
  "embed n p ro = (n\<lparr>mem := fst ro, log := snd ro\<rparr>, p)"

definition all_valid :: "int \<Rightarrow> node \<Rightarrow> bool" where
  "all_valid request_page n \<longleftrightarrow> (\<forall>j \<in> set (page_seq request_page (num_pages n)).
     array_read (msi_array n) j \<in> {Inr MSI_m, Inr MSI_s})"

lemma update_embed:
  "updatePageContents E pr request_page message False (embed n p (r, outs)) =
     map_sum id (\<lambda>r'. embed n p (r', outs)) (updatePageContents12 (page_size n) request_page (num_pages n) message r)"
proof -
  have "update_one E pr message False j (embed n p (r, outs)) =
      map_sum id (\<lambda>r'. embed n p (r', outs)) (update_one12 (page_size n) message j r)" for j r
    by (cases "page_offset (page_size n) j"; cases "write_str (page_size n) (projr (page_offset (page_size n) j)) message r")
      (simp_all add: update_one_def update_one12_def embed_def)
  from iter_res_sim[where f = "update_one E pr message False" and h = "\<lambda>r'. embed n p (r', outs)", OF this]
  show ?thesis by (simp add: updatePageContents_def updatePageContents12_def embed_def)
qed

lemma print_embed:
  assumes "all_valid request_page n"
  shows "printPageContents E pr request_page fetch (embed n p ro) =
     map_sum id (embed n p) (printPageContents12 (page_size n) (num_pages n) request_page ro)"
proof -
  have "print_one E pr fetch j (embed n p ro) = map_sum id (embed n p) (print_one12 (page_size n) j ro)"
    if j: "j \<in> set (page_seq request_page (num_pages n))" for j ro
  proof (cases "page_offset (page_size n) j")
    case (Inl e)
    then show ?thesis by (cases ro) (simp add: print_one_def print_one12_def embed_def)
  next
    case (Inr l)
    obtain r outs where ro: "ro = (r, outs)" by (cases ro)
    have st: "array_read (msi_array n) j = Inr MSI_m \<or> array_read (msi_array n) j = Inr MSI_s"
      using assms j by (auto simp: all_valid_def)
    show ?thesis
    proof (cases "read_str (page_size n) l r")
      case (Inl e)
      then show ?thesis using Inr ro by (simp add: print_one_def print_one12_def embed_def)
    next
      case r: (Inr tr)
      obtain t r' where tr: "tr = (t, r')" by (cases tr)
      show ?thesis using st
        by (cases "length t \<le> page_size n") (auto simp: print_one_def print_one12_def embed_def Inr ro r tr say_def)
    qed
  qed
  from iter_res_sim[where f = "print_one E pr fetch" and h = "embed n p", OF this]
  show ?thesis by (simp add: printPageContents_def printPageContents12_def embed_def)
qed

section \<open>What a user of the earlier version sees\<close>

lemma write_page12:
  assumes wf: "wf_region ps r" and p: "p < length (present r)" and int: "in_int (int (p * ps))"
    and msg: "is_cstr msg" "length msg < ps"
  obtains r' where "update_one12 ps msg (int p) r = Inr r'" "wf_region ps r'"
    "length (present r') = length (present r)" "terminated ps r' p" "page_text ps r' p = msg"
    "\<And>q. q \<noteq> p \<Longrightarrow> page_bytes ps (bytes r') q = page_bytes ps (bytes r) q"
proof -
  note D = wf_regionD[OF wf]
  have "Suc p * ps \<le> length (present r) * ps" using p by (intro mult_le_mono1) simp
  then have le: "p * ps + length msg < length (bytes r)" using D(3) msg(2) by simp
  have off: "page_offset ps (int p) = Inr (p * ps)"
    using int by (simp add: page_offset_def mul_int_def nat_mult_distrib flip: of_nat_mult)
  obtain r' where r': "write_str ps (p * ps) msg r = Inr r'" "bytes r' = put_str (bytes r) (p * ps) msg"
    "wf_region ps r'" "length (present r') = length (present r)"
    using write_str_ok[OF wf le] by blast
  have pg: "page_bytes ps (bytes r') p = put_str (page_bytes ps (bytes r) p) 0 msg"
    unfolding r'(2) by (rule page_bytes_put_str_same[OF D(3) p msg(2)])
  then have t: "terminated ps r' p" by (simp add: terminated_def put_str_def)
  have "page_text ps r' p = cstr_of (msg @ NUL # drop (length msg + 1) (page_bytes ps (bytes r) p))"
    using page_text_page_bytes[OF t] by (simp add: pg put_str_def)
  then have "page_text ps r' p = msg" using msg(1) by simp
  moreover have "page_bytes ps (bytes r') q = page_bytes ps (bytes r) q" if "q \<noteq> p" for q
    unfolding r'(2) using page_bytes_put_str_other[OF D(3) p _ msg(2)] that by metis
  ultimately show thesis using that[of r'] r' t off by (simp add: update_one12_def)
qed

text \<open>
  In the earlier version a write to an existing page prints that page with the new message,
  whatever it held before, and a later read prints it again; every other page keeps its bytes.
\<close>

theorem part12_write_read:
  assumes "wf_region ps r" and "length (present r) = np" and "p < np" and "in_int (int (p * ps))"
    and "is_cstr msg" and "length msg < ps"
  shows "\<exists>r' r''.
      run_command12 ps np (Write12 (int p) msg) (r, outs) = Inr (r', outs @ [Out_page (int p) msg]) \<and>
      run_command12 ps np (Read12 (int p)) (r', outs') = Inr (r'', outs' @ [Out_page (int p) msg]) \<and>
      bytes r'' = bytes r' \<and>
      (\<forall>q. q \<noteq> p \<longrightarrow> page_bytes ps (bytes r'') q = page_bytes ps (bytes r) q)"
proof -
  have seq: "page_seq (int p) np = [int p]" by (simp add: page_seq_def)
  have off: "page_offset ps (int p) = Inr (p * ps)"
    using assms(4) by (simp add: page_offset_def mul_int_def nat_mult_distrib flip: of_nat_mult)
  obtain r1 where r1: "update_one12 ps msg (int p) r = Inr r1" "wf_region ps r1"
    "terminated ps r1 p" "page_text ps r1 p = msg"
    "\<And>q. q \<noteq> p \<Longrightarrow> page_bytes ps (bytes r1) q = page_bytes ps (bytes r) q"
    using write_page12[OF assms(1) _ assms(4-6)] assms(2,3) by metis
  have rd: "\<exists>r2. read_str ps (p * ps) ra = Inr (msg, r2) \<and> bytes r2 = bytes ra \<and> wf_region ps r2"
    if "wf_region ps ra" "bytes ra = bytes r1" for ra
    using read_str_ok[OF that(1), of "p * ps"] terminated_drop[OF r1(3)] r1(4) that(2)
    by (auto simp: page_text_def)
  obtain r2 where r2: "read_str ps (p * ps) r1 = Inr (msg, r2)" "bytes r2 = bytes r1" "wf_region ps r2"
    using rd[OF r1(2) refl] by blast
  obtain r3 where r3: "read_str ps (p * ps) r2 = Inr (msg, r3)" "bytes r3 = bytes r2"
    using rd[OF r2(3,2)] by blast
  have print: "printPageContents12 ps np (int p) (ra, os) = Inr (rb, os @ [Out_page (int p) msg])"
    if "read_str ps (p * ps) ra = Inr (msg, rb)" for ra rb os
    using that off assms(6) by (simp add: printPageContents12_def seq print_one12_def)
  show ?thesis
    using print[OF r2(1)] print[OF r3(1)] r1(1,5) r2(2) r3(2) assms(6)
    by (intro exI[of _ r2] exI[of _ r3]) (simp add: updatePageContents12_def seq)
qed

theorem part12_write_read_witness:
  "\<exists>r' r''.
      run_command12 64 2 (Write12 (int 1) ''hi'') (mmap_region 64 2, []) = Inr (r', [] @ [Out_page (int 1) ''hi'']) \<and>
      run_command12 64 2 (Read12 (int 1)) (r', []) = Inr (r'', [] @ [Out_page (int 1) ''hi'']) \<and>
      bytes r'' = bytes r' \<and>
      (\<forall>q. q \<noteq> 1 \<longrightarrow> page_bytes 64 (bytes r'') q = page_bytes 64 (bytes (mmap_region 64 2)) q)"
  by (rule part12_write_read)
     (auto simp: mmap_region_def in_int_def is_cstr_def wf_region_def page_size_ok_def
        less_Suc_eq intro: exI[of _ 6])

text \<open>
  C34. The later version runs the earlier one's commands unchanged on pages it may read: printing
  pages in state M or S, and storing a message without a transition, do to the mapping and the
  output exactly what the earlier version does, with no message to the peer.
\<close>

theorem versions_agree:
  assumes "all_valid request_page n"
  shows "run_command E pr (Cmd_read request_page) (embed n p ro) =
      map_sum id (embed n p) (run_command12 (page_size n) (num_pages n) (Read12 request_page) ro)
    \<and> printPageContents E pr request_page fetch (embed n p ro) =
      map_sum id (embed n p) (printPageContents12 (page_size n) (num_pages n) request_page ro)
    \<and> updatePageContents E pr any_page message False (embed n p (r, outs)) =
      map_sum id (\<lambda>r'. embed n p (r', outs)) (updatePageContents12 (page_size n) any_page (num_pages n) message r)"
proof (intro conjI)
  show "run_command E pr (Cmd_read request_page) (embed n p ro) =
      map_sum id (embed n p) (run_command12 (page_size n) (num_pages n) (Read12 request_page) ro)"
    using print_embed[OF assms, of E pr True p ro] by (simp add: embed_def)
qed (rule print_embed[OF assms], rule update_embed)

theorem versions_agree_witness:
  "run_command \<lparr>dangling = id, garbage = []\<rparr> (\<lambda>_ p. (p, Net_silence)) (Cmd_read 0)
      (embed \<lparr>page_size = 64, num_pages = 1, msi_array = [MSI_s], mem = mmap_region 64 1, log = []\<rparr> ()
        (mmap_region 64 1, [])) =
      map_sum id (embed \<lparr>page_size = 64, num_pages = 1, msi_array = [MSI_s], mem = mmap_region 64 1, log = []\<rparr> ())
        (run_command12 64 1 (Read12 0) (mmap_region 64 1, []))"
  using versions_agree[of 0 "\<lparr>page_size = 64, num_pages = 1, msi_array = [MSI_s], mem = mmap_region 64 1, log = []\<rparr>"
      "\<lparr>dangling = id, garbage = []\<rparr>" "\<lambda>_ p. (p, Net_silence)" "()" "(mmap_region 64 1, [])" True 0 "[]"
      "mmap_region 64 1" "[]"]
  by (simp add: all_valid_def page_seq_def array_read_def)

end
