(* ===== verification/Dsm_Setup12.thy ===== *)
theory Dsm_Setup12
  imports Dsm_Part12 Dsm_Setup
begin

text \<open>
  The whole program of the earlier distributed-memory version (Assignment 3, parts 1 and 2,
  \<open>s2dsm.c\<close>), one process with the results of its system calls as arguments: the arguments, the
  sockets, the two connections, the handshake it shares with the later version, the registration
  of the mapping, and the command loop. Two such processes have mappings of the same length and
  nothing else in common.
\<close>

section \<open>The program\<close>

text \<open>
  What the calls of \<open>main\<close> return, in their order; \<open>typed\<close> is the number \<open>scanf\<close> read, if it read
  one, \<open>mapped\<close> what \<open>mmap\<close> returned, \<open>arrived\<close> what \<open>read\<close> delivered.
\<close>

record os12 =
  local_socket_ok :: bool
  remote_socket_ok :: bool
  setsockopt_ok :: bool
  bind_ok :: bool
  inet_pton_ok :: bool
  listen_ok :: bool
  first_connect_ok :: bool
  accept_ok :: bool
  second_connect_ok :: bool
  typed :: "u64 option"
  mapped :: "nat option"
  arrived :: "char list option"
  uffd_ok12 :: bool
  api_ok12 :: bool
  register_ok12 :: bool
  thread_ok12 :: bool

text \<open>A process that has reached its command loop. \<open>at12\<close> is where \<open>mmap\<close> was asked to put the mapping.\<close>

record started12 =
  ports12 :: "u64 \<times> u64"
  first12 :: bool
  pages12 :: u64
  len12 :: u64
  sent12 :: "string option"
  at12 :: "nat option"
  region12 :: region

text \<open>
  A mapping of \<open>len\<close> bytes covers whole pages. A process that cannot connect dies of the signal
  its \<open>send\<close> raises.
\<close>

definition map_bytes :: "nat \<Rightarrow> u64 \<Rightarrow> region" where
  "map_bytes ps len = mmap_region ps ((unat len + ps - 1) div ps)"

definition pair12 :: "os12 \<Rightarrow> string list \<Rightarrow> bool res" where
  "pair12 os argv =
     rbind (require Exit_failure (length argv = 3)) (\<lambda>_.
     rbind (require Exit_failure (local_socket_ok os)) (\<lambda>_.
     rbind (require Exit_failure (remote_socket_ok os)) (\<lambda>_.
     rbind (require Exit_failure (setsockopt_ok os)) (\<lambda>_.
     rbind (require Exit_failure (bind_ok os)) (\<lambda>_.
     rbind (require Exit_failure (inet_pton_ok os)) (\<lambda>_.
     rbind (require Exit_failure (listen_ok os)) (\<lambda>_.
     rbind (require Exit_failure (accept_ok os)) (\<lambda>_.
     Inr (\<not> first_connect_ok os)))))))))"

definition setup12 :: "nat \<Rightarrow> os12 \<Rightarrow> string list \<Rightarrow> started12 res" where
  "setup12 ps os argv =
     rbind (pair12 os argv) (\<lambda>first_failed.
     rbind
       (if first_failed then
          (let n = (case typed os of None \<Rightarrow> 0 | Some n \<Rightarrow> n) in
           rbind (handshake_send ps n (mapped os)) (\<lambda>(len, msg).
           rbind (require Exit_failure (second_connect_ok os)) (\<lambda>_.
           Inr (n, len, Some msg, None))))
        else
          rbind (handshake_recv ps (arrived os)) (\<lambda>(len, n, hint).
          rbind (require Exit_failure (mapped os \<noteq> None)) (\<lambda>_.
          Inr (n, len, None, hint))))
       (\<lambda>(n, len, msg, hint).
     rbind (require Exit_failure (uffd_ok12 os)) (\<lambda>_.
     rbind (require Exit_failure (api_ok12 os)) (\<lambda>_.
     rbind (require Exit_failure (register_ok12 os)) (\<lambda>_.
     rbind (require Exit_failure (thread_ok12 os)) (\<lambda>_.
     Inr \<lparr>ports12 = (strtoul (argv ! 1), strtoul (argv ! 2)), first12 = first_failed, pages12 = n,
       len12 = len, sent12 = msg, at12 = hint, region12 = map_bytes ps len\<rparr>))))))"

text \<open>The loop does not end; \<open>cmds\<close> are the commands given so far.\<close>

definition main12 :: "nat \<Rightarrow> os12 \<Rightarrow> string list \<Rightarrow> command12 list \<Rightarrow> (started12 \<times> region \<times> out list) res" where
  "main12 ps os argv cmds =
     rbind (setup12 ps os argv) (\<lambda>s.
     rbind (iter_res (run_command12 ps (unat (pages12 s))) cmds (region12 s, [])) (\<lambda>ro.
     Inr (s, ro)))"

section \<open>Set-ups that end well\<close>

definition fine12 :: "os12 \<Rightarrow> bool" where
  "fine12 os \<longleftrightarrow> local_socket_ok os \<and> remote_socket_ok os \<and> setsockopt_ok os \<and> bind_ok os \<and> inet_pton_ok os
     \<and> listen_ok os \<and> accept_ok os \<and> second_connect_ok os \<and> mapped os \<noteq> None
     \<and> uffd_ok12 os \<and> api_ok12 os \<and> register_ok12 os \<and> thread_ok12 os"

lemma pair12_fine: "fine12 os \<Longrightarrow> length argv = 3 \<Longrightarrow> pair12 os argv = Inr (\<not> first_connect_ok os)"
  by (simp add: pair12_def fine12_def)

lemma setup12_first:
  assumes "fine12 os" and "length argv = 3" and "\<not> first_connect_ok os" and "typed os = Some n"
    and "handshake_send ps n (mapped os) = Inr (len, msg)"
  shows "setup12 ps os argv = Inr \<lparr>ports12 = (strtoul (argv ! 1), strtoul (argv ! 2)), first12 = True, pages12 = n,
       len12 = len, sent12 = Some msg, at12 = None, region12 = map_bytes ps len\<rparr>"
  using assms(1,3-5) pair12_fine[OF assms(1,2)] by (simp add: setup12_def fine12_def)

lemma setup12_second:
  assumes "fine12 os" and "length argv = 3" and "first_connect_ok os"
    and "handshake_recv ps (arrived os) = Inr (len, n, hint)"
  shows "setup12 ps os argv = Inr \<lparr>ports12 = (strtoul (argv ! 1), strtoul (argv ! 2)), first12 = False, pages12 = n,
       len12 = len, sent12 = None, at12 = hint, region12 = map_bytes ps len\<rparr>"
  using assms(1,3,4) pair12_fine[OF assms(1,2)] by (simp add: setup12_def fine12_def)

lemma map_bytes_pages:
  assumes "0 < ps" and "unat n * ps < 2 ^ 64"
  shows "map_bytes ps (n * of_nat ps) = mmap_region ps (unat n)"
proof -
  have "n * of_nat ps = (of_nat (unat n * ps) :: u64)" by simp
  then have "unat (n * of_nat ps :: u64) = unat n * ps"
    using assms(2) by (simp only: unsigned_of_nat) (simp add: take_bit_nat_eq_self)
  moreover have "(unat n * ps + ps - 1) div ps = unat n"
  proof -
    have "(unat n * ps + ps - 1) div ps = ((ps - 1) + unat n * ps) div ps"
      using assms(1) by (intro arg_cong[where f = "\<lambda>x. x div ps"]) simp
    also have "\<dots> = unat n + (ps - 1) div ps" using assms(1) by (intro div_mult_self1) simp
    also have "(ps - 1) div ps = 0" using assms(1) by simp
    finally show ?thesis by simp
  qed
  ultimately show ?thesis by (simp add: map_bytes_def)
qed

section \<open>Two processes of the earlier version\<close>

lemma read_new_page12:
  assumes "wf_region ps (mmap_region ps np)" and "p < np" and "in_int (int (p * ps))"
  shows "\<exists>r. run_command12 ps np (Read12 (int p)) (mmap_region ps np, []) = Inr (r, [Out_page (int p) ''''])"
proof -
  let ?r = "mmap_region ps np"
  have "p * ps < np * ps" using assms(1,2) by (auto simp: wf_region_def dest: page_size_pos)
  then have "NUL \<in> set (drop (p * ps) (bytes ?r))" by (simp add: mmap_region_def)
  from read_str_ok[OF assms(1) this] obtain r where "read_str ps (p * ps) ?r = Inr ('''', r)"
    by (auto simp: mmap_region_def cstr_of_def takeWhile_eq_Nil_iff)
  moreover have "page_offset ps (int p) = Inr (p * ps)"
    using assms(3) by (simp add: page_offset_def mul_int_def nat_mult_distrib flip: of_nat_mult)
  ultimately show ?thesis
    by (simp add: printPageContents12_def page_seq_def print_one12_def)
qed

text \<open>
  C35. Two processes of the earlier version, started and paired: the first one sends a message from
  which the second gets the same number of pages, the same length and the first one's address. What
  the first then writes to a page it prints from its own copy, while the second still reads an
  empty page.
\<close>

theorem part12_session:
  assumes "fine12 osA" and "\<not> first_connect_ok osA" and "typed osA = Some n" and "mapped osA = Some addr"
    and "fine12 osB" and "first_connect_ok osB" and "length argvA = 3" and "length argvB = 3"
    and "page_size_ok ps" and "unat n * ps < 2 ^ 31" and "addr < 2 ^ 64"
    and "p < unat n" and "is_cstr msg" and "length msg < ps"
  shows "\<exists>sA rA shake sB rB.
      main12 ps osA argvA [Write12 (int p) msg] = Inr (sA, rA, [Out_page (int p) msg]) \<and>
      first12 sA \<and> sent12 sA = Some shake \<and>
      main12 ps (osB\<lparr>arrived := Some shake\<rparr>) argvB [Read12 (int p)] = Inr (sB, rB, [Out_page (int p) '''']) \<and>
      \<not> first12 sB \<and> pages12 sA = n \<and> pages12 sB = n \<and> len12 sB = len12 sA \<and> at12 sB = Some addr"
proof -
  have ps: "0 < ps" using assms(9) by (rule page_size_pos)
  have small: "unat n * ps < 2 ^ 64" using assms(10) by simp
  obtain shake where send: "handshake_send ps n (Some addr) = Inr (n * of_nat ps, shake)"
    by (simp add: handshake_send_def Let_def)
  then have recv: "handshake_recv ps (Some shake) = Inr (n * of_nat ps, n, Some addr)"
    using handshake_ok[OF assms(11) send] pages_of_len[OF ps small] by simp
  define sA where "sA = \<lparr>ports12 = (strtoul (argvA ! 1), strtoul (argvA ! 2)), first12 = True, pages12 = n,
      len12 = n * of_nat ps, sent12 = Some shake, at12 = None, region12 = mmap_region ps (unat n)\<rparr>"
  define sB where "sB = \<lparr>ports12 = (strtoul (argvB ! 1), strtoul (argvB ! 2)), first12 = False, pages12 = n,
      len12 = n * of_nat ps, sent12 = None, at12 = Some addr, region12 = mmap_region ps (unat n)\<rparr>"
  have a: "setup12 ps osA argvA = Inr sA"
    using setup12_first[OF assms(1,7,2,3)] send assms(4) map_bytes_pages[OF ps small] by (simp add: sA_def)
  have "fine12 (osB\<lparr>arrived := Some shake\<rparr>)" using assms(5) by (simp add: fine12_def)
  then have b: "setup12 ps (osB\<lparr>arrived := Some shake\<rparr>) argvB = Inr sB"
    using setup12_second[OF _ assms(8), of "osB\<lparr>arrived := Some shake\<rparr>"] recv assms(6) map_bytes_pages[OF ps small]
    by (simp add: sB_def)
  have wf: "wf_region ps (mmap_region ps (unat n))" using assms(9) small by (rule wf_mmap_region)
  have "p * ps \<le> unat n * ps" using assms(12) by (intro mult_le_mono1) simp
  then have "p * ps < 2 ^ 31" using assms(10) by (rule le_less_trans)
  then have "int (p * ps) < int (2 ^ 31)" by (subst of_nat_less_iff)
  then have int: "in_int (int (p * ps))"
    using of_nat_0_le_iff[of "p * ps", where 'a = int] by (simp add: in_int_def del: of_nat_mult)
  obtain rA where "run_command12 ps (unat n) (Write12 (int p) msg) (mmap_region ps (unat n), []) = Inr (rA, [Out_page (int p) msg])"
    using part12_write_read[OF wf _ assms(12) int assms(13,14), of "[]"] by (auto simp: mmap_region_def)
  then have mA: "main12 ps osA argvA [Write12 (int p) msg] = Inr (sA, rA, [Out_page (int p) msg])"
    by (simp add: main12_def a sA_def del: run_command12.simps)
  obtain rB where "run_command12 ps (unat n) (Read12 (int p)) (mmap_region ps (unat n), []) = Inr (rB, [Out_page (int p) ''''])"
    using read_new_page12[OF wf assms(12) int] by blast
  then have mB: "main12 ps (osB\<lparr>arrived := Some shake\<rparr>) argvB [Read12 (int p)] = Inr (sB, rB, [Out_page (int p) ''''])"
    by (simp add: main12_def b sB_def del: run_command12.simps)
  show ?thesis
    by (rule exI[of _ sA], rule exI[of _ rA], rule exI[of _ shake], rule exI[of _ sB], rule exI[of _ rB])
      (simp add: mA mB, simp add: sA_def sB_def)
qed

definition os12_fine :: "bool \<Rightarrow> os12" where
  "os12_fine connects = \<lparr>local_socket_ok = True, remote_socket_ok = True, setsockopt_ok = True, bind_ok = True,
     inet_pton_ok = True, listen_ok = True, first_connect_ok = connects, accept_ok = True, second_connect_ok = True,
     typed = Some 2, mapped = Some 4096, arrived = None, uffd_ok12 = True, api_ok12 = True, register_ok12 = True,
     thread_ok12 = True\<rparr>"

theorem part12_session_witness:
  "\<exists>sA rA shake sB rB.
      main12 64 (os12_fine False) [''s2dsm'', ''8001'', ''8002''] [Write12 (int 1) ''hi''] = Inr (sA, rA, [Out_page (int 1) ''hi'']) \<and>
      first12 sA \<and> sent12 sA = Some shake \<and>
      main12 64 (os12_fine True\<lparr>arrived := Some shake\<rparr>) [''s2dsm'', ''8002'', ''8001''] [Read12 (int 1)] = Inr (sB, rB, [Out_page (int 1) '''']) \<and>
      \<not> first12 sB \<and> pages12 sA = 2 \<and> pages12 sB = 2 \<and> len12 sB = len12 sA \<and> at12 sB = Some 4096"
  by (rule part12_session[where n = 2])
     (simp_all add: os12_fine_def fine12_def page_size_ok_def exI[of _ 6])

end
