(* ===== verification/Uffd_Demo.thy ===== *)
theory Uffd_Demo
  imports Dsm_Memory CScan
begin

text \<open>
  The userfaultfd demonstration (Assignment 3, \<open>uffd.c\<close>): a mapping whose missing pages are filled
  with the letters A to T in turn, read and written in steps of 1024 bytes in eight stages, with
  the pages dropped before stages 3 and 5.
\<close>

section \<open>The fault handler\<close>

text \<open>\<open>'A' + fault_cnt % 20\<close>; \<open>fault_cnt\<close> is the region's count of faults.\<close>

definition letter :: "nat \<Rightarrow> char" where
  "letter fault_cnt = char_of (65 + fault_cnt mod 20)"

fun demo_handler :: "nat \<Rightarrow> bool \<Rightarrow> uffd_event \<Rightarrow> region \<Rightarrow> region res" where
  "demo_handler ps copy_ok (Pagefault a) r =
     (let dst = uffd_dst ps a in
      if copy_ok
      then Inr (r\<lparr>bytes := take dst (bytes r) @ replicate ps (letter (faults r)) @ drop (dst + ps) (bytes r),
                  present := (present r)[dst div ps := True],
                  faults := Suc (faults r)\<rparr>)
      else Inl Exit_failure)"
| "demo_handler ps copy_ok _ r = Inl Exit_failure"

definition demo_touch :: "nat \<Rightarrow> nat \<Rightarrow> region \<Rightarrow> region res" where
  "demo_touch ps l r = (if present r ! (l div ps) then Inr r else demo_handler ps True (Pagefault l) r)"

definition demo_load :: "nat \<Rightarrow> nat \<Rightarrow> region \<Rightarrow> (char \<times> region) res" where
  "demo_load ps l r =
     (if l < length (bytes r) then rbind (demo_touch ps l r) (\<lambda>r'. Inr (bytes r' ! l, r')) else Inl OutOfBounds)"

definition demo_store :: "nat \<Rightarrow> nat \<Rightarrow> char \<Rightarrow> region \<Rightarrow> region res" where
  "demo_store ps l c r =
     (if l < length (bytes r) then rbind (demo_touch ps l r) (\<lambda>r'. Inr (r'\<lparr>bytes := (bytes r')[l := c]\<rparr>))
      else Inl OutOfBounds)"

fun demo_memset :: "nat \<Rightarrow> nat \<Rightarrow> char \<Rightarrow> nat \<Rightarrow> region \<Rightarrow> region res" where
  "demo_memset ps l c 0 r = Inr r"
| "demo_memset ps l c (Suc n) r = rbind (demo_store ps l c r) (demo_memset ps (Suc l) c n)"

section \<open>The stages of main\<close>

text \<open>\<open>l += 1024\<close> on an \<open>int\<close>.\<close>

definition next_l :: "int \<Rightarrow> int res" where
  "next_l l = (if in_int (l + 1024) then Inr (l + 1024) else Inl SignedOverflow)"

type_synonym demo_line = "nat \<times> int \<times> char"

function read_loop :: "nat \<Rightarrow> nat \<Rightarrow> nat \<Rightarrow> int \<Rightarrow> region \<times> demo_line list \<Rightarrow> (region \<times> demo_line list) res" where
  "read_loop ps stage len l (r, outs) =
     (if l < int len then
        rbind (demo_load ps (nat l) r) (\<lambda>(c, r').
        rbind (next_l l) (\<lambda>l'. read_loop ps stage len l' (r', outs @ [(stage, l, c)])))
      else Inr (r, outs))"
  by pat_completeness auto
termination
  by (relation "measure (\<lambda>(ps, stage, len, l, ro). nat (int len - l))") (auto simp: next_l_def split: if_splits)

function write_loop :: "nat \<Rightarrow> nat \<Rightarrow> char \<Rightarrow> nat \<Rightarrow> int \<Rightarrow> region \<times> demo_line list \<Rightarrow> (region \<times> demo_line list) res" where
  "write_loop ps stage ch len l (r, outs) =
     (if l < int len then
        rbind (demo_memset ps (nat l) ch 1024 r) (\<lambda>r1.
        rbind (demo_load ps (nat l) r1) (\<lambda>(c, r').
        rbind (next_l l) (\<lambda>l'. write_loop ps stage ch len l' (r', outs @ [(stage, l, c)]))))
      else Inr (r, outs))"
  by pat_completeness auto
termination
  by (relation "measure (\<lambda>(ps, stage, ch, len, l, ro). nat (int len - l))") (auto simp: next_l_def split: if_splits)

declare read_loop.simps [simp del] write_loop.simps [simp del]

text \<open>\<open>madvise(addr, len, MADV_DONTNEED)\<close> on the whole mapping, when the call succeeds.\<close>

definition drop_all :: "region \<Rightarrow> region" where
  "drop_all r = r\<lparr>bytes := replicate (length (bytes r)) NUL, present := replicate (length (present r)) False\<rparr>"

definition demo_madvise :: "bool \<Rightarrow> region \<Rightarrow> region res" where
  "demo_madvise ok r = (if ok then Inr (drop_all r) else Inl Exit_failure)"

text \<open>What the system calls of one run answer; the page size is \<open>sysconf\<close>'s.\<close>

record demo_os =
  pagesize :: nat
  uffd_opens :: bool
  api_ok :: bool
  mmap_ok :: bool
  register_ok :: bool
  thread_ok :: bool
  buffer_ok :: bool
  madvise1_ok :: bool
  madvise2_ok :: bool

text \<open>
  The set-up: \<open>len\<close> is the argument times the page size on an \<open>unsigned long\<close>; a mapping of no
  bytes fails; the handler thread maps its buffer when it starts. Each failure exits.
\<close>

definition demo_setup :: "demo_os \<Rightarrow> string list \<Rightarrow> (u64 \<times> region) res" where
  "demo_setup os argv =
     rbind (require Exit_failure (length argv = 2)) (\<lambda>_.
     let len = strtoul (argv ! 1) * of_nat (pagesize os) in
     rbind (require Exit_failure (uffd_opens os)) (\<lambda>_.
     rbind (require Exit_failure (api_ok os)) (\<lambda>_.
     rbind (require Exit_failure (mmap_ok os \<and> len \<noteq> 0)) (\<lambda>_.
     rbind (require Exit_failure (register_ok os)) (\<lambda>_.
     rbind (require Exit_failure (thread_ok os)) (\<lambda>_.
     rbind (require Exit_failure (buffer_ok os)) (\<lambda>_.
     Inr (len, mmap_region (pagesize os) (unat len div pagesize os)))))))))"

definition demo_main :: "demo_os \<Rightarrow> string list \<Rightarrow> (region \<times> demo_line list) res" where
  "demo_main os argv =
     rbind (demo_setup os argv) (\<lambda>(ulen, r).
     let ps = pagesize os; len = unat ulen in
     rbind (read_loop ps 1 len 0 (r, [])) (\<lambda>s.
     rbind (read_loop ps 2 len 0 s) (\<lambda>(r, outs).
     rbind (demo_madvise (madvise1_ok os) r) (\<lambda>r.
     rbind (read_loop ps 3 len 0 (r, outs)) (\<lambda>s.
     rbind (read_loop ps 4 len 0 s) (\<lambda>(r, outs).
     rbind (demo_madvise (madvise2_ok os) r) (\<lambda>r.
     rbind (write_loop ps 5 CHR ''@'' len 0 (r, outs)) (\<lambda>s.
     rbind (read_loop ps 6 len 0 s) (\<lambda>s.
     rbind (write_loop ps 7 CHR ''^'' len 0 s) (\<lambda>s.
     read_loop ps 8 len 0 s))))))))))"

definition all_ok :: "nat \<Rightarrow> demo_os" where
  "all_ok ps = \<lparr>pagesize = ps, uffd_opens = True, api_ok = True, mmap_ok = True, register_ok = True,
     thread_ok = True, buffer_ok = True, madvise1_ok = True, madvise2_ok = True\<rparr>"

section \<open>The loops as folds over chunks\<close>

definition read_chunk :: "nat \<Rightarrow> nat \<Rightarrow> nat \<Rightarrow> region \<times> demo_line list \<Rightarrow> (region \<times> demo_line list) res" where
  "read_chunk ps stage i = (\<lambda>(r, outs).
     rbind (demo_load ps (1024 * i) r) (\<lambda>(c, r'). Inr (r', outs @ [(stage, int (1024 * i), c)])))"

definition write_chunk :: "nat \<Rightarrow> nat \<Rightarrow> char \<Rightarrow> nat \<Rightarrow> region \<times> demo_line list \<Rightarrow> (region \<times> demo_line list) res" where
  "write_chunk ps stage ch i = (\<lambda>(r, outs).
     rbind (demo_memset ps (1024 * i) ch 1024 r) (\<lambda>r1.
     rbind (demo_load ps (1024 * i) r1) (\<lambda>(c, r'). Inr (r', outs @ [(stage, int (1024 * i), c)]))))"

lemma next_l_ok: "1024 * i + 1024 < 2 ^ 31 \<Longrightarrow> next_l (int (1024 * i)) = Inr (int (1024 * Suc i))"
  by (simp add: next_l_def in_int_def)

lemma read_loop_step:
  "l < len \<Longrightarrow> next_l (int l) = Inr l' \<Longrightarrow>
    read_loop ps stage len (int l) (r, outs) =
      rbind (demo_load ps l r) (\<lambda>(c, r'). read_loop ps stage len l' (r', outs @ [(stage, int l, c)]))"
  by (subst read_loop.simps) simp

lemma write_loop_step:
  "l < len \<Longrightarrow> next_l (int l) = Inr l' \<Longrightarrow>
    write_loop ps stage ch len (int l) (r, outs) =
      rbind (demo_memset ps l ch 1024 r) (\<lambda>r1.
      rbind (demo_load ps l r1) (\<lambda>(c, r'). write_loop ps stage ch len l' (r', outs @ [(stage, int l, c)])))"
  by (subst write_loop.simps) simp

lemma read_loop_chunks:
  "len = 1024 * m \<Longrightarrow> len < 2 ^ 31 \<Longrightarrow> i \<le> m \<Longrightarrow>
    read_loop ps stage len (int (1024 * i)) s = iter_res (read_chunk ps stage) [i..<m] s"
proof (induction "m - i" arbitrary: i s)
  case 0
  then show ?case by (cases s) (simp add: read_loop.simps)
next
  case (Suc d)
  then have i: "i < m" by simp
  obtain r outs where s: "s = (r, outs)" by (cases s)
  have nl: "next_l (int (1024 * i)) = Inr (int (1024 * Suc i))"
    by (rule next_l_ok) (use Suc.prems(1,2) i in linarith)
  have up: "[i..<m] = i # [Suc i..<m]" using i by (simp add: upt_conv_Cons)
  have ih: "read_loop ps stage len (int (1024 * Suc i)) t = iter_res (read_chunk ps stage) [Suc i..<m] t" for t
    using Suc.hyps(1)[of "Suc i" t] Suc.hyps(2) Suc.prems i by simp
  have lt: "1024 * i < len" using Suc.prems(1) i by simp
  show ?case
    unfolding s up read_loop_step[OF lt nl] ih
    by (cases "demo_load ps (1024 * i) r") (auto simp: read_chunk_def)
qed

lemma write_loop_chunks:
  "len = 1024 * m \<Longrightarrow> len < 2 ^ 31 \<Longrightarrow> i \<le> m \<Longrightarrow>
    write_loop ps stage ch len (int (1024 * i)) s = iter_res (write_chunk ps stage ch) [i..<m] s"
proof (induction "m - i" arbitrary: i s)
  case 0
  then show ?case by (cases s) (simp add: write_loop.simps)
next
  case (Suc d)
  then have i: "i < m" by simp
  obtain r outs where s: "s = (r, outs)" by (cases s)
  have nl: "next_l (int (1024 * i)) = Inr (int (1024 * Suc i))"
    by (rule next_l_ok) (use Suc.prems(1,2) i in linarith)
  have up: "[i..<m] = i # [Suc i..<m]" using i by (simp add: upt_conv_Cons)
  have ih: "write_loop ps stage ch len (int (1024 * Suc i)) t = iter_res (write_chunk ps stage ch) [Suc i..<m] t" for t
    using Suc.hyps(1)[of "Suc i" t] Suc.hyps(2) Suc.prems i by simp
  have lt: "1024 * i < len" using Suc.prems(1) i by simp
  have chunk: "write_chunk ps stage ch i (r, outs) =
      rbind (demo_memset ps (1024 * i) ch 1024 r) (\<lambda>r1.
      rbind (demo_load ps (1024 * i) r1) (\<lambda>(c, r'). Inr (r', outs @ [(stage, int (1024 * i), c)])))"
    by (simp add: write_chunk_def)
  show ?case
    unfolding s up write_loop_step[OF lt nl] ih iter_res.simps chunk rbind_assoc
    by (intro arg_cong[where f = "rbind _"] ext) (simp add: case_prod_beta)
qed

section \<open>What one access does\<close>

text \<open>A mapping of \<open>n\<close> pages that \<open>int\<close> offsets can address.\<close>

definition demo_wf :: "nat \<Rightarrow> nat \<Rightarrow> region \<Rightarrow> bool" where
  "demo_wf ps n r \<longleftrightarrow>
     page_size_ok ps \<and> n * ps < 2 ^ 31 \<and> length (bytes r) = n * ps \<and> length (present r) = n"

lemma demo_touch_present: "present r ! (l div ps) \<Longrightarrow> demo_touch ps l r = Inr r"
  by (simp add: demo_touch_def)

lemma demo_touch_missing:
  assumes wf: "demo_wf ps n r" and l: "l < n * ps" and miss: "\<not> present r ! (l div ps)"
  obtains r' where "demo_touch ps l r = Inr r'" "demo_wf ps n r'"
    "present r' = (present r)[l div ps := True]" "faults r' = Suc (faults r)"
    "\<And>j. j < n * ps \<Longrightarrow> bytes r' ! j = (if j div ps = l div ps then letter (faults r) else bytes r ! j)"
proof -
  have ps: "page_size_ok ps" "0 < ps" using wf by (auto simp: demo_wf_def page_size_pos)
  have pn: "l div ps < n" using l by (simp add: div_less_iff_less_mult ps)
  then have "Suc (l div ps) * ps \<le> n * ps" by (intro mult_le_mono1) simp
  then have le: "l div ps * ps + ps \<le> length (bytes r)" using wf by (simp add: demo_wf_def)
  have dst: "uffd_dst ps l = l div ps * ps"
    by (rule uffd_dst_eq[OF ps(1)]) (use l wf in \<open>simp add: demo_wf_def\<close>)
  let ?d = "l div ps * ps"
  let ?b = "take ?d (bytes r) @ replicate ps (letter (faults r)) @ drop (?d + ps) (bytes r)"
  let ?r = "r\<lparr>bytes := ?b, present := (present r)[l div ps := True], faults := Suc (faults r)\<rparr>"
  have run: "demo_touch ps l r = Inr ?r" using miss ps by (simp add: demo_touch_def dst Let_def)
  have wf': "demo_wf ps n ?r" using wf le by (simp add: demo_wf_def)
  have "?b ! j = (if j div ps = l div ps then letter (faults r) else bytes r ! j)" if "j < n * ps" for j
  proof -
    have "?b ! j = (if ?d \<le> j \<and> j < ?d + ps then letter (faults r) else bytes r ! j)"
      using le that wf pn by (auto simp: nth_append min_def demo_wf_def)
    then show ?thesis using div_eq_page_iff[OF ps(2), of j "l div ps"] by simp
  qed
  with that[of ?r] run wf' show ?thesis by simp
qed

lemma demo_touch_twice:
  assumes "demo_wf ps n r" and "l < n * ps" and "demo_touch ps l r = Inr r'"
  shows "demo_touch ps l r' = Inr r'"
proof (cases "present r ! (l div ps)")
  case False
  obtain r1 where r1: "demo_touch ps l r = Inr r1" "present r1 = (present r)[l div ps := True]"
    using demo_touch_missing[OF assms(1,2) False] by metis
  have "l div ps < length (present r)"
    using assms(1,2) by (simp add: demo_wf_def div_less_iff_less_mult page_size_pos)
  with r1 assms(3) show ?thesis by (simp add: demo_touch_def)
qed (use assms in \<open>auto simp: demo_touch_def\<close>)

text \<open>A first store fills a missing page; the rest of the \<open>memset\<close> finds it there.\<close>

lemma demo_memset_touch:
  assumes "demo_wf ps n r" and "l < n * ps" and "demo_touch ps l r = Inr r'" and "demo_wf ps n r'"
  shows "demo_memset ps l c (Suc k) r = demo_memset ps l c (Suc k) r'"
  using assms demo_touch_twice[OF assms(1-3)] by (simp add: demo_store_def demo_wf_def)

lemma demo_memset_present:
  assumes "demo_wf ps n r" and "l + k \<le> n * ps" and "\<And>j. l \<le> j \<Longrightarrow> j < l + k \<Longrightarrow> present r ! (j div ps)"
  shows "\<exists>b. demo_memset ps l c k r = Inr (r\<lparr>bytes := b\<rparr>) \<and> length b = n * ps \<and>
           (\<forall>j < n * ps. b ! j = (if l \<le> j \<and> j < l + k then c else bytes r ! j))"
  using assms
proof (induction k arbitrary: l r)
  case 0
  then show ?case by (intro exI[of _ "bytes r"]) (auto simp: demo_wf_def)
next
  case (Suc k)
  let ?r = "r\<lparr>bytes := (bytes r)[l := c]\<rparr>"
  have len: "length (bytes r) = n * ps" using Suc.prems(1) by (simp add: demo_wf_def)
  have first: "demo_store ps l c r = Inr ?r"
    using Suc.prems by (simp add: demo_store_def demo_touch_present len)
  have "demo_wf ps n ?r" using Suc.prems(1) by (simp add: demo_wf_def)
  from Suc.IH[OF this, of "Suc l"] Suc.prems(2,3) obtain b where b:
    "demo_memset ps (Suc l) c k ?r = Inr (r\<lparr>bytes := b\<rparr>)" "length b = n * ps"
    "\<forall>j < n * ps. b ! j = (if Suc l \<le> j \<and> j < Suc l + k then c else (bytes r)[l := c] ! j)"
    by auto
  have "b ! j = (if l \<le> j \<and> j < l + Suc k then c else bytes r ! j)" if "j < n * ps" for j
    using b(3) that len by (auto simp: nth_list_update)
  with first b(1,2) show ?case by (intro exI[of _ b]) simp
qed

section \<open>The stages\<close>

text \<open>
  The state of a stage after \<open>i\<close> chunks, \<open>K\<close> to a page: on a dropped mapping (\<open>full\<close> false) the
  pages touched so far are there and one fault was taken for each; on a full one nothing faults.
\<close>

definition stage_state :: "nat \<Rightarrow> nat \<Rightarrow> nat \<Rightarrow> bool \<Rightarrow> nat \<Rightarrow> nat \<Rightarrow> region \<Rightarrow> bool" where
  "stage_state ps n K full base i r \<longleftrightarrow>
     demo_wf ps n r \<and> ps = 1024 * K \<and>
     (\<forall>p < n. present r ! p \<longleftrightarrow> full \<or> p * K < i) \<and>
     faults r = base + (if full then 0 else (i + K - 1) div K)"

definition holds :: "nat \<Rightarrow> nat \<Rightarrow> (nat \<Rightarrow> char) \<Rightarrow> region \<Rightarrow> bool" where
  "holds ps n v r \<longleftrightarrow> (\<forall>l < n * ps. present r ! (l div ps) \<longrightarrow> bytes r ! l = v l)"

lemma chunk_page: "0 < K \<Longrightarrow> 1024 * i div (1024 * K) = i div (K :: nat)"
  by simp

lemma ceil_div:
  fixes i K :: nat
  assumes K: "0 < K"
  shows "i mod K = 0 \<Longrightarrow> (i + K - 1) div K = i div K"
    and "i mod K = 0 \<Longrightarrow> (Suc i + K - 1) div K = Suc (i div K)"
    and "i mod K \<noteq> 0 \<Longrightarrow> (Suc i + K - 1) div K = (i + K - 1) div K"
proof -
  obtain q s where i: "i = q * K + s" "s < K" using mod_div_decomp[of i K] K by (metis mod_less_divisor)
  then have q: "i div K = q" "i mod K = s" using K by simp_all
  have a: "(q * K + t) div K = q" if "t < K" for t using that by simp
  have b: "(Suc q * K + t) div K = Suc q" if "t < K" for t using that K by (simp del: mult_Suc)
  show "i mod K = 0 \<Longrightarrow> (i + K - 1) div K = i div K"
    using a[of "K - 1"] i q K by simp
  show "i mod K = 0 \<Longrightarrow> (Suc i + K - 1) div K = Suc (i div K)"
    using i q K by simp
  assume "i mod K \<noteq> 0"
  then have s: "0 < s" using q by simp
  then have 1: "Suc i + K - 1 = Suc q * K + s" "i + K - 1 = Suc q * K + (s - 1)" using i K by simp_all
  show "(Suc i + K - 1) div K = (i + K - 1) div K"
    unfolding 1 using i(2) s b[of s] b[of "s - 1"] by simp
qed

text \<open>The access at the start of chunk \<open>i\<close> faults exactly when the chunk is a page's first.\<close>

lemma chunk_touch:
  assumes st: "stage_state ps n K full base i r" and i: "1024 * i < n * ps"
  obtains r' where "demo_touch ps (1024 * i) r = Inr r'" "stage_state ps n K full base (Suc i) r'"
    "\<And>j. j < n * ps \<Longrightarrow> bytes r' ! j =
       (if \<not> full \<and> i mod K = 0 \<and> j div ps = i div K then letter (base + i div K) else bytes r ! j)"
proof -
  have wf: "demo_wf ps n r" and ps: "ps = 1024 * K"
    and pres: "\<And>p. p < n \<Longrightarrow> present r ! p \<longleftrightarrow> full \<or> p * K < i"
    and flt: "faults r = base + (if full then 0 else (i + K - 1) div K)"
    using st by (auto simp: stage_state_def)
  have "0 < ps" using wf by (auto simp: demo_wf_def page_size_pos)
  then have K: "0 < K" using ps by simp
  have pg: "1024 * i div ps = i div K" using chunk_page[OF K] ps by simp
  have pn: "i div K < n" using i ps K by (simp add: div_less_iff_less_mult)
  have split: "i div K * K + i mod K = i" by simp
  have nxt: "p * K < Suc i \<longleftrightarrow> p * K < i \<or> (i mod K = 0 \<and> p = i div K)" for p
  proof -
    have "p * K = i \<longleftrightarrow> i mod K = 0 \<and> p = i div K" using K split by auto
    then show ?thesis by (simp add: less_Suc_eq)
  qed
  show thesis
  proof (cases "full \<or> i mod K \<noteq> 0")
    case True
    have "i div K * K < i" if "i mod K \<noteq> 0" using split that by linarith
    then have "present r ! (i div K)" using pres[OF pn] True by blast
    then have run: "demo_touch ps (1024 * i) r = Inr r" by (simp add: demo_touch_def pg)
    have "stage_state ps n K full base (Suc i) r"
      using True wf ps pres flt nxt ceil_div(3)[OF K, of i] by (auto simp: stage_state_def)
    then show thesis using that[OF run] True by auto
  next
    case False
    then have f: "\<not> full" and z: "i mod K = 0" by auto
    have miss: "\<not> present r ! (1024 * i div ps)" using pres[OF pn] f z split pg by simp
    have cnt: "faults r = base + i div K" using flt f ceil_div(1)[OF K z] by simp
    obtain r' where r': "demo_touch ps (1024 * i) r = Inr r'" "demo_wf ps n r'"
      "present r' = (present r)[i div K := True]" "faults r' = Suc (base + i div K)"
      "\<And>j. j < n * ps \<Longrightarrow> bytes r' ! j = (if j div ps = i div K then letter (base + i div K) else bytes r ! j)"
      using demo_touch_missing[OF wf i miss] unfolding pg cnt by metis
    have len: "length (present r) = n" using wf by (simp add: demo_wf_def)
    have "stage_state ps n K full base (Suc i) r'"
      using r'(2-4) ps pres f z nxt ceil_div(2)[OF K z] len
      by (auto simp: stage_state_def nth_list_update)
    then show thesis using that[OF r'(1)] r'(5) f z by simp
  qed
qed

text \<open>What a stage's \<open>printf\<close> lines are, given the byte read at each chunk.\<close>

definition lines_of :: "nat \<Rightarrow> nat \<Rightarrow> (nat \<Rightarrow> char) \<Rightarrow> demo_line list" where
  "lines_of stage m v = map (\<lambda>i. (stage, int (1024 * i), v (1024 * i))) [0..<m]"

lemma stage_pages: "stage_state ps n K full base i r \<Longrightarrow> 0 < K \<and> ps = 1024 * K \<and> demo_wf ps n r"
  by (auto simp: stage_state_def demo_wf_def dest: page_size_pos)

text \<open>The letters of a page by page: the \<open>p\<close>-th fault of the stage fills page \<open>p\<close>.\<close>

lemma read_stage:
  assumes st: "stage_state ps n K full base 0 r" and m: "m \<le> n * K"
    and v: "holds ps n v r" and new: "\<not> full \<Longrightarrow> v = (\<lambda>l. letter (base + l div ps))"
  shows "\<exists>r'. iter_res (read_chunk ps stage) [0..<m] (r, outs) = Inr (r', outs @ lines_of stage m v) \<and>
           stage_state ps n K full base m r' \<and> holds ps n v r'"
  using m
proof (induction m)
  case 0
  then show ?case using st v by (simp add: lines_of_def)
next
  case (Suc i)
  then obtain r1 where r1: "iter_res (read_chunk ps stage) [0..<i] (r, outs) = Inr (r1, outs @ lines_of stage i v)"
    "stage_state ps n K full base i r1" "holds ps n v r1" by auto
  have ps: "0 < K" "ps = 1024 * K" "demo_wf ps n r1" using stage_pages[OF r1(2)] by auto
  have "1024 * Suc i \<le> 1024 * (n * K)" by (rule mult_le_mono2) (rule Suc.prems)
  then have l: "1024 * i < n * ps" using ps(2) by simp
  obtain r2 where r2: "demo_touch ps (1024 * i) r1 = Inr r2" "stage_state ps n K full base (Suc i) r2"
    "\<And>j. j < n * ps \<Longrightarrow> bytes r2 ! j =
       (if \<not> full \<and> i mod K = 0 \<and> j div ps = i div K then letter (base + i div K) else bytes r1 ! j)"
    using chunk_touch[OF r1(2) l] by blast
  have h2: "holds ps n v r2"
    unfolding holds_def
  proof (intro allI impI)
    fix j assume j: "j < n * ps" "present r2 ! (j div ps)"
    have pn: "j div ps < n" using j(1) ps by (simp add: div_less_iff_less_mult)
    show "bytes r2 ! j = v j"
    proof (cases "\<not> full \<and> i mod K = 0 \<and> j div ps = i div K")
      case True
      then show ?thesis using r2(3)[OF j(1)] new by simp
    next
      case False
      have "present r1 ! (j div ps)"
      proof (cases full)
        case True
        then show ?thesis using r1(2) pn by (simp add: stage_state_def)
      next
        case nf: False
        then have le: "j div ps * K < Suc i" using r2(2) pn j(2) by (simp add: stage_state_def)
        have "j div ps * K \<noteq> i" using False nf ps(1) by auto
        then show ?thesis using le r1(2) pn by (simp add: stage_state_def)
      qed
      then show ?thesis using r2(3)[OF j(1)] False r1(3) j(1) by (auto simp: holds_def)
    qed
  qed
  have here: "present r2 ! (1024 * i div ps)"
  proof -
    have pn: "1024 * i div ps < n" using l ps by (simp add: div_less_iff_less_mult)
    have "1024 * i div ps * K < Suc i" using chunk_page[OF ps(1), of i] ps(2) by (simp add: less_Suc_eq_le)
    then show ?thesis using r2(2) pn by (simp add: stage_state_def)
  qed
  have len: "length (bytes r1) = n * ps" using ps(3) by (simp add: demo_wf_def)
  have "read_chunk ps stage i (r1, outs @ lines_of stage i v) = Inr (r2, outs @ lines_of stage (Suc i) v)"
    using l len here h2 r2(1) by (simp add: read_chunk_def demo_load_def holds_def lines_of_def)
  then show ?case using r1(1) r2(2) h2 by (simp add: iter_res_append)
qed

lemma write_stage:
  assumes st: "stage_state ps n K full base 0 r" and m: "m \<le> n * K"
  shows "\<exists>r'. iter_res (write_chunk ps stage ch) [0..<m] (r, outs) = Inr (r', outs @ lines_of stage m (\<lambda>_. ch)) \<and>
           stage_state ps n K full base m r' \<and> (\<forall>j < 1024 * m. bytes r' ! j = ch)"
  using m
proof (induction m)
  case 0
  then show ?case using st by (simp add: lines_of_def)
next
  case (Suc i)
  then obtain r1 where r1: "iter_res (write_chunk ps stage ch) [0..<i] (r, outs) =
      Inr (r1, outs @ lines_of stage i (\<lambda>_. ch))"
    "stage_state ps n K full base i r1" "\<forall>j < 1024 * i. bytes r1 ! j = ch" by auto
  have ps: "0 < K" "ps = 1024 * K" "demo_wf ps n r1" using stage_pages[OF r1(2)] by auto
  have "1024 * Suc i \<le> 1024 * (n * K)" by (rule mult_le_mono2) (rule Suc.prems)
  then have le: "1024 * i + 1024 \<le> n * ps" using ps(2) by simp
  then have l: "1024 * i < n * ps" by simp
  obtain r2 where r2: "demo_touch ps (1024 * i) r1 = Inr r2" "stage_state ps n K full base (Suc i) r2"
    "\<And>j. j < n * ps \<Longrightarrow> bytes r2 ! j =
       (if \<not> full \<and> i mod K = 0 \<and> j div ps = i div K then letter (base + i div K) else bytes r1 ! j)"
    using chunk_touch[OF r1(2) l] by blast
  have wf2: "demo_wf ps n r2" using stage_pages[OF r2(2)] by blast
  have pg: "j div ps = i div K" if "1024 * i \<le> j" "j < 1024 * i + 1024" for j
  proof -
    have "j div 1024 = i" using that by (intro div_nat_eqI) auto
    then show ?thesis using ps(2) by (simp add: div_mult2_eq)
  qed
  have pn: "i div K < n" using l ps by (simp add: div_less_iff_less_mult)
  have "i div K * K < Suc i" by (simp add: less_Suc_eq_le)
  then have here: "present r2 ! (i div K)" using r2(2) pn by (simp add: stage_state_def)
  obtain b where b: "demo_memset ps (1024 * i) ch 1024 r2 = Inr (r2\<lparr>bytes := b\<rparr>)" "length b = n * ps"
    "\<forall>j < n * ps. b ! j = (if 1024 * i \<le> j \<and> j < 1024 * i + 1024 then ch else bytes r2 ! j)"
    using demo_memset_present[OF wf2 le, of ch] pg here by auto
  have "demo_memset ps (1024 * i) ch (Suc 1023) r1 = demo_memset ps (1024 * i) ch (Suc 1023) r2"
    by (rule demo_memset_touch[OF ps(3) l r2(1) wf2])
  then have set: "demo_memset ps (1024 * i) ch 1024 r1 = Inr (r2\<lparr>bytes := b\<rparr>)" using b(1) by simp
  have p1: "1024 * i div ps = i div K" by (rule pg) simp_all
  have at: "b ! (1024 * i) = ch" using b(3) l by simp
  have chunk: "write_chunk ps stage ch i (r1, outs @ lines_of stage i (\<lambda>_. ch)) =
      Inr (r2\<lparr>bytes := b\<rparr>, outs @ lines_of stage (Suc i) (\<lambda>_. ch))"
    using l b(2) here p1 at
    by (simp add: write_chunk_def set demo_load_def demo_touch_def lines_of_def)
  have st': "stage_state ps n K full base (Suc i) (r2\<lparr>bytes := b\<rparr>)"
    using r2(2) b(2) unfolding stage_state_def demo_wf_def by auto
  have "b ! j = ch" if j: "j < 1024 * Suc i" for j
  proof (cases "1024 * i \<le> j")
    case True
    then show ?thesis using b(3) j le by simp
  next
    case False
    then have jn: "j < n * ps" using l by simp
    show ?thesis
    proof (cases "\<not> full \<and> i mod K = 0 \<and> j div ps = i div K")
      case True
      then have "i div K * ps = 1024 * i" using ps(2) by auto
      moreover have "j div ps * ps \<le> j" by simp
      ultimately show ?thesis using True False by simp
    next
      case nt: False
      then have "bytes r2 ! j = bytes r1 ! j" unfolding r2(3)[OF jn] by (rule if_not_P)
      then show ?thesis using b(3) jn False r1(3) by simp
    qed
  qed
  then show ?case using r1(1) chunk st' by (simp add: iter_res_append)
qed

text \<open>Between stages: a finished mapping is full; a dropped one starts again; so does a fresh one.\<close>

lemma stage_done:
  assumes "stage_state ps n K full base (n * K) r"
  shows "stage_state ps n K True (base + (if full then 0 else n)) 0 r"
proof -
  have K: "0 < K" using stage_pages[OF assms] by blast
  have "(n * K + K - 1) div K = (K - 1 + n * K) div K" using K by (simp add: algebra_simps)
  also have "\<dots> = n" using K by (simp only: div_mult_self1) simp
  finally show ?thesis using assms K by (auto simp: stage_state_def)
qed

lemma drop_all_stage:
  assumes "stage_state ps n K True base 0 r"
  shows "stage_state ps n K False base 0 (drop_all r)" and "holds ps n v (drop_all r)"
proof -
  have "page_size_ok ps" using stage_pages[OF assms] unfolding demo_wf_def by blast
  then have "0 < ps" by (rule page_size_pos)
  then show "holds ps n v (drop_all r)" "stage_state ps n K False base 0 (drop_all r)"
    using assms by (auto simp: stage_state_def holds_def drop_all_def demo_wf_def div_less_iff_less_mult)
qed

lemma fresh_stage:
  assumes "page_size_ok ps" and "ps = 1024 * K" and "n * ps < 2 ^ 31"
  shows "stage_state ps n K False 0 0 (mmap_region ps n)" and "holds ps n v (mmap_region ps n)"
  using assms page_size_pos[OF assms(1)]
  by (auto simp: stage_state_def holds_def demo_wf_def mmap_region_def div_less_iff_less_mult)

lemma read_stage_loop:
  assumes st: "stage_state ps n K full base 0 r" and v: "holds ps n v r"
    and new: "\<not> full \<Longrightarrow> v = (\<lambda>l. letter (base + l div ps))"
  obtains r' where "read_loop ps stage (n * ps) 0 (r, outs) = Inr (r', outs @ lines_of stage (n * K) v)"
    "stage_state ps n K True (base + (if full then 0 else n)) 0 r'" "holds ps n v r'"
proof -
  have len: "n * ps = 1024 * (n * K)" "n * ps < 2 ^ 31"
    using stage_pages[OF st] by (auto simp: demo_wf_def)
  have "read_loop ps stage (n * ps) 0 (r, outs) = iter_res (read_chunk ps stage) [0..<n * K] (r, outs)"
    using read_loop_chunks[OF len(1,2), of 0] by simp
  with read_stage[OF st order_refl v new] stage_done that show thesis by metis
qed

lemma write_stage_loop:
  assumes st: "stage_state ps n K full base 0 r"
  obtains r' where "write_loop ps stage ch (n * ps) 0 (r, outs) = Inr (r', outs @ lines_of stage (n * K) (\<lambda>_. ch))"
    "stage_state ps n K True (base + (if full then 0 else n)) 0 r'" "bytes r' = replicate (n * ps) ch"
proof -
  have len: "n * ps = 1024 * (n * K)" "n * ps < 2 ^ 31"
    using stage_pages[OF st] by (auto simp: demo_wf_def)
  have run: "write_loop ps stage ch (n * ps) 0 (r, outs) = iter_res (write_chunk ps stage ch) [0..<n * K] (r, outs)"
    using write_loop_chunks[OF len(1,2), of 0] by simp
  obtain r' where r': "iter_res (write_chunk ps stage ch) [0..<n * K] (r, outs) =
      Inr (r', outs @ lines_of stage (n * K) (\<lambda>_. ch))"
    "stage_state ps n K full base (n * K) r'" "\<forall>j < 1024 * (n * K). bytes r' ! j = ch"
    using write_stage[OF st order_refl] by blast
  have "length (bytes r') = n * ps" using stage_pages[OF r'(2)] by (simp add: demo_wf_def)
  then have "bytes r' = replicate (n * ps) ch"
    using r'(3) unfolding len(1) by (intro nth_equalityI) simp_all
  then show thesis using that[of r'] run r'(1) stage_done[OF r'(2)] by simp
qed

lemma holds_replicate: "bytes r = replicate (n * ps) ch \<Longrightarrow> holds ps n (\<lambda>_. ch) r"
  by (simp add: holds_def)

lemma demo_setup_ok:
  assumes "0 < n" and "n * ps < 2 ^ 31" and "0 < ps"
  shows "demo_setup (all_ok ps) [prog, show_nat n] = Inr (of_nat (n * ps), mmap_region ps n)"
    and "unat (of_nat (n * ps) :: u64) = n * ps"
proof -
  have "n \<le> n * ps" using assms(3) by simp
  then have "n < 2 ^ 31" using assms(2) by (rule le_less_trans)
  then have n: "n < 2 ^ 64" by simp
  show u: "unat (of_nat (n * ps) :: u64) = n * ps"
    using assms(2) by (simp only: unsigned_of_nat) (simp add: take_bit_nat_eq_self)
  then have "of_nat (n * ps) \<noteq> (0 :: u64)" using assms(1,3) by (metis mult_is_0 not_gr0 unsigned_0)
  then show "demo_setup (all_ok ps) [prog, show_nat n] = Inr (of_nat (n * ps), mmap_region ps n)"
    using strtoul_show_nat[OF n] u assms(3) by (simp add: demo_setup_def all_ok_def Let_def)
qed

text \<open>The stages go in pairs: a first pass that faults, a second one that finds every page there.\<close>

lemma read_twice:
  assumes st: "stage_state ps n K False base 0 r" and v: "holds ps n v r" and new: "v = (\<lambda>l. letter (base + l div ps))"
  obtains r' where "rbind (read_loop ps s1 (n * ps) 0 (r, outs)) (read_loop ps s2 (n * ps) 0) =
      Inr (r', outs @ lines_of s1 (n * K) v @ lines_of s2 (n * K) v)"
    "stage_state ps n K True (base + n) 0 r'"
proof -
  obtain r1 where r1: "read_loop ps s1 (n * ps) 0 (r, outs) = Inr (r1, outs @ lines_of s1 (n * K) v)"
    "stage_state ps n K True (base + n) 0 r1" "holds ps n v r1"
    using read_stage_loop[OF st v new, of s1 outs] by auto
  obtain r2 where "read_loop ps s2 (n * ps) 0 (r1, outs @ lines_of s1 (n * K) v) =
      Inr (r2, (outs @ lines_of s1 (n * K) v) @ lines_of s2 (n * K) v)"
    "stage_state ps n K True (base + n) 0 r2"
    using read_stage_loop[OF r1(2,3), of s2 "outs @ lines_of s1 (n * K) v"] by auto
  with r1(1) that[of r2] show thesis by simp
qed

lemma write_then_read:
  assumes st: "stage_state ps n K full base 0 r"
  obtains r' where "rbind (write_loop ps s1 ch (n * ps) 0 (r, outs)) (read_loop ps s2 (n * ps) 0) =
      Inr (r', outs @ lines_of s1 (n * K) (\<lambda>_. ch) @ lines_of s2 (n * K) (\<lambda>_. ch))"
    "stage_state ps n K True (base + (if full then 0 else n)) 0 r'" "holds ps n (\<lambda>_. ch) r'"
proof -
  let ?base = "base + (if full then 0 else n)" and ?o = "outs @ lines_of s1 (n * K) (\<lambda>_. ch)"
  obtain r1 where r1: "write_loop ps s1 ch (n * ps) 0 (r, outs) = Inr (r1, ?o)"
    "stage_state ps n K True ?base 0 r1" "bytes r1 = replicate (n * ps) ch"
    using write_stage_loop[OF st, of s1 ch outs] by blast
  obtain r2 where "read_loop ps s2 (n * ps) 0 (r1, ?o) = Inr (r2, ?o @ lines_of s2 (n * K) (\<lambda>_. ch))"
    "stage_state ps n K True ?base 0 r2" "holds ps n (\<lambda>_. ch) r2"
    using read_stage_loop[OF r1(2) holds_replicate[OF r1(3)], of s2 ?o] by auto
  with r1(1) that[of r2] show thesis by simp
qed

lemma demo_main_pairs:
  assumes "demo_setup (all_ok ps) argv = Inr (of_nat (n * ps), r0)" and "unat (of_nat (n * ps) :: u64) = n * ps"
  shows "demo_main (all_ok ps) argv =
     rbind (rbind (read_loop ps 1 (n * ps) 0 (r0, [])) (read_loop ps 2 (n * ps) 0)) (\<lambda>(r, outs).
     rbind (rbind (read_loop ps 3 (n * ps) 0 (drop_all r, outs)) (read_loop ps 4 (n * ps) 0)) (\<lambda>(r, outs).
     rbind (rbind (write_loop ps 5 CHR ''@'' (n * ps) 0 (drop_all r, outs)) (read_loop ps 6 (n * ps) 0)) (\<lambda>s.
     rbind (write_loop ps 7 CHR ''^'' (n * ps) 0 s) (read_loop ps 8 (n * ps) 0))))"
proof -
  have "pagesize (all_ok ps) = ps" "demo_madvise (madvise1_ok (all_ok ps)) r = Inr (drop_all r)"
    "demo_madvise (madvise2_ok (all_ok ps)) r = Inr (drop_all r)" for r
    by (simp_all add: all_ok_def demo_madvise_def)
  then show ?thesis
    by (simp only: demo_main_def assms Let_def rbind_simps prod.case rbind_assoc)
qed

lemma full_of:
  assumes "stage_state ps n K True base 0 r" and "holds ps n (\<lambda>_. ch) r"
  shows "bytes r = replicate (n * ps) ch"
proof (rule nth_equalityI)
  have wf: "demo_wf ps n r" using stage_pages[OF assms(1)] by blast
  then show len: "length (bytes r) = length (replicate (n * ps) ch)" by (simp add: demo_wf_def)
  fix i assume "i < length (bytes r)"
  then have i: "i < n * ps" using len by simp
  then have "i div ps < n" using wf by (simp add: demo_wf_def div_less_iff_less_mult page_size_pos)
  then show "bytes r ! i = replicate (n * ps) ch ! i"
    using assms i by (simp add: stage_state_def holds_def)
qed

text \<open>
  C36. The demonstration prints what its comments promise: stages 1 and 2 read page p as the
  p-th letter (modulo 20), stages 3 and 4 as the letter of the fault that refills it, stages 5
  and 6 the written @, stages 7 and 8 the written ^; each page faults three times in all, and the
  mapping ends full of ^.
\<close>

theorem demo_output:
  assumes "page_size_ok ps" and "1024 dvd ps" and "0 < n" and "n * ps < 2 ^ 31"
  shows "\<exists>r. demo_main (all_ok ps) [prog, show_nat n] = Inr (r,
      (let m = n * ps div 1024; first = (\<lambda>l. letter (l div ps)); again = (\<lambda>l. letter (n + l div ps))
       in lines_of 1 m first @ lines_of 2 m first @ lines_of 3 m again @ lines_of 4 m again
          @ lines_of 5 m (\<lambda>_. CHR ''@'') @ lines_of 6 m (\<lambda>_. CHR ''@'')
          @ lines_of 7 m (\<lambda>_. CHR ''^'') @ lines_of 8 m (\<lambda>_. CHR ''^'')))
    \<and> faults r = 3 * n \<and> bytes r = replicate (n * ps) CHR ''^''"
proof -
  obtain K where K: "ps = 1024 * K" using assms(2) by blast
  have pos: "0 < ps" by (rule page_size_pos[OF assms(1)])
  have m: "n * ps div 1024 = n * K" using K by simp
  note ini = demo_setup_ok[OF assms(3,4) pos]
  define f where "f = (\<lambda>l. letter (l div ps))"
  define g where "g = (\<lambda>l. letter (n + l div ps))"
  note s0 = fresh_stage[OF assms(1) K assms(4)]
  define o2 where "o2 = lines_of 1 (n * K) f @ lines_of 2 (n * K) f"
  obtain r2 where r2: "rbind (read_loop ps 1 (n * ps) 0 (mmap_region ps n, [])) (read_loop ps 2 (n * ps) 0) =
      Inr (r2, o2)" "stage_state ps n K True n 0 r2"
    using read_twice[OF s0(1) s0(2)[of f], of 1 "[]" 2] by (auto simp: f_def o2_def)
  note d2 = drop_all_stage[OF r2(2)]
  define o4 where "o4 = o2 @ lines_of 3 (n * K) g @ lines_of 4 (n * K) g"
  obtain r4 where r4: "rbind (read_loop ps 3 (n * ps) 0 (drop_all r2, o2)) (read_loop ps 4 (n * ps) 0) =
      Inr (r4, o4)" "stage_state ps n K True (n + n) 0 r4"
    using read_twice[OF d2(1) d2(2)[of g], of 3 o2 4] by (auto simp: g_def o4_def)
  define o6 where "o6 = o4 @ lines_of 5 (n * K) (\<lambda>_. CHR ''@'') @ lines_of 6 (n * K) (\<lambda>_. CHR ''@'')"
  obtain r6 where r6: "rbind (write_loop ps 5 CHR ''@'' (n * ps) 0 (drop_all r4, o4)) (read_loop ps 6 (n * ps) 0) =
      Inr (r6, o6)" "stage_state ps n K True (n + n + n) 0 r6"
    using write_then_read[OF drop_all_stage(1)[OF r4(2)], of 5 "CHR ''@''" o4 6] by (auto simp: o6_def)
  obtain r8 where r8: "rbind (write_loop ps 7 CHR ''^'' (n * ps) 0 (r6, o6)) (read_loop ps 8 (n * ps) 0) =
      Inr (r8, o6 @ lines_of 7 (n * K) (\<lambda>_. CHR ''^'') @ lines_of 8 (n * K) (\<lambda>_. CHR ''^''))"
    "stage_state ps n K True (n + n + n) 0 r8" "holds ps n (\<lambda>_. CHR ''^'') r8"
    using write_then_read[OF r6(2), of 7 "CHR ''^''" o6 8] by auto
  have "demo_main (all_ok ps) [prog, show_nat n] =
      Inr (r8, o6 @ lines_of 7 (n * K) (\<lambda>_. CHR ''^'') @ lines_of 8 (n * K) (\<lambda>_. CHR ''^''))"
    unfolding demo_main_pairs[OF ini(1)[of prog] ini(2)] by (simp only: r2(1) r4(1) r6(1) r8(1) rbind_simps prod.case)
  moreover have "faults r8 = 3 * n" using r8(2) by (simp add: stage_state_def)
  ultimately show ?thesis using full_of[OF r8(2,3)]
    by (simp add: Let_def m o2_def o4_def o6_def f_def g_def)
qed

theorem demo_output_witness:
  "\<exists>r. demo_main (all_ok 4096) [''uffd'', show_nat 2] = Inr (r,
      (let m = 2 * 4096 div 1024; first = (\<lambda>l. letter (l div 4096)); again = (\<lambda>l. letter (2 + l div 4096))
       in lines_of 1 m first @ lines_of 2 m first @ lines_of 3 m again @ lines_of 4 m again
          @ lines_of 5 m (\<lambda>_. CHR ''@'') @ lines_of 6 m (\<lambda>_. CHR ''@'')
          @ lines_of 7 m (\<lambda>_. CHR ''^'') @ lines_of 8 m (\<lambda>_. CHR ''^'')))
    \<and> faults r = 3 * 2 \<and> bytes r = replicate (2 * 4096) CHR ''^''"
  by (rule demo_output) (auto simp: page_size_ok_def intro: exI[of _ 12])

end
