(* ===== verification/Hello_Sockets.thy ===== *)
theory Hello_Sockets
  imports CString "HOL-Library.Sublist"
begin

text \<open>
  The socket example (Assignment 1, \<open>code-socket\<close>: \<open>server.c\<close> and \<open>client.c\<close>): the client sends a
  greeting, the server prints it and answers with its own. What the system calls deliver are
  arguments; a TCP \<open>read\<close> may deliver only the first part of what was sent.
\<close>

section \<open>The programs\<close>

datatype hello_out = Perror string | Print string

text \<open>Exit code, output, and the bytes handed to \<open>send\<close>.\<close>

type_synonym hello_end = "int \<times> hello_out list \<times> string"

record server_os =
  srv_socket_ok :: bool
  srv_setsockopt_ok :: bool
  srv_bind_ok :: bool
  srv_listen_ok :: bool
  srv_accept_ok :: bool
  srv_read :: "char list option"

definition hello_server :: string where "hello_server = ''Hello from server''"
definition hello_client :: string where "hello_client = ''Hello from client''"

text \<open>A zeroed buffer of 4096 bytes after a \<open>read\<close> of at most 1024, printed as a string.\<close>

definition buffer_text :: "char list \<Rightarrow> string" where
  "buffer_text d = cstr_of (take 1024 d @ replicate (4096 - length (take 1024 d)) NUL)"

definition server_main :: "server_os \<Rightarrow> hello_end" where
  "server_main os =
     (if \<not> srv_socket_ok os then (1, [Perror ''socket failed''], [])
      else if \<not> srv_setsockopt_ok os then (1, [Perror ''setsockopt''], [])
      else if \<not> srv_bind_ok os then (1, [Perror ''bind failed''], [])
      else if \<not> srv_listen_ok os then (1, [Perror ''listen''], [])
      else if \<not> srv_accept_ok os then (1, [Perror ''accept''], [])
      else
        (case srv_read os of
           None \<Rightarrow> (1, [Print ''Press any key to continue...'', Perror ''accept''], [])
         | Some d \<Rightarrow>
             (0, [Print ''Press any key to continue...'', Print (''Message from a client: '' @ buffer_text d),
                  Print ''Hello message sent''], hello_server)))"

record client_os =
  cli_socket_ok :: bool
  cli_inet_pton_ok :: bool
  cli_connect_ok :: bool
  cli_read :: "char list option"

definition client_main :: "client_os \<Rightarrow> hello_end" where
  "client_main os =
     (if \<not> cli_socket_ok os then (- 1, [Print '' Socket creation error ''], [])
      else if \<not> cli_inet_pton_ok os then (- 1, [Print ''Invalid address/ Address not supported ''], [])
      else if \<not> cli_connect_ok os then (- 1, [Print ''Connection Failed ''], [])
      else
        (case cli_read os of
           None \<Rightarrow>
             (- 1, [Print ''Press any key to continue...'', Print ''Hello message sent'', Print ''Read Failed ''], hello_client)
         | Some d \<Rightarrow>
             (0, [Print ''Press any key to continue...'', Print ''Hello message sent'',
                  Print (''Message from a server: '' @ buffer_text d)], hello_client)))"

section \<open>The exchange\<close>

lemma buffer_text_part:
  assumes "is_cstr s" and "length s \<le> 1024"
  shows "buffer_text (take k s) = take k s"
proof -
  have "is_cstr (take k s)" using assms(1) by (auto simp: is_cstr_def dest: in_set_takeD)
  moreover have t: "take 1024 (take k s) = take k s" using assms(2) by (intro take_all) simp
  have "4096 - length (take k s) = Suc (4095 - length (take k s))" using assms(2) by simp
  then have "replicate (4096 - length (take k s)) NUL = NUL # replicate (4095 - length (take k s)) NUL"
    by (metis replicate_Suc)
  ultimately show ?thesis unfolding buffer_text_def t by (simp del: length_take)
qed

text \<open>The calls each program needs, in the order it makes them, and how it reports a failure.\<close>

definition server_calls :: "server_os \<Rightarrow> (bool \<times> string) list" where
  "server_calls os = [(srv_socket_ok os, ''socket failed''), (srv_setsockopt_ok os, ''setsockopt''),
     (srv_bind_ok os, ''bind failed''), (srv_listen_ok os, ''listen''), (srv_accept_ok os, ''accept''),
     (srv_read os \<noteq> None, ''accept'')]"

definition client_calls :: "client_os \<Rightarrow> (bool \<times> string) list" where
  "client_calls os = [(cli_socket_ok os, '' Socket creation error ''),
     (cli_inet_pton_ok os, ''Invalid address/ Address not supported ''), (cli_connect_ok os, ''Connection Failed ''),
     (cli_read os \<noteq> None, ''Read Failed '')]"

text \<open>The first call that fails.\<close>

definition first_failure :: "(bool \<times> string) list \<Rightarrow> string option" where
  "first_failure calls = map_option snd (List.find (\<lambda>c. \<not> fst c) calls)"

text \<open>What one \<open>read\<close> of the connection delivers: a beginning of what the other end has sent.\<close>

definition delivers :: "char list option \<Rightarrow> string \<Rightarrow> bool" where
  "delivers got sent \<longleftrightarrow> (\<forall>d. got = Some d \<longrightarrow> prefix d sent)"

fun sent_by :: "hello_end \<Rightarrow> string" where
  "sent_by (code, out, sent) = sent"

lemma delivers_text:
  assumes "prefix d s" and "is_cstr s" and "length s \<le> 1024"
  shows "buffer_text d = d"
proof -
  have "d = take (length d) s" using assms(1) by (auto simp: prefix_def)
  then show ?thesis using buffer_text_part[OF assms(2,3), of "length d"] by simp
qed

lemma greetings: "is_cstr hello_server" "is_cstr hello_client" "length hello_server \<le> 1024" "length hello_client \<le> 1024"
  by (simp_all add: hello_server_def hello_client_def is_cstr_def)

lemma sent_sub: "prefix (sent_by (client_main c)) hello_client" "prefix (sent_by (server_main s)) hello_server"
  by (auto simp: client_main_def server_main_def split: option.split)

lemma server_result:
  assumes "delivers (srv_read os) sent" and "prefix sent hello_client"
  shows "server_main os = (case first_failure (server_calls os) of
      Some e \<Rightarrow> (1, (if srv_accept_ok os \<and> srv_listen_ok os \<and> srv_bind_ok os \<and> srv_setsockopt_ok os \<and> srv_socket_ok os
                     then [Print ''Press any key to continue...''] else []) @ [Perror e], [])
    | None \<Rightarrow> (0, [Print ''Press any key to continue...'', Print (''Message from a client: '' @ the (srv_read os)),
                   Print ''Hello message sent''], hello_server))"
proof (cases "srv_read os")
  case (Some d)
  then have "prefix d hello_client" using assms prefix_order.trans by (auto simp: delivers_def)
  then have "buffer_text d = d" using delivers_text greetings by blast
  then show ?thesis using Some by (simp add: server_main_def first_failure_def server_calls_def)
qed (simp add: server_main_def first_failure_def server_calls_def)

lemma client_result:
  assumes "delivers (cli_read os) sent" and "prefix sent hello_server"
  shows "client_main os =
    (if cli_socket_ok os \<and> cli_inet_pton_ok os \<and> cli_connect_ok os then
       (if cli_read os = None then - 1 else 0,
        [Print ''Press any key to continue...'', Print ''Hello message sent'',
         Print (case cli_read os of None \<Rightarrow> ''Read Failed '' | Some d \<Rightarrow> ''Message from a server: '' @ d)], hello_client)
     else (- 1, [Print (the (first_failure (client_calls os)))], []))"
proof (cases "cli_read os")
  case (Some d)
  then have "prefix d hello_server" using assms prefix_order.trans by (auto simp: delivers_def)
  then have "buffer_text d = d" using delivers_text greetings by blast
  then show ?thesis using Some by (simp add: client_main_def first_failure_def client_calls_def)
qed (simp add: client_main_def first_failure_def client_calls_def)

text \<open>
  C40. One client and one server, whatever their calls return, when a \<open>read\<close> delivers nothing but
  a beginning of what the other program has sent: the server ends with the report of its first
  failing call and sends nothing, or, when none fails, prints exactly what was delivered to it
  and sends its greeting; the client sends its greeting exactly when its first three calls
  succeed, and then prints exactly what was delivered to it or the failure of its \<open>read\<close>. So the
  client prints text from a server only when no call of that server failed.
\<close>

theorem hello_exchange:
  assumes "delivers (srv_read s) (sent_by (client_main c))"
    and "delivers (cli_read c) (sent_by (server_main s))"
  shows "server_main s = (case first_failure (server_calls s) of
      Some e \<Rightarrow> (1, (if srv_accept_ok s \<and> srv_listen_ok s \<and> srv_bind_ok s \<and> srv_setsockopt_ok s \<and> srv_socket_ok s
                     then [Print ''Press any key to continue...''] else []) @ [Perror e], [])
    | None \<Rightarrow> (0, [Print ''Press any key to continue...'', Print (''Message from a client: '' @ the (srv_read s)),
                   Print ''Hello message sent''], hello_server))
    \<and> client_main c =
    (if cli_socket_ok c \<and> cli_inet_pton_ok c \<and> cli_connect_ok c then
       (if cli_read c = None then - 1 else 0,
        [Print ''Press any key to continue...'', Print ''Hello message sent'',
         Print (case cli_read c of None \<Rightarrow> ''Read Failed '' | Some d \<Rightarrow> ''Message from a server: '' @ d)], hello_client)
     else (- 1, [Print (the (first_failure (client_calls c)))], []))
    \<and> (first_failure (server_calls s) \<noteq> None \<longrightarrow> cli_read c \<in> {None, Some []})
    \<and> (\<not> (cli_socket_ok c \<and> cli_inet_pton_ok c \<and> cli_connect_ok c) \<longrightarrow> srv_read s \<in> {None, Some []})"
proof (intro conjI impI)
  note server = server_result[OF assms(1) sent_sub(1)] and client = client_result[OF assms(2) sent_sub(2)]
  show "server_main s = (case first_failure (server_calls s) of
      Some e \<Rightarrow> (1, (if srv_accept_ok s \<and> srv_listen_ok s \<and> srv_bind_ok s \<and> srv_setsockopt_ok s \<and> srv_socket_ok s
                     then [Print ''Press any key to continue...''] else []) @ [Perror e], [])
    | None \<Rightarrow> (0, [Print ''Press any key to continue...'', Print (''Message from a client: '' @ the (srv_read s)),
                   Print ''Hello message sent''], hello_server))" by (rule server)
  show "client_main c =
    (if cli_socket_ok c \<and> cli_inet_pton_ok c \<and> cli_connect_ok c then
       (if cli_read c = None then - 1 else 0,
        [Print ''Press any key to continue...'', Print ''Hello message sent'',
         Print (case cli_read c of None \<Rightarrow> ''Read Failed '' | Some d \<Rightarrow> ''Message from a server: '' @ d)], hello_client)
     else (- 1, [Print (the (first_failure (client_calls c)))], []))" by (rule client)
  show "cli_read c \<in> {None, Some []}" if "first_failure (server_calls s) \<noteq> None"
  proof -
    have "sent_by (server_main s) = []" using server that by auto
    then show ?thesis using assms(2) by (cases "cli_read c") (auto simp: delivers_def)
  qed
  show "srv_read s \<in> {None, Some []}" if "\<not> (cli_socket_ok c \<and> cli_inet_pton_ok c \<and> cli_connect_ok c)"
  proof -
    have "sent_by (client_main c) = []" using client that by auto
    then show ?thesis using assms(1) by (cases "srv_read s") (auto simp: delivers_def)
  qed
qed

theorem hello_exchange_witness:
  "\<exists>s c. delivers (srv_read s) (sent_by (client_main c)) \<and> delivers (cli_read c) (sent_by (server_main s))
     \<and> server_main s = (0, [Print ''Press any key to continue...'', Print ''Message from a client: Hello'',
         Print ''Hello message sent''], ''Hello from server'')
     \<and> client_main c = (0, [Print ''Press any key to continue...'', Print ''Hello message sent'',
         Print ''Message from a server: Hello from server''], ''Hello from client'')"
proof -
  let ?s = "\<lparr>srv_socket_ok = True, srv_setsockopt_ok = True, srv_bind_ok = True, srv_listen_ok = True,
    srv_accept_ok = True, srv_read = Some ''Hello''\<rparr>"
  let ?c = "\<lparr>cli_socket_ok = True, cli_inet_pton_ok = True, cli_connect_ok = True,
    cli_read = Some ''Hello from server''\<rparr>"
  have d: "delivers (srv_read ?s) (sent_by (client_main ?c))" "delivers (cli_read ?c) (sent_by (server_main ?s))"
    by (simp_all add: delivers_def client_main_def server_main_def hello_client_def hello_server_def)
  show ?thesis
    using hello_exchange[OF d] d
    by (intro exI[of _ ?s] exI[of _ ?c])
       (simp add: first_failure_def server_calls_def hello_client_def hello_server_def)
qed

end
