(* ===== verification/KernelLib.thy ===== *)
theory KernelLib
  imports Prelude "HOL-Library.Tree" "HOL-Library.Multiset"
begin

text \<open>
  The kernel libraries the modules call, as parameters: for each library a record of the
  operations the code uses and a locale with the behaviour its documentation promises. The
  components take the records as arguments; their lemmas are proved in the locales. A
  reference implementation of each interface shows that its laws can hold together.
\<close>

section \<open>Freed memory\<close>

text \<open>
  What an access to memory after \<open>kfree\<close> does: it is trapped (KASAN, poisoning, an unmapped
  page), or it still finds what the memory last held.
\<close>

datatype freed_mem = Trapped | Untouched

section \<open>Hash tables (linux/hashtable.h)\<close>

text \<open>
  \<open>hash_possible t k\<close> is the list of objects \<open>hash_for_each_possible\<close> visits for key \<open>k\<close>, in
  order; \<open>hash_all\<close> those of \<open>hash_for_each\<close>.
\<close>

record ('n, 't) hash_ops =
  hash_init :: 't
  hash_add :: "'n \<Rightarrow> i32 \<Rightarrow> 't \<Rightarrow> 't"
  hash_del :: "'n \<Rightarrow> 't \<Rightarrow> 't"
  hash_possible :: "'t \<Rightarrow> i32 \<Rightarrow> 'n list"
  hash_all :: "'t \<Rightarrow> 'n list"

text \<open>
  An added object is visited under exactly the keys that hash to its key's bucket; a deleted
  one no more. Nothing is promised about the order in a bucket.
\<close>

locale hashtable_lib =
  fixes H :: "('n, 't) hash_ops"
    and bucket :: "i32 \<Rightarrow> nat"
  assumes possible_init: "hash_possible H (hash_init H) k = []"
    and all_init: "hash_all H (hash_init H) = []"
    and possible_add: "mset (hash_possible H (hash_add H n k t) k') =
          (if bucket k = bucket k' then add_mset n (mset (hash_possible H t k'))
           else mset (hash_possible H t k'))"
    and all_add: "mset (hash_all H (hash_add H n k t)) = add_mset n (mset (hash_all H t))"
    and possible_del: "n \<in> set (hash_possible H t k) \<Longrightarrow>
          (\<And>k'. bucket k' \<noteq> bucket k \<Longrightarrow> n \<notin> set (hash_possible H t k')) \<Longrightarrow>
          mset (hash_possible H (hash_del H n t) k') =
            (if bucket k = bucket k' then mset (hash_possible H t k') - {#n#}
             else mset (hash_possible H t k'))"
    and all_del: "n \<in> set (hash_possible H t k) \<Longrightarrow>
          mset (hash_all H (hash_del H n t)) = mset (hash_all H t) - {#n#}"
    and all_possible: "n \<in> set (hash_all H t) \<longleftrightarrow> (\<exists>k. n \<in> set (hash_possible H t k))"
begin

lemma set_possible_add: "set (hash_possible H (hash_add H n k t) k') =
    (if bucket k = bucket k' then insert n (set (hash_possible H t k')) else set (hash_possible H t k'))"
  using arg_cong[OF possible_add[of n k t k'], of set_mset] by (simp split: if_splits)

text \<open>Every object lies in the bucket of its number.\<close>

definition placed :: "('n \<Rightarrow> i32) \<Rightarrow> 't \<Rightarrow> bool" where
  "placed num t \<longleftrightarrow> (\<forall>k n. n \<in> set (hash_possible H t k) \<longrightarrow> bucket (num n) = bucket k)"

lemma possible_del_placed:
  assumes "placed num t" and n: "n \<in> set (hash_possible H t k)"
  shows "mset (hash_possible H (hash_del H n t) k') =
    (if bucket k = bucket k' then mset (hash_possible H t k') - {#n#} else mset (hash_possible H t k'))"
proof (rule possible_del[OF n])
  fix k'' assume "bucket k'' \<noteq> bucket k"
  then show "n \<notin> set (hash_possible H t k'')" using assms unfolding placed_def by metis
qed

lemma placed_del:
  assumes "placed num t" and "n \<in> set (hash_possible H t k)"
  shows "placed num (hash_del H n t)"
proof -
  have "set (hash_possible H (hash_del H n t) k') \<subseteq> set (hash_possible H t k')" for k'
    using possible_del_placed[OF assms, of k']
    by (metis set_mset_mset in_diffD subsetI)
  then show ?thesis using assms(1) by (auto simp: placed_def)
qed

lemma placed_add: "placed num t \<Longrightarrow> placed num (hash_add H n (num n) t)"
  by (auto simp: placed_def set_possible_add split: if_splits)

lemma placed_init: "placed num (hash_init H)"
  by (simp add: placed_def possible_init)

end

text \<open>Reference: the objects with their keys, the last added first; \<open>h\<close> numbers the buckets.\<close>

fun del_object :: "'n \<Rightarrow> (i32 \<times> 'n) list \<Rightarrow> (i32 \<times> 'n) list" where
  "del_object n [] = []"
| "del_object n ((k, m) # t) = (if m = n then t else (k, m) # del_object n t)"

definition ref_hash :: "(i32 \<Rightarrow> nat) \<Rightarrow> ('n, (i32 \<times> 'n) list) hash_ops" where
  "ref_hash h =
     \<lparr>hash_init = [],
      hash_add = (\<lambda>n k t. (k, n) # t),
      hash_del = del_object,
      hash_possible = (\<lambda>t k. map snd (filter (\<lambda>x. h (fst x) = h k) t)),
      hash_all = map snd\<rparr>"

lemma mset_del_object: "mset (map snd (del_object n t)) = mset (map snd t) - {#n#}"
  by (induction n t rule: del_object.induct) (auto simp: add_mset_remove_trivial_If)

lemma mset_del_object_bucket:
  assumes "\<And>x. x \<in> set t \<Longrightarrow> snd x = n \<Longrightarrow> h (fst x) = b"
  shows "mset (map snd (filter (\<lambda>x. h (fst x) = c) (del_object n t))) =
    (if b = c then mset (map snd (filter (\<lambda>x. h (fst x) = c) t)) - {#n#}
     else mset (map snd (filter (\<lambda>x. h (fst x) = c) t)))"
  using assms by (induction n t rule: del_object.induct) auto

interpretation ref_hash: hashtable_lib "ref_hash h" h for h
proof
  fix n :: 'n and t :: "(i32 \<times> 'n) list" and k k'
  show "n \<in> set (hash_all (ref_hash h) t) \<longleftrightarrow> (\<exists>k. n \<in> set (hash_possible (ref_hash h) t k))"
    by (force simp: ref_hash_def)
  show "mset (hash_all (ref_hash h) (hash_del (ref_hash h) n t)) = mset (hash_all (ref_hash h) t) - {#n#}"
    using mset_del_object[of n t] by (simp add: ref_hash_def)
  assume "\<And>k'. h k' \<noteq> h k \<Longrightarrow> n \<notin> set (hash_possible (ref_hash h) t k')"
  then have "\<And>x. x \<in> set t \<Longrightarrow> snd x = n \<Longrightarrow> h (fst x) = h k" by (force simp: ref_hash_def)
  then show "mset (hash_possible (ref_hash h) (hash_del (ref_hash h) n t) k') =
            (if h k = h k' then mset (hash_possible (ref_hash h) t k') - {#n#}
             else mset (hash_possible (ref_hash h) t k'))"
    using mset_del_object_bucket[of t n h "h k" "h k'"] by (simp add: ref_hash_def)
qed (auto simp: ref_hash_def)

section \<open>Red-black trees (linux/rbtree.h)\<close>

text \<open>
  \<open>rb_insert_color\<close> rebalances after a node was linked, \<open>rb_erase\<close> unlinks a node and
  rebalances. \<open>rb_next_erased x t\<close> is where the pointers left in \<open>x\<close> lead \<open>rb_next\<close> when it is called
  on \<open>x\<close> after \<open>x\<close> was erased from \<open>t\<close>. The library promises nothing about it, so no law below speaks
  of it: it may be any node or none.
\<close>

record 'a rb_ops =
  rb_insert_color :: "'a \<Rightarrow> 'a tree \<Rightarrow> 'a tree"
  rb_erase :: "'a \<Rightarrow> 'a tree \<Rightarrow> 'a tree"
  rb_next_erased :: "'a \<Rightarrow> 'a tree \<Rightarrow> 'a option"

text \<open>The traversal functions visit the nodes in sort order.\<close>

definition rb_first :: "'a tree \<Rightarrow> 'a option" where
  "rb_first t = (case inorder t of [] \<Rightarrow> None | x # _ \<Rightarrow> Some x)"

definition rb_next :: "'a \<Rightarrow> 'a tree \<Rightarrow> 'a option" where
  "rb_next x t = (case dropWhile (\<lambda>y. y \<noteq> x) (inorder t) of _ # y # _ \<Rightarrow> Some y | _ \<Rightarrow> None)"

locale rbtree_lib =
  fixes L :: "'a rb_ops"
  assumes inorder_insert_color: "inorder (rb_insert_color L x t) = inorder t"
    and inorder_erase: "x \<in> set (inorder t) \<Longrightarrow> distinct (inorder t) \<Longrightarrow>
          inorder (rb_erase L x t) = remove1 x (inorder t)"

text \<open>
  \<open>rb_next\<close> on a node that was erased and freed, as the removal loops call it. Reading the freed
  node may be trapped; a pointer that does not lead to a node of the tree is used at once and is a
  fault, too.
\<close>

definition stale_next :: "'a rb_ops \<Rightarrow> freed_mem \<Rightarrow> 'a \<Rightarrow> 'a tree \<Rightarrow> 'a option res" where
  "stale_next L fm x t =
     (case fm of
        Trapped \<Rightarrow> Inl UseAfterFree
      | Untouched \<Rightarrow>
          (case rb_next_erased L x t of
             None \<Rightarrow> Inr None
           | Some y \<Rightarrow> if y \<in> set (inorder (rb_erase L x t)) then Inr (Some y) else Inl UseAfterFree))"

text \<open>
  Two ways a kernel may happen to behave, which theorems distinguish and none assumes: every such
  read goes well; the pointers left in an erased first node lead to its successor.
\<close>

definition stale_readable :: "'a rb_ops \<Rightarrow> freed_mem \<Rightarrow> bool" where
  "stale_readable L fm \<longleftrightarrow> (\<forall>x t. x \<in> set (inorder t) \<longrightarrow> distinct (inorder t) \<longrightarrow> (\<exists>r. stale_next L fm x t = Inr r))"

definition stale_successor :: "'a rb_ops \<Rightarrow> bool" where
  "stale_successor L \<longleftrightarrow> (\<forall>t x xs. inorder t = x # xs \<longrightarrow> distinct (inorder t) \<longrightarrow>
     rb_next_erased L x t = (case xs of [] \<Rightarrow> None | y # _ \<Rightarrow> Some y))"

lemma stale_next_Inr:
  "stale_next L fm x t = Inr r \<Longrightarrow> fm = Untouched \<and> (\<forall>y. r = Some y \<longrightarrow> y \<in> set (inorder (rb_erase L x t)))"
  by (auto simp: stale_next_def split: freed_mem.splits option.splits if_splits)

lemma stale_next_Inl: "stale_next L fm x t = Inl e \<Longrightarrow> e = UseAfterFree"
  by (auto simp: stale_next_def split: freed_mem.splits option.splits if_splits)

lemma stale_next_cases:
  obtains r where "stale_next L fm x t = Inr r" | "stale_next L fm x t = Inl UseAfterFree"
proof (cases "stale_next L fm x t")
  case (Inl e)
  then have "e = UseAfterFree" by (rule stale_next_Inl)
  with Inl show thesis using that(2) by simp
qed (rule that(1))

lemma trapped_not_readable [simp]: "\<not> stale_readable L Trapped"
  by (auto simp: stale_readable_def stale_next_def intro!: exI[of _ "Node Leaf x Leaf" for x])

lemma stale_readableD:
  "stale_readable L fm \<Longrightarrow> x \<in> set (inorder t) \<Longrightarrow> distinct (inorder t) \<Longrightarrow> \<exists>r. stale_next L fm x t = Inr r"
  by (simp add: stale_readable_def)

text \<open>Reference: no rebalancing; a node is replaced by the join of its subtrees.\<close>

fun join_trees :: "'a tree \<Rightarrow> 'a tree \<Rightarrow> 'a tree" where
  "join_trees Leaf r = r"
| "join_trees (Node l x m) r = Node l x (join_trees m r)"

fun erase_node :: "'a \<Rightarrow> 'a tree \<Rightarrow> 'a tree" where
  "erase_node x Leaf = Leaf"
| "erase_node x (Node l y r) =
     (if x = y then join_trees l r
      else if x \<in> set (inorder l) then Node (erase_node x l) y r
      else Node l y (erase_node x r))"

definition ref_rb :: "'a rb_ops" where
  "ref_rb = \<lparr>rb_insert_color = (\<lambda>x t. t), rb_erase = erase_node, rb_next_erased = rb_next\<rparr>"

lemma inorder_join_trees: "inorder (join_trees l r) = inorder l @ inorder r"
  by (induction l) simp_all

lemma inorder_erase_node:
  "distinct (inorder t) \<Longrightarrow> inorder (erase_node x t) = remove1 x (inorder t)"
  by (induction t) (auto simp: inorder_join_trees remove1_append remove1_idem)

lemma rb_next_split:
  "rb_next x t = Some y \<Longrightarrow> \<exists>us zs. inorder t = us @ x # y # zs"
proof -
  assume "rb_next x t = Some y"
  then obtain w zs where zs: "dropWhile (\<lambda>z. z \<noteq> x) (inorder t) = w # y # zs"
    by (auto simp: rb_next_def split: list.splits)
  have "w = x" using hd_dropWhile[of "\<lambda>z. z \<noteq> x" "inorder t"] zs by simp
  with zs show ?thesis by (metis takeWhile_dropWhile_id)
qed

lemma rb_next_of_split:
  "inorder t = us @ x # vs \<Longrightarrow> distinct (inorder t) \<Longrightarrow>
    rb_next x t = (case vs of [] \<Rightarrow> None | y # _ \<Rightarrow> Some y)"
proof -
  assume "inorder t = us @ x # vs" and "distinct (inorder t)"
  then have "dropWhile (\<lambda>z. z \<noteq> x) (inorder t) = x # vs" by (auto simp: dropWhile_append)
  then show ?thesis by (simp add: rb_next_def)
qed

lemma rb_next_in:
  assumes "distinct (inorder t)" and "rb_next x t = Some y"
  shows "y \<in> set (remove1 x (inorder t))"
  using rb_next_split[OF assms(2)] assms(1) by (auto simp del: set_inorder)

interpretation ref_rb: rbtree_lib ref_rb
  by unfold_locales (simp_all add: ref_rb_def inorder_erase_node)

lemma ref_rb_readable: "stale_readable ref_rb Untouched"
  unfolding stale_readable_def
proof (intro allI impI)
  fix x :: 'a and t
  assume "x \<in> set (inorder t)" "distinct (inorder t)"
  then show "\<exists>r. stale_next ref_rb Untouched x t = Inr r"
    using rb_next_in[of t x] ref_rb.inorder_erase[of x t]
    by (cases "rb_next x t") (auto simp: stale_next_def ref_rb_def simp del: set_inorder)
qed

lemma ref_rb_successor: "stale_successor ref_rb"
  by (auto simp: stale_successor_def ref_rb_def rb_next_def split: list.splits)

section \<open>Linking a new node\<close>

text \<open>
  The loop every caller of \<open>rb_link_node\<close> writes, for the key it compares: go down to the left or
  to the right, give up on an equal key, link the node in the empty place.
\<close>

fun link_by :: "('a \<Rightarrow> 'k::linorder) \<Rightarrow> 'a \<Rightarrow> 'a tree \<Rightarrow> 'a tree option" where
  "link_by key new Leaf = Some (Node Leaf new Leaf)"
| "link_by key new (Node l this r) =
     (if key new < key this then
        (case link_by key new l of None \<Rightarrow> None | Some l' \<Rightarrow> Some (Node l' this r))
      else if key new > key this then
        (case link_by key new r of None \<Rightarrow> None | Some r' \<Rightarrow> Some (Node l this r'))
      else None)"

definition by_key :: "('a \<Rightarrow> 'k::linorder) \<Rightarrow> 'a list \<Rightarrow> bool" where
  "by_key key xs \<longleftrightarrow> sorted_wrt (\<lambda>x y. key x < key y) xs"

lemma by_key_append: "by_key key (xs @ ys) \<longleftrightarrow>
    by_key key xs \<and> by_key key ys \<and> (\<forall>x\<in>set xs. \<forall>y\<in>set ys. key x < key y)"
  by (simp add: by_key_def sorted_wrt_append)

lemma by_key_Cons: "by_key key (x # xs) \<longleftrightarrow> (\<forall>y\<in>set xs. key x < key y) \<and> by_key key xs"
  by (simp add: by_key_def)

lemma by_key_distinct: "by_key key xs \<Longrightarrow> distinct (map key xs)"
  by (induction xs) (auto simp: by_key_Cons)

lemma link_by_None:
  "by_key key (inorder t) \<Longrightarrow> link_by key new t = None \<longleftrightarrow> (\<exists>n \<in> set (inorder t). key n = key new)"
  by (induction t) (auto simp: by_key_append by_key_Cons split: option.splits)

lemma link_by_Some:
  assumes "by_key key (inorder t)" and "link_by key new t = Some t'"
  shows "\<exists>xs ys. inorder t = xs @ ys \<and> inorder t' = xs @ new # ys
    \<and> (\<forall>x\<in>set xs. key x < key new) \<and> (\<forall>y\<in>set ys. key new < key y)"
  using assms
proof (induction t arbitrary: t')
  case Leaf
  then show ?case by auto
next
  case (Node l this r)
  then have ord: "by_key key (inorder l)" "by_key key (inorder r)" "\<forall>x\<in>set (inorder l). key x < key this"
      "\<forall>y\<in>set (inorder r). key this < key y"
    by (auto simp: by_key_append by_key_Cons)
  consider "key new < key this" | "key new > key this"
    using Node.prems(2) by (auto split: if_splits)
  then show ?case
  proof cases
    case 1
    then obtain l' where l': "link_by key new l = Some l'" "t' = Node l' this r"
      using Node.prems(2) by (auto split: option.splits)
    from Node.IH(1)[OF ord(1) l'(1)] obtain xs ys where "inorder l = xs @ ys" "inorder l' = xs @ new # ys"
      "\<forall>x\<in>set xs. key x < key new" "\<forall>y\<in>set ys. key new < key y" by blast
    then show ?thesis using 1 l'(2) ord(4)
      by (intro exI[of _ xs] exI[of _ "ys @ this # inorder r"]) (auto dest: order.strict_trans)
  next
    case 2
    then have "\<not> key new < key this" by simp
    with 2 obtain r' where r': "link_by key new r = Some r'" "t' = Node l this r'"
      using Node.prems(2) by (simp split: option.splits)
    from Node.IH(2)[OF ord(2) r'(1)] obtain xs ys where "inorder r = xs @ ys" "inorder r' = xs @ new # ys"
      "\<forall>x\<in>set xs. key x < key new" "\<forall>y\<in>set ys. key new < key y" by blast
    then show ?thesis using 2 r'(2) ord(3)
      by (intro exI[of _ "inorder l @ this # xs"] exI[of _ ys]) (auto dest: order.strict_trans)
  qed
qed

section \<open>Walking a tree\<close>

definition first_of :: "'a list \<Rightarrow> 'a option" where
  "first_of xs = (case xs of [] \<Rightarrow> None | x # _ \<Rightarrow> Some x)"

lemma first_of_simps [simp]: "first_of [] = None" "first_of (x # xs) = Some x"
  by (simp_all add: first_of_def)

lemma rb_first_first_of: "rb_first t = first_of (inorder t)"
  by (simp add: rb_first_def first_of_def)

lemma rb_next_first_of:
  "inorder t = us @ x # vs \<Longrightarrow> distinct (inorder t) \<Longrightarrow> rb_next x t = first_of vs"
  using rb_next_of_split[of t us x vs] by (simp add: first_of_def)

end
