(* ===== verification/Perftop_Table.thy ===== *)
theory Perftop_Table
  imports KernelLib
begin

text \<open>
  The profiler's hash table (Assignment 4, part 2, \<open>perftop.c\<close>): for each process on the CPU the
  time stamp at which it was picked. Look-up, removal and insertion over the kernel's hash
  table, and the contract the return handler relies on: a finite map from process numbers to
  time stamps whose absent entries read as 0.
\<close>

section \<open>Operations\<close>

record myhashnode =
  hvalue :: i32
  htsc :: u64

text \<open>\<open>lookup_hash_table\<close>: the first object of the bucket with this number.\<close>

fun lookup_bucket :: "i32 \<Rightarrow> myhashnode list \<Rightarrow> u64" where
  "lookup_bucket number [] = 0"
| "lookup_bucket number (obj # objs) =
     (if hvalue obj = number then htsc obj else lookup_bucket number objs)"

definition lookup_hash_table :: "(myhashnode, 't) hash_ops \<Rightarrow> 't \<Rightarrow> i32 \<Rightarrow> u64" where
  "lookup_hash_table H t number = lookup_bucket number (hash_possible H t number)"

text \<open>
  \<open>remove_hash_table\<close>: a matching object is unlinked and freed while the loop stands on it; the
  loop's next step reads the freed object's \<open>next\<close>, which \<open>hash_del\<close> has set to NULL.
\<close>

fun remove_bucket ::
  "(myhashnode, 't) hash_ops \<Rightarrow> freed_mem \<Rightarrow> i32 \<Rightarrow> myhashnode list \<Rightarrow> 't \<Rightarrow> 't res" where
  "remove_bucket H fm number [] t = Inr t"
| "remove_bucket H fm number (obj # objs) t =
     (if hvalue obj = number then
        (case fm of Trapped \<Rightarrow> Inl UseAfterFree | Untouched \<Rightarrow> Inr (hash_del H obj t))
      else remove_bucket H fm number objs t)"

definition remove_hash_table :: "(myhashnode, 't) hash_ops \<Rightarrow> freed_mem \<Rightarrow> i32 \<Rightarrow> 't \<Rightarrow> 't res" where
  "remove_hash_table H fm number t = remove_bucket H fm number (hash_possible H t number) t"

text \<open>
  \<open>insert_hash_table\<close>: the old entry goes first; \<open>alloc\<close> says whether \<open>kmalloc\<close> succeeds, its
  result is used unchecked.
\<close>

definition insert_hash_table ::
  "(myhashnode, 't) hash_ops \<Rightarrow> freed_mem \<Rightarrow> bool \<Rightarrow> i32 \<Rightarrow> u64 \<Rightarrow> 't \<Rightarrow> 't res" where
  "insert_hash_table H fm alloc pid input_tsc t =
     rbind (remove_hash_table H fm pid t) (\<lambda>t'.
     if alloc then Inr (hash_add H \<lparr>hvalue = pid, htsc = input_tsc\<rparr> pid t') else Inl NullDeref)"

text \<open>
  \<open>remove_hash_table_all\<close> walks the objects of key 0's bucket; the count of deleted objects comes
  with the table.
\<close>

definition remove_hash_table_all :: "(myhashnode, 't) hash_ops \<Rightarrow> freed_mem \<Rightarrow> 't \<Rightarrow> (nat \<times> 't) res" where
  "remove_hash_table_all H fm t =
     (case hash_possible H t 0 of
        [] \<Rightarrow> Inr (0, t)
      | obj # _ \<Rightarrow>
          (case fm of Trapped \<Rightarrow> Inl UseAfterFree | Untouched \<Rightarrow> Inr (1, hash_del H obj t)))"

text \<open>Is there an object with this number?\<close>

definition has_entry :: "(myhashnode, 't) hash_ops \<Rightarrow> 't \<Rightarrow> i32 \<Rightarrow> bool" where
  "has_entry H t number \<longleftrightarrow> (\<exists>obj \<in> set (hash_possible H t number). hvalue obj = number)"

section \<open>The contract\<close>

locale pid_table =
  fixes look :: "'t \<Rightarrow> i32 \<Rightarrow> u64"
    and rem :: "i32 \<Rightarrow> 't \<Rightarrow> 't res"
    and ins :: "i32 \<Rightarrow> u64 \<Rightarrow> 't \<Rightarrow> 't res"
    and ok :: "'t \<Rightarrow> bool"
  assumes rem_ok: "ok t \<Longrightarrow> \<exists>t'. rem pid t = Inr t' \<and> ok t' \<and> look t' = (look t)(pid := 0)"
    and ins_ok: "ok t \<Longrightarrow> \<exists>t'. ins pid v t = Inr t' \<and> ok t' \<and> look t' = (look t)(pid := v)"
begin

lemma rem_look: "ok t \<Longrightarrow> rem pid t = Inr t' \<Longrightarrow> ok t' \<and> look t' = (look t)(pid := 0)"
  using rem_ok[of t pid] by auto

lemma ins_look: "ok t \<Longrightarrow> ins pid v t = Inr t' \<Longrightarrow> ok t' \<and> look t' = (look t)(pid := v)"
  using ins_ok[of t pid v] by auto

text \<open>The time from a pick to the removal of the entry is read back exactly.\<close>

lemma ins_rem:
  assumes "ok t"
  shows "\<exists>t1 t2. ins pid v t = Inr t1 \<and> look t1 pid = v \<and> rem pid t1 = Inr t2
           \<and> ok t2 \<and> look t2 = (look t)(pid := 0)"
  using ins_ok[OF assms, of pid v] rem_ok by fastforce

end

section \<open>The profiler's table\<close>

locale perftop_table = hashtable_lib H bucket
  for H :: "(myhashnode, 't) hash_ops" and bucket
begin

definition entries :: "i32 \<Rightarrow> 't \<Rightarrow> myhashnode multiset" where
  "entries pid t = filter_mset (\<lambda>n. hvalue n = pid) (mset (hash_possible H t pid))"

definition table_ok :: "'t \<Rightarrow> bool" where
  "table_ok t \<longleftrightarrow> placed hvalue t \<and> (\<forall>pid. size (entries pid t) \<le> 1)"

lemma table_ok_init: "table_ok (hash_init H)"
  by (simp add: table_ok_def placed_init entries_def possible_init)

lemma entries_cases:
  assumes "table_ok t"
  obtains "entries pid t = {#}" | n where "entries pid t = {#n#}" and "hvalue n = pid"
    and "n \<in> set (hash_possible H t pid)"
proof -
  have "size (entries pid t) \<le> 1" using assms by (simp add: table_ok_def)
  then consider "entries pid t = {#}" | "size (entries pid t) = 1" by (auto simp: le_Suc_eq)
  then show ?thesis
  proof cases
    case 2
    then obtain n where n: "entries pid t = {#n#}" using size_1_singleton_mset by blast
    then have "n \<in># entries pid t" by simp
    then have "hvalue n = pid" "n \<in> set (hash_possible H t pid)" by (auto simp: entries_def)
    with n show ?thesis using that(2) by blast
  qed (rule that(1))
qed

lemma lookup_none: "filter_mset (\<lambda>n. hvalue n = pid) (mset xs) = {#} \<Longrightarrow> lookup_bucket pid xs = 0"
  by (induction xs) (auto split: if_splits)

lemma lookup_one: "filter_mset (\<lambda>n. hvalue n = pid) (mset xs) = {#n#} \<Longrightarrow> lookup_bucket pid xs = htsc n"
  by (induction xs) (auto split: if_splits)

lemma remove_none: "filter_mset (\<lambda>n. hvalue n = pid) (mset xs) = {#} \<Longrightarrow> remove_bucket H fm pid xs t = Inr t"
  by (induction xs) (auto split: if_splits)

lemma remove_one: "filter_mset (\<lambda>n. hvalue n = pid) (mset xs) = {#n#} \<Longrightarrow>
    remove_bucket H fm pid xs t = (case fm of Trapped \<Rightarrow> Inl UseAfterFree | Untouched \<Rightarrow> Inr (hash_del H n t))"
  by (induction xs) (auto split: if_splits freed_mem.splits)

lemma look_entries:
  assumes "table_ok t"
  shows "entries pid t = {#} \<Longrightarrow> lookup_hash_table H t pid = 0"
    and "entries pid t = {#n#} \<Longrightarrow> lookup_hash_table H t pid = htsc n"
  by (simp_all add: lookup_hash_table_def entries_def lookup_none lookup_one)

lemma entries_add:
  "entries pid (hash_add H n (hvalue n) t) =
     (if hvalue n = pid then add_mset n (entries pid t) else entries pid t)"
  by (auto simp: entries_def possible_add)

lemma entries_del:
  assumes "placed hvalue t" and "n \<in> set (hash_possible H t (hvalue n))"
  shows "entries pid (hash_del H n t) = entries pid t - (if hvalue n = pid then {#n#} else {#})"
  using possible_del_placed[OF assms, of pid] by (auto simp: entries_def)

lemma same_entries_look:
  assumes "table_ok t" and "table_ok t'" and "entries pid t = entries pid t'"
  shows "lookup_hash_table H t pid = lookup_hash_table H t' pid"
proof (cases pid rule: entries_cases[OF assms(1)])
  case 1
  then show ?thesis using assms look_entries(1) by simp
next
  case (2 n)
  then show ?thesis using assms look_entries(2)[of _ pid n] by simp
qed

lemma remove_ok:
  assumes "table_ok t"
  shows "\<exists>t'. remove_hash_table H Untouched pid t = Inr t' \<and> table_ok t' \<and> entries pid t' = {#}
           \<and> (\<forall>q. q \<noteq> pid \<longrightarrow> entries q t' = entries q t)"
proof (cases pid rule: entries_cases[OF assms])
  case 1
  then show ?thesis using assms by (simp add: remove_hash_table_def entries_def remove_none)
next
  case (2 n)
  let ?t = "hash_del H n t"
  have p: "placed hvalue t" using assms by (simp add: table_ok_def)
  have e: "entries q ?t = entries q t - (if pid = q then {#n#} else {#})" for q
    using entries_del[OF p, of n q] 2 by simp
  have "remove_hash_table H Untouched pid t = Inr ?t"
    using 2(1) by (simp add: remove_hash_table_def entries_def remove_one)
  moreover have "table_ok ?t"
    using e placed_del[OF p 2(3)] assms 2(1) by (auto simp: table_ok_def)
  ultimately show ?thesis using e 2(1) by simp
qed

lemma remove_trapped:
  assumes "table_ok t" and "entries pid t \<noteq> {#}"
  shows "remove_hash_table H Trapped pid t = Inl UseAfterFree"
proof (cases pid rule: entries_cases[OF assms(1)])
  case 1
  then show ?thesis using assms(2) by simp
next
  case (2 n)
  then show ?thesis by (simp add: remove_hash_table_def entries_def remove_one)
qed

lemma has_entry_entries: "has_entry H t pid \<longleftrightarrow> entries pid t \<noteq> {#}"
  by (auto simp: has_entry_def entries_def simp flip: set_mset_eq_empty_iff)

text \<open>In general: the removal reads a freed object exactly if there is one to remove.\<close>

lemma remove_any:
  assumes "table_ok t"
  shows "remove_hash_table H fm pid t =
    (if fm = Trapped \<and> has_entry H t pid then Inl UseAfterFree else remove_hash_table H Untouched pid t)"
proof (cases "fm = Trapped \<and> \<not> has_entry H t pid")
  case True
  then have "entries pid t = {#}" by (simp add: has_entry_entries)
  then show ?thesis using True by (simp add: remove_hash_table_def entries_def remove_none)
next
  case False
  then show ?thesis using remove_trapped[OF assms, of pid] by (cases fm) (auto simp: has_entry_entries)
qed

lemma insert_any:
  assumes "table_ok t"
  shows "insert_hash_table H fm alloc pid v t =
    (if fm = Trapped \<and> has_entry H t pid then Inl UseAfterFree else insert_hash_table H Untouched alloc pid v t)"
  using remove_any[OF assms, of fm pid] by (simp add: insert_hash_table_def)

lemma insert_ok:
  assumes "table_ok t"
  shows "\<exists>t'. insert_hash_table H Untouched True pid v t = Inr t' \<and> table_ok t'
           \<and> entries pid t' = {#\<lparr>hvalue = pid, htsc = v\<rparr>#} \<and> (\<forall>q. q \<noteq> pid \<longrightarrow> entries q t' = entries q t)"
proof -
  obtain t1 where t1: "remove_hash_table H Untouched pid t = Inr t1" "table_ok t1" "entries pid t1 = {#}"
      "\<forall>q. q \<noteq> pid \<longrightarrow> entries q t1 = entries q t"
    using remove_ok[OF assms] by blast
  let ?n = "\<lparr>hvalue = pid, htsc = v\<rparr>"
  have e: "entries q (hash_add H ?n pid t1) = (if pid = q then add_mset ?n (entries q t1) else entries q t1)" for q
    using entries_add[of q ?n t1] by simp
  have "table_ok (hash_add H ?n pid t1)"
    using e t1(2,3) placed_add[of hvalue t1 ?n] by (auto simp: table_ok_def)
  with e t1 show ?thesis by (simp add: insert_hash_table_def)
qed

end

sublocale perftop_table \<subseteq> ptab: pid_table "lookup_hash_table H" "remove_hash_table H Untouched"
    "insert_hash_table H Untouched True" table_ok
proof
  fix t pid assume ok: "table_ok t"
  obtain t' where t': "remove_hash_table H Untouched pid t = Inr t'" "table_ok t'" "entries pid t' = {#}"
      "\<forall>q. q \<noteq> pid \<longrightarrow> entries q t' = entries q t"
    using remove_ok[OF ok] by blast
  have "lookup_hash_table H t' = (lookup_hash_table H t)(pid := 0)"
    using t'(3,4) look_entries(1)[OF t'(2)] same_entries_look[OF t'(2) ok] by auto
  with t' show "\<exists>t'. remove_hash_table H Untouched pid t = Inr t' \<and> table_ok t' \<and>
      lookup_hash_table H t' = (lookup_hash_table H t)(pid := 0)" by blast
next
  fix t pid v assume ok: "table_ok t"
  obtain t' where t': "insert_hash_table H Untouched True pid v t = Inr t'" "table_ok t'"
      "entries pid t' = {#\<lparr>hvalue = pid, htsc = v\<rparr>#}" "\<forall>q. q \<noteq> pid \<longrightarrow> entries q t' = entries q t"
    using insert_ok[OF ok] by blast
  have "lookup_hash_table H t' = (lookup_hash_table H t)(pid := v)"
    using t'(3,4) look_entries(2)[OF t'(2)] same_entries_look[OF t'(2) ok] by auto
  with t' show "\<exists>t'. insert_hash_table H Untouched True pid v t = Inr t' \<and> table_ok t' \<and>
      lookup_hash_table H t' = (lookup_hash_table H t)(pid := v)" by blast
qed

interpretation ref_table: perftop_table "ref_hash h" h for h
  by unfold_locales

end
