(* ===== verification/Perftop_Tree.thy ===== *)
theory Perftop_Tree
  imports KernelLib
begin

text \<open>
  The profiler's red-black tree (Assignment 4, part 2, \<open>perftop.c\<close>): for each process the time it
  has spent on the CPU, sorted by that time. Insertion descends by time and rejects a time that
  is already there; look-up and removal by process number walk the whole tree; the removal loops
  call \<open>rb_next\<close> on the node they have just freed.
\<close>

section \<open>Operations\<close>

record myrbtree =
  rvalue :: i32
  rtsc :: u64

text \<open>The descent compares the times; \<open>None\<close> is the early return 0.\<close>

definition insert_rb_tree :: "myrbtree rb_ops \<Rightarrow> myrbtree \<Rightarrow> myrbtree tree \<Rightarrow> int \<times> myrbtree tree" where
  "insert_rb_tree L new t =
     (case link_by rtsc new t of None \<Rightarrow> (0, t) | Some t' \<Rightarrow> (1, rb_insert_color L new t'))"

text \<open>\<open>insert_redblack_trees\<close>: \<open>kmalloc\<close>'s result is used unchecked, the insertion's is ignored.\<close>

definition insert_redblack_trees ::
  "myrbtree rb_ops \<Rightarrow> bool \<Rightarrow> i32 \<Rightarrow> u64 \<Rightarrow> myrbtree tree \<Rightarrow> myrbtree tree res" where
  "insert_redblack_trees L alloc pid tsc t =
     (if alloc then Inr (snd (insert_rb_tree L \<lparr>rvalue = pid, rtsc = tsc\<rparr> t)) else Inl NullDeref)"

fun scan_tsc :: "i32 \<Rightarrow> myrbtree list \<Rightarrow> u64" where
  "scan_tsc pid [] = 0"
| "scan_tsc pid (temp # nodes) = (if rvalue temp = pid then rtsc temp else scan_tsc pid nodes)"

definition lookup_rb_tree :: "myrbtree tree \<Rightarrow> i32 \<Rightarrow> u64" where
  "lookup_rb_tree t pid = scan_tsc pid (inorder t)"

text \<open>
  The loop of \<open>remove_rb_tree\<close>. A matching node is erased and freed, then \<open>rb_next\<close> reads it, with no
  promise where it leads. Not ending would be the value \<open>None\<close>.
\<close>

partial_function (option) remove_loop ::
  "myrbtree rb_ops \<Rightarrow> freed_mem \<Rightarrow> i32 \<Rightarrow> myrbtree option \<Rightarrow> myrbtree tree \<Rightarrow> myrbtree tree res option" where
  "remove_loop L fm pid node t =
     (case node of
        None \<Rightarrow> Some (Inr t)
      | Some temp \<Rightarrow>
          (if rvalue temp = pid then
             (case stale_next L fm temp t of
                Inl e \<Rightarrow> Some (Inl e)
              | Inr node' \<Rightarrow> remove_loop L fm pid node' (rb_erase L temp t))
           else remove_loop L fm pid (rb_next temp t) t))"

definition remove_rb_tree ::
  "myrbtree rb_ops \<Rightarrow> freed_mem \<Rightarrow> i32 \<Rightarrow> myrbtree tree \<Rightarrow> myrbtree tree res option" where
  "remove_rb_tree L fm pid t = remove_loop L fm pid (rb_first t) t"

text \<open>\<open>remove_rb_tree_all\<close>: the count of deleted nodes comes with the tree.\<close>

partial_function (option) erase_loop ::
  "myrbtree rb_ops \<Rightarrow> freed_mem \<Rightarrow> myrbtree option \<Rightarrow> nat \<Rightarrow> myrbtree tree \<Rightarrow> (nat \<times> myrbtree tree) res option" where
  "erase_loop L fm node deleted t =
     (case node of
        None \<Rightarrow> Some (Inr (deleted, t))
      | Some temp \<Rightarrow>
          (case stale_next L fm temp t of
             Inl e \<Rightarrow> Some (Inl e)
           | Inr node' \<Rightarrow> erase_loop L fm node' (Suc deleted) (rb_erase L temp t)))"

definition remove_rb_tree_all ::
  "myrbtree rb_ops \<Rightarrow> freed_mem \<Rightarrow> myrbtree tree \<Rightarrow> (nat \<times> myrbtree tree) res option" where
  "remove_rb_tree_all L fm t = erase_loop L fm (rb_first t) 0 t"

text \<open>The loop of \<open>print_rb_tree\<close>, from the last node backwards, and its \<open>count++ > 8\<close>.\<close>

fun print_loop :: "nat \<Rightarrow> myrbtree list \<Rightarrow> (i32 \<times> u64) list" where
  "print_loop printed [] = []"
| "print_loop printed (temp # nodes) =
     (rvalue temp, rtsc temp) # (if printed > 8 then [] else print_loop (Suc printed) nodes)"

definition print_rb_tree :: "myrbtree tree \<Rightarrow> (i32 \<times> u64) list" where
  "print_rb_tree t = print_loop 0 (rev (inorder t))"

section \<open>The invariant: strictly sorted by time, each process once\<close>

definition by_tsc :: "myrbtree list \<Rightarrow> bool" where
  "by_tsc xs \<longleftrightarrow> by_key rtsc xs"

definition tree_ok :: "myrbtree tree \<Rightarrow> bool" where
  "tree_ok t \<longleftrightarrow> by_tsc (inorder t) \<and> distinct (map rvalue (inorder t))"

text \<open>The abstract contents: the time of each process.\<close>

definition total :: "myrbtree tree \<Rightarrow> i32 \<Rightarrow> u64 option" where
  "total t = map_of (map (\<lambda>n. (rvalue n, rtsc n)) (inorder t))"

lemma by_tsc_append: "by_tsc (xs @ ys) \<longleftrightarrow>
    by_tsc xs \<and> by_tsc ys \<and> (\<forall>x\<in>set xs. \<forall>y\<in>set ys. rtsc x < rtsc y)"
  by (simp add: by_tsc_def by_key_append)

lemma by_tsc_Cons: "by_tsc (x # xs) \<longleftrightarrow> (\<forall>y\<in>set xs. rtsc x < rtsc y) \<and> by_tsc xs"
  by (simp add: by_tsc_def by_key_Cons)

lemma tree_ok_distinct: "tree_ok t \<Longrightarrow> distinct (inorder t)"
  by (simp add: tree_ok_def distinct_map)

lemma tree_ok_Leaf [simp]: "tree_ok Leaf"
  by (simp add: tree_ok_def by_tsc_def by_key_def)

lemma total_Some:
  assumes "tree_ok t"
  shows "total t pid = Some v \<longleftrightarrow> (\<exists>n \<in> set (inorder t). rvalue n = pid \<and> rtsc n = v)"
proof -
  have "distinct (map fst (map (\<lambda>n. (rvalue n, rtsc n)) (inorder t)))"
    using assms by (simp add: tree_ok_def comp_def)
  from map_of_eq_Some_iff[OF this, of pid v] show ?thesis by (auto simp: total_def)
qed

lemma lookup_total: "lookup_rb_tree t pid = (case total t pid of None \<Rightarrow> 0 | Some v \<Rightarrow> v)"
proof -
  have "scan_tsc pid xs = (case map_of (map (\<lambda>n. (rvalue n, rtsc n)) xs) pid of None \<Rightarrow> 0 | Some v \<Rightarrow> v)" for xs
    by (induction xs) auto
  then show ?thesis by (simp add: lookup_rb_tree_def total_def)
qed

section \<open>Insertion\<close>

lemma map_of_middle:
  "a \<notin> fst ` set xs \<Longrightarrow> a \<notin> fst ` set ys \<Longrightarrow> map_of (xs @ (a, v) # ys) = (map_of (xs @ ys))(a \<mapsto> v)"
  by (induction xs) (auto simp: fun_upd_twist)

locale profile_tree = rbtree_lib L for L :: "myrbtree rb_ops"
begin

text \<open>A new process with a new time is added; an equal time is rejected and changes nothing.\<close>

lemma insert_total:
  assumes ok: "tree_ok t" and new: "total t pid = None"
  shows "\<exists>t'. insert_redblack_trees L True pid v t = Inr t' \<and> tree_ok t'
    \<and> total t' = (if \<exists>q. total t q = Some v then total t else (total t)(pid \<mapsto> v))"
proof -
  let ?n = "\<lparr>rvalue = pid, rtsc = v\<rparr>"
  have s: "by_tsc (inorder t)" using ok by (simp add: tree_ok_def)
  have pid: "pid \<notin> rvalue ` set (inorder t)"
    using new by (auto simp: total_def map_of_eq_None_iff image_image simp del: set_inorder)
  have dup: "(\<exists>q. total t q = Some v) \<longleftrightarrow> link_by rtsc ?n t = None"
    using link_by_None[of rtsc t ?n] s total_Some[OF ok] by (auto simp: by_tsc_def)
  show ?thesis
  proof (cases "link_by rtsc ?n t")
    case None
    then show ?thesis using dup ok by (simp add: insert_redblack_trees_def insert_rb_tree_def)
  next
    case (Some t1)
    obtain xs ys where io: "inorder t = xs @ ys" "inorder t1 = xs @ ?n # ys"
        "\<forall>x\<in>set xs. rtsc x < v" "\<forall>y\<in>set ys. v < rtsc y"
      using link_by_Some[of rtsc t ?n t1] s Some by (auto simp: by_tsc_def)
    let ?t = "rb_insert_color L ?n t1"
    have i: "inorder ?t = xs @ ?n # ys" using io(2) by (simp add: inorder_insert_color)
    have nin: "pid \<notin> rvalue ` set xs" "pid \<notin> rvalue ` set ys" using pid io(1) by (auto simp del: set_inorder)
    have "tree_ok ?t" using ok io nin i
      by (auto simp: tree_ok_def by_tsc_append by_tsc_Cons simp del: set_inorder)
    moreover have "total ?t = (total t)(pid \<mapsto> v)"
      using map_of_middle[of pid "map (\<lambda>n. (rvalue n, rtsc n)) xs" "map (\<lambda>n. (rvalue n, rtsc n)) ys" v] nin
      by (simp add: total_def i io(1) image_image)
    ultimately show ?thesis using Some dup
      by (simp add: insert_redblack_trees_def insert_rb_tree_def)
  qed
qed

end

section \<open>Removal\<close>

text \<open>The walk passes over nodes of other processes.\<close>

lemma walk_over:
  assumes "distinct (inorder t)"
  shows "inorder t = us @ ws @ vs \<Longrightarrow> \<forall>n\<in>set ws. rvalue n \<noteq> pid \<Longrightarrow>
    remove_loop L fm pid (first_of (ws @ vs)) t = remove_loop L fm pid (first_of vs) t"
proof (induction ws arbitrary: us)
  case Nil
  then show ?case by simp
next
  case (Cons w ws)
  have "rb_next w t = first_of (ws @ vs)"
    using rb_next_first_of[OF _ assms, of us w "ws @ vs"] Cons.prems(1) by simp
  then have "remove_loop L fm pid (Some w) t = remove_loop L fm pid (first_of (ws @ vs)) t"
    using Cons.prems(2) by (simp add: remove_loop.simps[of L fm pid "Some w"])
  then show ?case using Cons.IH[of "us @ [w]"] Cons.prems by simp
qed

lemma remove_loop_None [simp]: "remove_loop L fm pid None t = Some (Inr t)"
  by (simp add: remove_loop.simps)

lemma walk_none:
  assumes "distinct (inorder t)" and "\<forall>n\<in>set (inorder t). rvalue n \<noteq> pid" and "\<forall>y. node = Some y \<longrightarrow> y \<in> set (inorder t)"
  shows "remove_loop L fm pid node t = Some (Inr t)"
proof (cases node)
  case (Some y)
  then have "y \<in> set (inorder t)" using assms(3) by simp
  then obtain us vs where io: "inorder t = us @ y # vs" using split_list by fastforce
  have "\<forall>n\<in>set (y # vs). rvalue n \<noteq> pid" using assms(2) io by (auto simp del: set_inorder)
  then show ?thesis using walk_over[OF assms(1), of us "y # vs" "[]"] io Some by simp
qed simp

lemma map_of_filter_other:
  "map_of (map (\<lambda>n. (rvalue n, rtsc n)) (filter (\<lambda>n. rvalue n \<noteq> pid) xs))
     = (map_of (map (\<lambda>n. (rvalue n, rtsc n)) xs))(pid := None)"
  by (induction xs) auto

lemma tree_ok_filter:
  assumes "tree_ok t" and "inorder t' = filter P (inorder t)"
  shows "tree_ok t'"
  using assms by (simp add: tree_ok_def by_tsc_def by_key_def sorted_wrt_filter distinct_map_filter)

text \<open>The read of the process's freed node, if it has one, goes well.\<close>

definition removal_readable :: "myrbtree rb_ops \<Rightarrow> freed_mem \<Rightarrow> i32 \<Rightarrow> myrbtree tree \<Rightarrow> bool" where
  "removal_readable L fm pid t \<longleftrightarrow>
     (\<forall>x \<in> set (inorder t). rvalue x = pid \<longrightarrow> stale_next L fm x t \<noteq> Inl UseAfterFree)"

lemma removal_readableI: "stale_readable L fm \<Longrightarrow> tree_ok t \<Longrightarrow> removal_readable L fm pid t"
  using stale_readableD[of L fm _ t] tree_ok_distinct[of t]
  by (fastforce simp: removal_readable_def simp del: set_inorder)

context profile_tree
begin

text \<open>The loop ends: the process is gone, or the read of its freed node was a fault.\<close>

lemma remove_rb_tree_ok:
  assumes ok: "tree_ok t"
  shows "\<exists>t'. remove_rb_tree L fm pid t = Some (if removal_readable L fm pid t then Inr t' else Inl UseAfterFree)
    \<and> tree_ok t' \<and> total t' = (total t)(pid := None)"
proof (cases "\<exists>n\<in>set (inorder t). rvalue n = pid")
  case False
  note d = tree_ok_distinct[OF ok]
  have "rb_first t = Some y \<Longrightarrow> y \<in> set (inorder t)" for y
    by (cases "inorder t") (simp_all add: rb_first_def del: set_inorder)
  then have "remove_rb_tree L fm pid t = Some (Inr t)"
    unfolding remove_rb_tree_def using walk_none[OF d] False by metis
  moreover have "removal_readable L fm pid t" using False by (auto simp: removal_readable_def simp del: set_inorder)
  moreover have f: "filter (\<lambda>n. rvalue n \<noteq> pid) (inorder t) = inorder t"
    using False by (simp add: filter_id_conv)
  ultimately show ?thesis using ok map_of_filter_other[of pid "inorder t"] by (intro exI[of _ t]) (simp add: total_def)
next
  case True
  note d = tree_ok_distinct[OF ok]
  obtain us x vs where io: "inorder t = us @ x # vs" "rvalue x = pid" "\<forall>n\<in>set us. rvalue n \<noteq> pid"
    using split_list_first_prop[OF True] by blast
  have "distinct (map rvalue (us @ x # vs))" using ok io(1) by (simp add: tree_ok_def)
  then have vs: "\<forall>n\<in>set vs. rvalue n \<noteq> pid" using io(2) by (metis distinct.simps(2) distinct_append image_eqI list.set_map list.simps(9) map_append)
  let ?t = "rb_erase L x t"
  have x: "x \<in> set (inorder t)" using io(1) by simp
  have e: "inorder ?t = us @ vs" using inorder_erase[OF x d] d io(1) by (simp add: remove1_append)
  have f: "inorder ?t = filter (\<lambda>n. rvalue n \<noteq> pid) (inorder t)"
    unfolding e io(1) using io(2,3) vs by simp
  have start: "remove_rb_tree L fm pid t = remove_loop L fm pid (Some x) t"
    using walk_over[OF d, of "[]" us "x # vs"] io by (simp add: remove_rb_tree_def rb_first_first_of)
  have only: "removal_readable L fm pid t \<longleftrightarrow> stale_next L fm x t \<noteq> Inl UseAfterFree"
    unfolding removal_readable_def io(1) using io(2,3) vs by auto
  have "remove_rb_tree L fm pid t = Some (if removal_readable L fm pid t then Inr ?t else Inl UseAfterFree)"
  proof (cases rule: stale_next_cases[of L fm x t])
    case (1 r)
    have "remove_loop L fm pid r ?t = Some (Inr ?t)"
    proof (rule walk_none)
      show "distinct (inorder ?t)" using d io(1) e by simp
      show "\<forall>n\<in>set (inorder ?t). rvalue n \<noteq> pid" using io(3) vs e by (auto simp del: set_inorder)
      show "\<forall>y. r = Some y \<longrightarrow> y \<in> set (inorder ?t)" using stale_next_Inr[OF 1] by blast
    qed
    then show ?thesis using start only 1 io(2) by (simp add: remove_loop.simps[of L fm pid "Some x"])
  next
    case 2
    then show ?thesis using start only io(2) by (simp add: remove_loop.simps[of L fm pid "Some x"])
  qed
  moreover have "total ?t = (total t)(pid := None)" unfolding total_def f by (rule map_of_filter_other)
  ultimately show ?thesis using tree_ok_filter[OF ok f] by blast
qed

text \<open>
  The loop over all nodes ends wherever the freed nodes lead: with a fault, or with the count of the
  nodes it took out; the others are still in the tree.
\<close>

lemma erase_loop_ends:
  "distinct (inorder t) \<Longrightarrow> \<forall>y. node = Some y \<longrightarrow> y \<in> set (inorder t) \<Longrightarrow>
    (erase_loop L fm node deleted t = Some (Inl UseAfterFree) \<and> \<not> stale_readable L fm)
    \<or> (\<exists>k t'. erase_loop L fm node deleted t = Some (Inr (k, t')) \<and> set (inorder t') \<subseteq> set (inorder t)
         \<and> k + length (inorder t') = deleted + length (inorder t))"
proof (induction "length (inorder t)" arbitrary: t node deleted rule: less_induct)
  case less
  show ?case
  proof (cases node)
    case None
    then show ?thesis by (simp add: erase_loop.simps)
  next
    case (Some x)
    let ?t = "rb_erase L x t"
    have x: "x \<in> set (inorder t)" using less.prems(2) Some by blast
    have e: "inorder ?t = remove1 x (inorder t)" by (rule inorder_erase[OF x less.prems(1)])
    have len: "Suc (length (inorder ?t)) = length (inorder t)"
      unfolding e length_remove1 using x length_pos_if_in_set[OF x] by (simp del: set_inorder)
    have sub: "set (inorder ?t) \<subseteq> set (inorder t)" unfolding e by (rule set_remove1_subset)
    show ?thesis
    proof (cases rule: stale_next_cases[of L fm x t])
      case (1 r)
      have d: "distinct (inorder ?t)" unfolding e using less.prems(1) by (rule distinct_remove1)
      have r: "\<forall>y. r = Some y \<longrightarrow> y \<in> set (inorder ?t)" using stale_next_Inr[OF 1] by blast
      have step: "erase_loop L fm node deleted t = erase_loop L fm r (Suc deleted) ?t"
        using 1 by (simp add: Some erase_loop.simps[of L fm "Some x"])
      have "length (inorder ?t) < length (inorder t)" using len by simp
      from less.hyps[OF this d r, of "Suc deleted"] show ?thesis
      proof (elim disjE exE conjE)
        fix k t' assume "erase_loop L fm r (Suc deleted) ?t = Some (Inr (k, t'))" "set (inorder t') \<subseteq> set (inorder ?t)"
          "k + length (inorder t') = Suc deleted + length (inorder ?t)"
        then show ?thesis using step len sub by (intro disjI2 exI[of _ k] exI[of _ t']) (simp del: set_inorder)
      next
        assume "erase_loop L fm r (Suc deleted) ?t = Some (Inl UseAfterFree)" "\<not> stale_readable L fm"
        then show ?thesis using step by simp
      qed
    next
      case 2
      then have "\<not> stale_readable L fm" using stale_readableD[OF _ x less.prems(1)] by fastforce
      then show ?thesis using 2 by (simp add: Some erase_loop.simps[of L fm "Some x"])
    qed
  qed
qed

lemma erase_loop_all:
  "stale_successor L \<Longrightarrow> distinct (inorder t) \<Longrightarrow>
    \<exists>t'. erase_loop L Untouched (first_of (inorder t)) deleted t = Some (Inr (deleted + length (inorder t), t'))
      \<and> inorder t' = []"
proof (induction "inorder t" arbitrary: t deleted)
  case Nil
  from Nil.hyps[symmetric] show ?case by (simp add: erase_loop.simps)
next
  case (Cons x xs)
  note io = Cons.hyps(2)[symmetric]
  let ?t = "rb_erase L x t"
  have e: "inorder ?t = xs" using inorder_erase[of x t] Cons.prems(2) io by (simp del: set_inorder)
  have "rb_next_erased L x t = first_of xs"
    using Cons.prems io by (simp add: stale_successor_def first_of_def)
  then have "stale_next L Untouched x t = Inr (first_of xs)"
    using e by (cases xs) (simp_all add: stale_next_def del: set_inorder)
  then have "erase_loop L Untouched (first_of (inorder t)) deleted t
      = erase_loop L Untouched (first_of (inorder ?t)) (Suc deleted) ?t"
    using io e by (simp add: erase_loop.simps[of L Untouched "Some x"])
  then show ?case using Cons.hyps(1)[of ?t "Suc deleted"] Cons.prems io e by simp
qed

lemma remove_rb_tree_all_ok:
  assumes "tree_ok t"
  shows "(remove_rb_tree_all L fm t = Some (Inl UseAfterFree) \<and> \<not> stale_readable L fm)
    \<or> (\<exists>k t'. remove_rb_tree_all L fm t = Some (Inr (k, t')) \<and> set (inorder t') \<subseteq> set (inorder t)
         \<and> k + length (inorder t') = length (inorder t) \<and> (stale_successor L \<and> fm = Untouched \<longrightarrow> t' = Leaf))"
proof -
  note d = tree_ok_distinct[OF assms]
  have f: "\<forall>y. first_of (inorder t) = Some y \<longrightarrow> y \<in> set (inorder t)"
    by (cases "inorder t") (simp_all del: set_inorder)
  have "t' = Leaf" if "stale_successor L" "fm = Untouched" "erase_loop L fm (first_of (inorder t)) 0 t = Some (Inr (k, t'))" for k t'
    using erase_loop_all[OF that(1) d, of 0] that(2,3) by (auto simp: eq_inorder_Nil)
  with erase_loop_ends[OF d f, of fm 0] show ?thesis
    by (simp add: remove_rb_tree_all_def rb_first_first_of) blast
qed

end

interpretation ref_profile: profile_tree ref_rb
  by unfold_locales

section \<open>Printing\<close>

lemma print_loop_take:
  "printed \<le> 9 \<Longrightarrow> print_loop printed xs = map (\<lambda>n. (rvalue n, rtsc n)) (take (10 - printed) xs)"
  by (induction xs arbitrary: printed) (auto simp: Suc_diff_le not_less take_Cons' le_Suc_eq)

lemma print_rb_tree_eq:
  "print_rb_tree t = map (\<lambda>n. (rvalue n, rtsc n)) (take 10 (rev (inorder t)))"
  by (simp add: print_rb_tree_def print_loop_take)

end
