(* ===== verification/Perftop.thy ===== *)
theory Perftop
  imports Perftop_Table Perftop_Tree
begin

text \<open>
  The profiler module (Assignment 4, part 2, \<open>perftop.c\<close>): the two handlers of the kretprobe on
  \<open>pick_next_task_fair\<close>, the proc file and the exit function, over the hash table of start times
  and the tree of totals; the specification of a context switch on the two maps they stand for,
  and the proof that the return handler implements it.
\<close>

section \<open>State\<close>

record 't perftop =
  pre_count :: i32
  post_count :: i32
  context_switch_count :: i32
  my_lock :: bool
  myhashtable :: 't
  myroot :: "myrbtree tree"

text \<open>A \<open>task_struct\<close>: its address and its process number.\<close>

record task =
  task_addr :: nat
  task_pid :: i32

record my_data =
  prev :: "task option"

text \<open>The kernel services the module is linked with, and what they do.\<close>

record 't services =
  hash_svc :: "(myhashnode, 't) hash_ops"
  rb_svc :: "myrbtree rb_ops"
  freed :: freed_mem

section \<open>The lock\<close>

definition spin_lock :: "'t perftop \<Rightarrow> 't perftop res" where
  "spin_lock s = (if my_lock s then Inl Deadlock else Inr (s\<lparr>my_lock := True\<rparr>))"

definition spin_unlock :: "'t perftop \<Rightarrow> 't perftop" where
  "spin_unlock s = s\<lparr>my_lock := False\<rparr>"

section \<open>The handlers\<close>

text \<open>
  \<open>entry_pick_next_fair\<close>: \<open>mm\<close> says whether the current task has an address space; the value
  returned and the instance's data, which keeps what an earlier call left when \<open>regs->si\<close> is NULL.
\<close>

definition entry_pick_next_fair ::
  "bool \<Rightarrow> task option \<Rightarrow> my_data option \<Rightarrow> 't perftop \<Rightarrow> int \<times> my_data option \<times> 't perftop" where
  "entry_pick_next_fair mm regs_si ri_data s =
     (if \<not> mm then (1, ri_data, s)
      else
        let d = (if ri_data \<noteq> None \<and> regs_si \<noteq> None
                 then map_option (\<lambda>x. x\<lparr>prev := regs_si\<rparr>) ri_data else ri_data)
        in (0, d, s\<lparr>pre_count := pre_count s + 1\<rparr>))"

text \<open>
  The body of the return handler's \<open>if\<close>, for the task switched out, the task switched in and
  the value \<open>now\<close> of the time stamp counter; the two booleans say whether the two calls of
  \<open>kmalloc\<close> succeed.
\<close>

definition account ::
  "'t services \<Rightarrow> bool \<Rightarrow> bool \<Rightarrow> u64 \<Rightarrow> i32 \<Rightarrow> i32 \<Rightarrow> 't perftop \<Rightarrow> 't perftop res option" where
  "account K alloc_rb alloc_hash now prev_pid next_pid s =
     (let old = lookup_hash_table (hash_svc K) (myhashtable s) prev_pid in
      run_bind
        (if old \<noteq> 0 then
           run_bind (Some (remove_hash_table (hash_svc K) (freed K) prev_pid (myhashtable s))) (\<lambda>tb.
           run_bind (Some (spin_lock (s\<lparr>myhashtable := tb\<rparr>))) (\<lambda>s1.
           let sum = lookup_rb_tree (myroot s1) prev_pid; sum = sum + now - old in
           run_bind (remove_rb_tree (rb_svc K) (freed K) prev_pid (myroot s1)) (\<lambda>t1.
           run_bind (Some (insert_redblack_trees (rb_svc K) alloc_rb prev_pid sum t1)) (\<lambda>t2.
           Some (Inr (spin_unlock (s1\<lparr>myroot := t2\<rparr>)))))))
         else Some (Inr s))
      (\<lambda>s2.
        run_bind (Some (insert_hash_table (hash_svc K) (freed K) alloc_hash next_pid now (myhashtable s2))) (\<lambda>tb.
        Some (Inr (s2\<lparr>myhashtable := tb, context_switch_count := context_switch_count s2 + 1\<rparr>)))))"

definition ret_pick_next_fair ::
  "'t services \<Rightarrow> bool \<Rightarrow> bool \<Rightarrow> u64 \<Rightarrow> my_data option \<Rightarrow> task option \<Rightarrow> 't perftop \<Rightarrow> 't perftop res option" where
  "ret_pick_next_fair K alloc_rb alloc_hash now ri_data regs_ax s =
     (let s = s\<lparr>post_count := post_count s + 1\<rparr> in
      case ri_data of
        None \<Rightarrow> Some (Inr s)
      | Some d \<Rightarrow>
          (case (prev d, regs_ax) of
             (Some p, Some n) \<Rightarrow>
               if task_addr p \<noteq> task_addr n
               then account K alloc_rb alloc_hash now (task_pid p) (task_pid n) s
               else Some (Inr s)
           | _ \<Rightarrow> Some (Inr s)))"

section \<open>The proc file, loading and unloading\<close>

definition perftop_show :: "'t perftop \<Rightarrow> ((i32 \<times> i32 \<times> i32) \<times> (i32 \<times> u64) list \<times> 't perftop) res" where
  "perftop_show s =
     rbind (spin_lock s) (\<lambda>s1.
     Inr ((pre_count s, post_count s, context_switch_count s), print_rb_tree (myroot s1), spin_unlock s1))"

text \<open>\<open>perftop_init\<close> with the result of \<open>register_kretprobe\<close>; the static data is zero.\<close>

definition perftop_init :: "'t services \<Rightarrow> int \<Rightarrow> int \<times> 't perftop" where
  "perftop_init K ret =
     (let s = \<lparr>pre_count = 0, post_count = 0, context_switch_count = 0, my_lock = False,
               myhashtable = hash_init (hash_svc K), myroot = Leaf\<rparr>
      in (if ret < 0 then - 1 else 0, s))"

text \<open>\<open>perftop_exit\<close>: the two counts it prints come with the state.\<close>

definition perftop_exit :: "'t services \<Rightarrow> 't perftop \<Rightarrow> (nat \<times> nat \<times> 't perftop) res option" where
  "perftop_exit K s =
     run_bind (Some (remove_hash_table_all (hash_svc K) (freed K) (myhashtable s))) (\<lambda>(c1, tb).
     run_bind (remove_rb_tree_all (rb_svc K) (freed K) (myroot s)) (\<lambda>(c2, t).
     Some (Inr (c1, c2, s\<lparr>myhashtable := tb, myroot := t\<rparr>))))"

section \<open>What a context switch is\<close>

text \<open>The start time of each running process (0: none) and the total of each known process.\<close>

type_synonym times = "(i32 \<Rightarrow> u64) \<times> (i32 \<Rightarrow> u64 option)"

text \<open>
  The switch from \<open>p\<close> to \<open>n\<close> at \<open>now\<close>. A total that another process already has is not stored:
  \<open>p\<close> then has no total any more.
\<close>

definition charge :: "i32 \<Rightarrow> u64 \<Rightarrow> (i32 \<Rightarrow> u64 option) \<Rightarrow> (i32 \<Rightarrow> u64 option)" where
  "charge p v tot = (if \<exists>q. q \<noteq> p \<and> tot q = Some v then tot(p := None) else tot(p \<mapsto> v))"

definition total_or_0 :: "u64 option \<Rightarrow> u64" where
  "total_or_0 x = (case x of None \<Rightarrow> 0 | Some v \<Rightarrow> v)"

definition switch_spec :: "u64 \<Rightarrow> i32 \<Rightarrow> i32 \<Rightarrow> times \<Rightarrow> times" where
  "switch_spec now p n = (\<lambda>(start, tot).
     if start p \<noteq> 0
     then ((start(p := 0))(n := now), charge p (total_or_0 (tot p) + now - start p) tot)
     else (start(n := now), tot))"

definition times_of :: "'t services \<Rightarrow> 't perftop \<Rightarrow> times" where
  "times_of K s = (lookup_hash_table (hash_svc K) (myhashtable s), total (myroot s))"

section \<open>The return handler implements it\<close>

text \<open>
  What a call for the switch from \<open>p\<close> to \<open>n\<close> reads of objects it has freed: the table's entry of \<open>p\<close> and
  the tree's node of \<open>p\<close>, if \<open>p\<close> has a start time, and the table's entry of \<open>n\<close>. This is whether all
  these reads go well.
\<close>

definition freed_reads_ok :: "'t services \<Rightarrow> i32 \<Rightarrow> i32 \<Rightarrow> 't perftop \<Rightarrow> bool" where
  "freed_reads_ok K p n s \<longleftrightarrow>
     (let started = (lookup_hash_table (hash_svc K) (myhashtable s) p \<noteq> 0) in
      (freed K = Trapped \<longrightarrow> \<not> started \<and> \<not> has_entry (hash_svc K) (myhashtable s) n) \<and>
      (started \<longrightarrow> removal_readable (rb_svc K) (freed K) p (myroot s)))"

locale profiler =
  tab: perftop_table "hash_svc K" bucket + tree: profile_tree "rb_svc K"
  for K :: "'t services" and bucket
begin

definition perftop_ok :: "'t perftop \<Rightarrow> bool" where
  "perftop_ok s \<longleftrightarrow> tab.table_ok (myhashtable s) \<and> tree_ok (myroot s) \<and> \<not> my_lock s"

text \<open>Without a start time: only the entry of the task switched in changes.\<close>

lemma account_first:
  assumes ok: "perftop_ok s" and start: "lookup_hash_table (hash_svc K) (myhashtable s) p = 0"
  shows "\<exists>s'. account K a True now p n s = Some (if freed_reads_ok K p n s then Inr s' else Inl UseAfterFree) \<and> perftop_ok s'
    \<and> times_of K s' = switch_spec now p n (times_of K s)
    \<and> pre_count s' = pre_count s \<and> post_count s' = post_count s
    \<and> context_switch_count s' = context_switch_count s + 1"
proof -
  have okT: "tab.table_ok (myhashtable s)" using ok by (simp add: perftop_ok_def)
  obtain tb where tb: "insert_hash_table (hash_svc K) Untouched True n now (myhashtable s) = Inr tb"
      "tab.table_ok tb" "lookup_hash_table (hash_svc K) tb = (lookup_hash_table (hash_svc K) (myhashtable s))(n := now)"
    using tab.ptab.ins_ok[OF okT] by blast
  let ?s = "s\<lparr>myhashtable := tb, context_switch_count := context_switch_count s + 1\<rparr>"
  have run: "account K a True now p n s = Some (if freed_reads_ok K p n s then Inr ?s else Inl UseAfterFree)"
    using start tb(1) tab.insert_any[OF okT, of "freed K" True n now]
    by (cases "freed K"; cases "has_entry (hash_svc K) (myhashtable s) n") (simp_all add: account_def freed_reads_ok_def)
  have "perftop_ok ?s" using ok tb(2) by (simp add: perftop_ok_def)
  moreover have "times_of K ?s = switch_spec now p n (times_of K s)"
    using start tb(3) by (simp add: times_of_def switch_spec_def)
  ultimately show ?thesis using run by (intro exI[of _ ?s]) simp
qed

text \<open>With a start time: its entry is removed, its total charged; what is freed on the way is read.\<close>

lemma account_again:
  assumes ok: "perftop_ok s" and start: "lookup_hash_table (hash_svc K) (myhashtable s) p \<noteq> 0"
  shows "\<exists>s'. account K True True now p n s = Some (if freed_reads_ok K p n s then Inr s' else Inl UseAfterFree) \<and> perftop_ok s'
    \<and> times_of K s' = switch_spec now p n (times_of K s)
    \<and> pre_count s' = pre_count s \<and> post_count s' = post_count s
    \<and> context_switch_count s' = context_switch_count s + 1"
proof -
  let ?look = "lookup_hash_table (hash_svc K)"
  let ?old = "?look (myhashtable s) p"
  let ?sum = "lookup_rb_tree (myroot s) p + now - ?old"
  have okT: "tab.table_ok (myhashtable s)" and okR: "tree_ok (myroot s)" and unlocked: "\<not> my_lock s"
    using ok by (simp_all add: perftop_ok_def)
  obtain tb where tb: "remove_hash_table (hash_svc K) Untouched p (myhashtable s) = Inr tb"
      "tab.table_ok tb" "?look tb = (?look (myhashtable s))(p := 0)"
    using tab.ptab.rem_ok[OF okT] by blast
  obtain t1 where t1: "remove_rb_tree (rb_svc K) (freed K) p (myroot s) =
        Some (if removal_readable (rb_svc K) (freed K) p (myroot s) then Inr t1 else Inl UseAfterFree)" "tree_ok t1"
      "total t1 = (total (myroot s))(p := None)"
    using tree.remove_rb_tree_ok[OF okR] by blast
  obtain t2 where t2: "insert_redblack_trees (rb_svc K) True p ?sum t1 = Inr t2" "tree_ok t2"
      "total t2 = (if \<exists>q. total t1 q = Some ?sum then total t1 else (total t1)(p \<mapsto> ?sum))"
    using tree.insert_total[OF t1(2), of p ?sum] t1(3) by auto
  obtain tb2 where tb2: "insert_hash_table (hash_svc K) Untouched True n now tb = Inr tb2"
      "tab.table_ok tb2" "?look tb2 = (?look tb)(n := now)"
    using tab.ptab.ins_ok[OF tb(2)] by blast
  have tot: "total t2 = charge p ?sum (total (myroot s))"
    using t1(3) t2(3) by (auto simp: charge_def)
  have entry: "has_entry (hash_svc K) (myhashtable s) p"
    using start tab.look_entries(1)[OF okT] by (auto simp: tab.has_entry_entries)
  let ?s = "s\<lparr>myhashtable := tb2, my_lock := False, myroot := t2, context_switch_count := context_switch_count s + 1\<rparr>"
  have run: "account K True True now p n s = Some (if freed_reads_ok K p n s then Inr ?s else Inl UseAfterFree)"
  proof (cases "freed K")
    case Trapped
    then have "remove_hash_table (hash_svc K) (freed K) p (myhashtable s) = Inl UseAfterFree"
      using tab.remove_any[OF okT, of Trapped p] entry by simp
    then show ?thesis using Trapped start by (simp add: account_def freed_reads_ok_def)
  next
    case Untouched
    then show ?thesis using start tb t1(1) t2(1) tb2(1) unlocked
      by (simp add: account_def freed_reads_ok_def spin_lock_def spin_unlock_def Let_def)
  qed
  show ?thesis using run tb t2(2) tb2 tot start
    by (intro exI[of _ ?s]) (simp add: perftop_ok_def times_of_def switch_spec_def lookup_total total_or_0_def)
qed

lemma account_refines:
  assumes ok: "perftop_ok s"
  shows "\<exists>s'. account K True True now p n s = Some (if freed_reads_ok K p n s then Inr s' else Inl UseAfterFree) \<and> perftop_ok s'
    \<and> times_of K s' = switch_spec now p n (times_of K s)
    \<and> pre_count s' = pre_count s \<and> post_count s' = post_count s
    \<and> context_switch_count s' = context_switch_count s + 1"
  using account_first[OF ok] account_again[OF ok]
  by (cases "lookup_hash_table (hash_svc K) (myhashtable s) p = 0") blast+

lemma ret_refines:
  assumes "perftop_ok s" and "task_addr p \<noteq> task_addr n"
  shows "\<exists>s'. ret_pick_next_fair K True True now (Some \<lparr>prev = Some p\<rparr>) (Some n) s
      = Some (if freed_reads_ok K (task_pid p) (task_pid n) s then Inr s' else Inl UseAfterFree)
    \<and> perftop_ok s' \<and> times_of K s' = switch_spec now (task_pid p) (task_pid n) (times_of K s)
    \<and> pre_count s' = pre_count s \<and> post_count s' = post_count s + 1
    \<and> context_switch_count s' = context_switch_count s + 1"
proof -
  let ?s = "s\<lparr>post_count := post_count s + 1\<rparr>"
  have "perftop_ok ?s" using assms(1) by (simp add: perftop_ok_def)
  moreover have "freed_reads_ok K x y ?s = freed_reads_ok K x y s" for x y by (simp add: freed_reads_ok_def)
  ultimately show ?thesis using account_refines[of ?s now "task_pid p" "task_pid n"] assms(2)
    by (simp add: ret_pick_next_fair_def times_of_def)
qed

text \<open>A kernel in which all reads of freed objects go well never faults here.\<close>

lemma freed_reads_okI:
  assumes "stale_readable (rb_svc K) (freed K)" and "perftop_ok s"
  shows "freed_reads_ok K p n s"
  using removal_readableI[OF assms(1)] assms by (cases "freed K") (simp_all add: freed_reads_ok_def perftop_ok_def)

text \<open>An allocation that fails, where the reads before it go well.\<close>

lemma account_oom_tree:
  assumes ok: "perftop_ok s" and start: "lookup_hash_table (hash_svc K) (myhashtable s) p \<noteq> 0"
    and reads: "freed_reads_ok K p n s"
  shows "account K False a now p n s = Some (Inl NullDeref)"
proof -
  have okT: "tab.table_ok (myhashtable s)" and okR: "tree_ok (myroot s)" and unlocked: "\<not> my_lock s"
    using ok by (simp_all add: perftop_ok_def)
  have fm: "freed K = Untouched" "removal_readable (rb_svc K) Untouched p (myroot s)"
    using reads start by (cases "freed K"; simp add: freed_reads_ok_def)+
  obtain tb where "remove_hash_table (hash_svc K) Untouched p (myhashtable s) = Inr tb"
    using tab.ptab.rem_ok[OF okT] by blast
  moreover obtain t1 where "remove_rb_tree (rb_svc K) Untouched p (myroot s) = Some (Inr t1)"
    using tree.remove_rb_tree_ok[OF okR, of Untouched p] fm(2) by auto
  ultimately show ?thesis using start unlocked fm(1)
    by (simp add: account_def spin_lock_def insert_redblack_trees_def Let_def)
qed

lemma account_oom_hash:
  assumes ok: "perftop_ok s" and reads: "freed_reads_ok K p n s"
  shows "account K a False now p n s = Some (Inl NullDeref)"
proof (cases "lookup_hash_table (hash_svc K) (myhashtable s) p = 0")
  case True
  have okT: "tab.table_ok (myhashtable s)" using ok by (simp add: perftop_ok_def)
  then obtain tb where "remove_hash_table (hash_svc K) Untouched n (myhashtable s) = Inr tb"
    using tab.ptab.rem_ok by blast
  then have "insert_hash_table (hash_svc K) (freed K) False n now (myhashtable s) = Inl NullDeref"
    using reads True tab.insert_any[OF okT, of "freed K" False n now]
    by (auto simp: freed_reads_ok_def insert_hash_table_def)
  then show ?thesis using True by (simp add: account_def)
next
  case False
  show ?thesis
  proof (cases a)
    case a: True
    have okT: "tab.table_ok (myhashtable s)" and okR: "tree_ok (myroot s)" and unlocked: "\<not> my_lock s"
      using ok by (simp_all add: perftop_ok_def)
    have fm: "freed K = Untouched" "removal_readable (rb_svc K) Untouched p (myroot s)"
      using reads False by (cases "freed K"; simp add: freed_reads_ok_def)+
    obtain tb where tb: "remove_hash_table (hash_svc K) Untouched p (myhashtable s) = Inr tb" "tab.table_ok tb"
      using tab.ptab.rem_ok[OF okT] by blast
    obtain tb2 where tb2: "remove_hash_table (hash_svc K) Untouched n tb = Inr tb2"
      using tab.ptab.rem_ok[OF tb(2)] by blast
    obtain t1 where t1: "remove_rb_tree (rb_svc K) Untouched p (myroot s) = Some (Inr t1)"
      using tree.remove_rb_tree_ok[OF okR, of Untouched p] fm(2) by auto
    show ?thesis using False a tb tb2 t1 unlocked fm(1)
      by (simp add: account_def spin_lock_def spin_unlock_def insert_redblack_trees_def
          insert_hash_table_def Let_def)
  qed (use account_oom_tree[OF ok False reads] in simp)
qed

lemma init_ok: "perftop_ok (snd (perftop_init K r)) \<and> times_of K (snd (perftop_init K r)) = ((\<lambda>_. 0), (\<lambda>_. None))"
  using tab.look_entries(1)[OF tab.table_ok_init] tab.table_ok_init
  by (auto simp: perftop_init_def perftop_ok_def times_of_def total_def tab.entries_def tab.possible_init)

end

definition ref_services :: "(i32 \<times> myhashnode) list services" where
  "ref_services = \<lparr>hash_svc = ref_hash (\<lambda>k. unat k mod 65536), rb_svc = ref_rb, freed = Untouched\<rparr>"

interpretation ref_profiler: profiler ref_services "\<lambda>k. unat k mod 65536"
  by (rule profiler.intro)
    (simp_all add: ref_services_def ref_table.perftop_table_axioms ref_profile.profile_tree_axioms)

end
