(* ===== verification/Perftop_Part1.thy ===== *)
theory Perftop_Part1
  imports Perftop
begin

text \<open>
  The first version of the profiler (Assignment 4, part 1, \<open>perftop.c\<close>), which only counts, and the
  kretprobe that calls the handlers of both versions: the return handler runs only if the entry
  handler returned 0.
\<close>

section \<open>The first version\<close>

record perftop1 =
  pre_count1 :: i32
  post_count1 :: i32
  context_switch_count1 :: i32

text \<open>The entry handler stores the previous task whatever it is.\<close>

definition entry_pick_next_fair1 ::
  "bool \<Rightarrow> task option \<Rightarrow> my_data option \<Rightarrow> perftop1 \<Rightarrow> int \<times> my_data option \<times> perftop1" where
  "entry_pick_next_fair1 mm regs_si ri_data s =
     (if \<not> mm then (1, ri_data, s)
      else (0, map_option (\<lambda>d. d\<lparr>prev := regs_si\<rparr>) ri_data, s\<lparr>pre_count1 := pre_count1 s + 1\<rparr>))"

definition ret_pick_next_fair1 :: "my_data option \<Rightarrow> task option \<Rightarrow> perftop1 \<Rightarrow> perftop1" where
  "ret_pick_next_fair1 ri_data regs_ax s =
     (let s = s\<lparr>post_count1 := post_count1 s + 1\<rparr> in
      case ri_data of
        None \<Rightarrow> s
      | Some d \<Rightarrow>
          (case (prev d, regs_ax) of
             (Some p, Some n) \<Rightarrow>
               if task_addr p \<noteq> task_addr n
               then s\<lparr>context_switch_count1 := context_switch_count1 s + 1\<rparr> else s
           | _ \<Rightarrow> s))"

definition perftop_show1 :: "perftop1 \<Rightarrow> i32 \<times> i32 \<times> i32" where
  "perftop_show1 s = (pre_count1 s, post_count1 s, context_switch_count1 s)"

definition perftop_init1 :: "int \<Rightarrow> int \<times> perftop1" where
  "perftop_init1 ret =
     (if ret < 0 then - 1 else 0, \<lparr>pre_count1 = 0, post_count1 = 0, context_switch_count1 = 0\<rparr>)"

section \<open>The probe\<close>

text \<open>One call of the probed function: has the current task an address space, \<open>si\<close>, \<open>ax\<close>, the clock.\<close>

type_synonym probe_hit = "bool \<times> task option \<times> task option \<times> u64"

fun probe1 :: "probe_hit list \<Rightarrow> my_data option \<times> perftop1 \<Rightarrow> my_data option \<times> perftop1" where
  "probe1 [] ds = ds"
| "probe1 ((mm, si, ax, now) # hits) (d, s) =
     (let (r, d', s') = entry_pick_next_fair1 mm si d s in
      probe1 hits (d', if r = 0 then ret_pick_next_fair1 d' ax s' else s'))"

fun probe2 :: "'t services \<Rightarrow> probe_hit list \<Rightarrow> my_data option \<times> 't perftop \<Rightarrow> (my_data option \<times> 't perftop) res option" where
  "probe2 K [] ds = Some (Inr ds)"
| "probe2 K ((mm, si, ax, now) # hits) (d, s) =
     (let (r, d', s') = entry_pick_next_fair mm si d s in
      if r = 0 then run_bind (ret_pick_next_fair K True True now d' ax s') (\<lambda>s'. probe2 K hits (d', s'))
      else probe2 K hits (d', s'))"

section \<open>Both versions count alike\<close>

definition same_counts :: "perftop1 \<Rightarrow> 't perftop \<Rightarrow> bool" where
  "same_counts s1 s2 \<longleftrightarrow> pre_count1 s1 = pre_count s2 \<and> post_count1 s1 = post_count s2
     \<and> context_switch_count1 s1 = context_switch_count s2"

text \<open>The process numbers of a call that is a context switch.\<close>

definition switched :: "my_data option \<Rightarrow> task option \<Rightarrow> (i32 \<times> i32) option" where
  "switched d ax =
     (case d of None \<Rightarrow> None | Some r \<Rightarrow>
        (case (prev r, ax) of
           (Some p, Some n) \<Rightarrow> if task_addr p \<noteq> task_addr n then Some (task_pid p, task_pid n) else None
         | _ \<Rightarrow> None))"

lemma ret_switched:
  "ret_pick_next_fair K a b now d ax s =
     (case switched d ax of
        None \<Rightarrow> Some (Inr (s\<lparr>post_count := post_count s + 1\<rparr>))
      | Some pn \<Rightarrow> account K a b now (fst pn) (snd pn) (s\<lparr>post_count := post_count s + 1\<rparr>))"
  by (simp add: ret_pick_next_fair_def switched_def Let_def split: option.split)

lemma ret1_switched:
  "ret_pick_next_fair1 d ax s =
     (case switched d ax of
        None \<Rightarrow> s\<lparr>post_count1 := post_count1 s + 1\<rparr>
      | Some pn \<Rightarrow> s\<lparr>post_count1 := post_count1 s + 1, context_switch_count1 := context_switch_count1 s + 1\<rparr>)"
  by (simp add: ret_pick_next_fair1_def switched_def Let_def split: option.split)

context profiler
begin

text \<open>A call returns and counts like the first version, or reads a freed object in vain.\<close>

lemma ret_same_counts:
  assumes ok: "perftop_ok s2" and same: "same_counts s1 s2"
  shows "(\<exists>s'. ret_pick_next_fair K True True now d ax s2 = Some (Inr s') \<and> perftop_ok s'
      \<and> same_counts (ret_pick_next_fair1 d ax s1) s')
    \<or> (ret_pick_next_fair K True True now d ax s2 = Some (Inl UseAfterFree) \<and> \<not> stale_readable (rb_svc K) (freed K))"
proof -
  let ?s = "s2\<lparr>post_count := post_count s2 + 1\<rparr>"
  have ok': "perftop_ok ?s" using ok by (simp add: perftop_ok_def)
  show ?thesis
  proof (cases "switched d ax")
    case None
    then show ?thesis using ok' same
      by (simp add: ret_switched ret1_switched same_counts_def)
  next
    case (Some pn)
    obtain s' where s': "account K True True now (fst pn) (snd pn) ?s
          = Some (if freed_reads_ok K (fst pn) (snd pn) ?s then Inr s' else Inl UseAfterFree)"
        "perftop_ok s'" "pre_count s' = pre_count ?s" "post_count s' = post_count ?s"
        "context_switch_count s' = context_switch_count ?s + 1"
      using account_refines[OF ok', of now "fst pn" "snd pn"] by blast
    have "same_counts (ret_pick_next_fair1 d ax s1) s'"
      using same s'(3-5) Some by (simp add: ret1_switched same_counts_def)
    then show ?thesis using s'(1,2) Some freed_reads_okI[OF _ ok', of "fst pn" "snd pn"]
      by (cases "freed_reads_ok K (fst pn) (snd pn) ?s") (auto simp: ret_switched)
  qed
qed

text \<open>Every sequence of calls ends, whatever the registers and the freed objects hold.\<close>

lemma probe2_ends:
  "perftop_ok s \<Longrightarrow> (\<exists>d' s'. probe2 K hits (d, s) = Some (Inr (d', s')) \<and> perftop_ok s')
    \<or> (probe2 K hits (d, s) = Some (Inl UseAfterFree) \<and> \<not> stale_readable (rb_svc K) (freed K))"
proof (induction hits arbitrary: d s)
  case (Cons h hits)
  obtain mm si ax now where h: "h = (mm, si, ax, now)" by (cases h)
  obtain r d1 s1 where e: "entry_pick_next_fair mm si d s = (r, d1, s1)" "perftop_ok s1"
    using Cons.prems by (cases mm) (simp_all add: entry_pick_next_fair_def perftop_ok_def Let_def)
  show ?case
  proof (cases "r = 0")
    case True
    let ?counts = "\<lparr>pre_count1 = pre_count s1, post_count1 = post_count s1, context_switch_count1 = context_switch_count s1\<rparr>"
    have "same_counts ?counts s1" by (simp add: same_counts_def)
    from ret_same_counts[OF e(2) this, of now d1 ax] show ?thesis
    proof (elim disjE exE conjE)
      fix s2 assume "ret_pick_next_fair K True True now d1 ax s1 = Some (Inr s2)" "perftop_ok s2"
      then show ?thesis using Cons.IH[of s2 d1] e(1) True by (simp add: h)
    qed (use e(1) True in \<open>simp add: h\<close>)
  next
    case False
    then show ?thesis using Cons.IH[OF e(2), of d1] e(1) by (simp add: h)
  qed
qed simp

lemma probe_same_counts:
  "\<forall>(mm, si, ax, now) \<in> set hits. si \<noteq> None \<Longrightarrow> perftop_ok s2 \<Longrightarrow> same_counts s1 s2 \<Longrightarrow>
    (\<exists>s'. probe2 K hits (d, s2) = Some (Inr (fst (probe1 hits (d, s1)), s'))
      \<and> same_counts (snd (probe1 hits (d, s1))) s')
    \<or> (probe2 K hits (d, s2) = Some (Inl UseAfterFree) \<and> \<not> stale_readable (rb_svc K) (freed K))"
proof (induction hits arbitrary: d s1 s2)
  case Nil
  then show ?case by simp
next
  case (Cons h hits)
  obtain mm si ax now where h: "h = (mm, si, ax, now)" by (cases h)
  have rest: "\<forall>(mm, si, ax, now) \<in> set hits. si \<noteq> None" and si: "si \<noteq> None" using Cons.prems(1) h by auto
  show ?case
  proof (cases mm)
    case False
    then show ?thesis using Cons.IH[OF rest Cons.prems(2,3)]
      by (simp add: h entry_pick_next_fair_def entry_pick_next_fair1_def)
  next
    case True
    let ?d = "map_option (\<lambda>d. d\<lparr>prev := si\<rparr>) d"
    let ?s1 = "s1\<lparr>pre_count1 := pre_count1 s1 + 1\<rparr>" and ?s2 = "s2\<lparr>pre_count := pre_count s2 + 1\<rparr>"
    have e: "entry_pick_next_fair1 mm si d s1 = (0, ?d, ?s1)" "entry_pick_next_fair mm si d s2 = (0, ?d, ?s2)"
      using True si by (auto simp: entry_pick_next_fair_def entry_pick_next_fair1_def Let_def)
    have ok: "perftop_ok ?s2" "same_counts ?s1 ?s2"
      using Cons.prems(2,3) by (simp_all add: perftop_ok_def same_counts_def)
    from ret_same_counts[OF ok, of now ?d ax] show ?thesis
    proof (elim disjE exE conjE)
      fix s' assume "ret_pick_next_fair K True True now ?d ax ?s2 = Some (Inr s')" "perftop_ok s'"
        "same_counts (ret_pick_next_fair1 ?d ax ?s1) s'"
      then show ?thesis using Cons.IH[OF rest, of s' "ret_pick_next_fair1 ?d ax ?s1" ?d] by (simp add: h e)
    qed (simp add: h e)
  qed
qed

end

end
