(* ===== verification/Perftop_Properties.thy ===== *)
theory Perftop_Properties
  imports Perftop_Part1
begin

text \<open>
  What the profiler guarantees: each switch charges the time since the process was picked, the
  totals of a chain of switches add up to the time that passed, the report is the ten largest
  totals; and where it does not: equal totals, freed nodes, failing allocations, unloading.
\<close>

section \<open>The handler refines a switch of the two maps\<close>

text \<open>
  C5. The return handler implements the context switch of the two maps it stands for: the start
  time of the task switched in is set, the time since its start is added to the total of the
  task switched out, every other process keeps its values, the counters move by one, and the
  invariant of both structures is kept - when the objects the call frees can still be read and
  their pointers lead into the tree; otherwise it ends with the read of a freed object. Nothing is
  assumed of freed memory.
\<close>

theorem perftop_switch_refines:
  assumes "profiler K bucket" and "profiler.perftop_ok K bucket s" and "task_addr p \<noteq> task_addr n"
  shows "if freed_reads_ok K (task_pid p) (task_pid n) s
    then \<exists>s'. ret_pick_next_fair K True True now (Some \<lparr>prev = Some p\<rparr>) (Some n) s = Some (Inr s')
      \<and> profiler.perftop_ok K bucket s'
      \<and> times_of K s' = switch_spec now (task_pid p) (task_pid n) (times_of K s)
      \<and> pre_count s' = pre_count s \<and> post_count s' = post_count s + 1
      \<and> context_switch_count s' = context_switch_count s + 1
    else ret_pick_next_fair K True True now (Some \<lparr>prev = Some p\<rparr>) (Some n) s = Some (Inl UseAfterFree)"
  using profiler.ret_refines[OF assms, of now] by auto

abbreviation ref_bucket :: "i32 \<Rightarrow> nat" where
  "ref_bucket \<equiv> \<lambda>k. unat k mod 65536"

definition perf0 :: "(i32 \<times> myhashnode) list perftop" where
  "perf0 = snd (perftop_init ref_services 0)"

lemma perf0_ok: "profiler.perftop_ok ref_services ref_bucket perf0"
  using ref_profiler.init_ok[of 0] by (simp add: perf0_def)

lemma perf0_times: "times_of ref_services perf0 = ((\<lambda>_. 0), (\<lambda>_. None))"
  using ref_profiler.init_ok[of 0] by (simp add: perf0_def)

definition task_no :: "i32 \<Rightarrow> task" where
  "task_no k = \<lparr>task_addr = unat k, task_pid = k\<rparr>"

lemma ref_services_simps [simp]:
  "hash_svc ref_services = ref_hash ref_bucket" "rb_svc ref_services = ref_rb"
  "freed ref_services = Untouched"
  by (simp_all add: ref_services_def)

lemma ref_reads_ok: "profiler.perftop_ok ref_services ref_bucket s \<Longrightarrow> freed_reads_ok ref_services p n s"
  by (rule ref_profiler.freed_reads_okI) (simp_all add: ref_rb_readable)

theorem perftop_switch_refines_witness:
  "\<exists>s'. ret_pick_next_fair ref_services True True 100 (Some \<lparr>prev = Some (task_no 1)\<rparr>) (Some (task_no 2)) perf0 = Some (Inr s')
     \<and> times_of ref_services s' = ((\<lambda>_. 0)(2 := 100), (\<lambda>_. None))"
  using perftop_switch_refines[OF ref_profiler.profiler_axioms perf0_ok, of "task_no 1" "task_no 2" 100]
    ref_reads_ok[OF perf0_ok]
  by (auto simp: task_no_def perf0_times switch_spec_def)

section \<open>The totals add up\<close>

text \<open>A sequence of switches: the task switched out, the task switched in, the time stamp.\<close>

type_synonym switch = "task \<times> task \<times> u64"

fun run_switches :: "'t services \<Rightarrow> switch list \<Rightarrow> 't perftop \<Rightarrow> 't perftop res option" where
  "run_switches K [] s = Some (Inr s)"
| "run_switches K ((p, n, now) # es) s =
     run_bind (ret_pick_next_fair K True True now (Some \<lparr>prev = Some p\<rparr>) (Some n) s) (run_switches K es)"

text \<open>All reads of freed objects along the switches go well.\<close>

fun reads_ok_run :: "'t services \<Rightarrow> switch list \<Rightarrow> 't perftop \<Rightarrow> bool" where
  "reads_ok_run K [] s \<longleftrightarrow> True"
| "reads_ok_run K ((p, n, now) # es) s \<longleftrightarrow> freed_reads_ok K (task_pid p) (task_pid n) s \<and>
     (case ret_pick_next_fair K True True now (Some \<lparr>prev = Some p\<rparr>) (Some n) s of
        Some (Inr s') \<Rightarrow> reads_ok_run K es s'
      | _ \<Rightarrow> True)"

text \<open>One processor: who is switched out is who was switched in last; the counter is not zero.\<close>

fun chained :: "i32 \<Rightarrow> switch list \<Rightarrow> bool" where
  "chained r [] \<longleftrightarrow> True"
| "chained r ((p, n, now) # es) \<longleftrightarrow>
     task_pid p = r \<and> task_addr p \<noteq> task_addr n \<and> now \<noteq> 0 \<and> chained (task_pid n) es"

fun last_time :: "u64 \<Rightarrow> switch list \<Rightarrow> u64" where
  "last_time v [] = v"
| "last_time v ((p, n, now) # es) = last_time now es"

text \<open>No two processes ever reach the same total.\<close>

fun no_tie :: "switch list \<Rightarrow> times \<Rightarrow> bool" where
  "no_tie [] x \<longleftrightarrow> True"
| "no_tie ((p, n, now) # es) (start, tot) \<longleftrightarrow>
     (\<forall>q. q \<noteq> task_pid p \<longrightarrow> tot q \<noteq> Some (total_or_0 (tot (task_pid p)) + now - start (task_pid p)))
     \<and> no_tie es (switch_spec now (task_pid p) (task_pid n) (start, tot))"

definition total_sum :: "(i32 \<Rightarrow> u64 option) \<Rightarrow> u64" where
  "total_sum tot = (\<Sum>q\<in>dom tot. the (tot q))"

lemma total_sum_tree:
  assumes "tree_ok t"
  shows "total_sum (total t) = sum_list (map rtsc (inorder t))"
proof -
  have d: "distinct (map rvalue (inorder t))" using assms by (simp add: tree_ok_def)
  have "dom (total t) = rvalue ` set (inorder t)"
    by (simp add: total_def dom_map_of_conv_image_fst image_image)
  moreover have "inj_on rvalue (set (inorder t))" using d by (simp add: distinct_map)
  moreover have "the (total t (rvalue n)) = rtsc n" if "n \<in> set (inorder t)" for n
    using that total_Some[OF assms, of "rvalue n" "rtsc n"] by auto
  ultimately have "total_sum (total t) = (\<Sum>n\<in>set (inorder t). rtsc n)"
    by (simp add: total_sum_def sum.reindex del: set_inorder)
  also have "\<dots> = sum_list (map rtsc (inorder t))"
    using sum_list_distinct_conv_sum_set[of "inorder t" rtsc] tree_ok_distinct[OF assms] by simp
  finally show ?thesis .
qed

lemma total_sum_charge:
  assumes "\<forall>q. q \<noteq> p \<longrightarrow> tot q \<noteq> Some v"
  shows "total_sum (charge p v tot) = total_sum tot - total_or_0 (tot p) + v"
proof -
  have c: "charge p v tot = tot(p \<mapsto> v)" using assms by (auto simp: charge_def)
  have "(\<Sum>q\<in>dom tot - {p}. the ((tot(p \<mapsto> v)) q)) = (\<Sum>q\<in>dom tot - {p}. the (tot q))"
    by (rule sum.cong) auto
  then have "total_sum (tot(p \<mapsto> v)) = v + (\<Sum>q\<in>dom tot - {p}. the (tot q))"
    by (simp add: total_sum_def sum.insert_remove)
  moreover have "total_sum tot = total_or_0 (tot p) + (\<Sum>q\<in>dom tot - {p}. the (tot q))"
  proof (cases "p \<in> dom tot")
    case True
    then show ?thesis by (auto simp: total_sum_def total_or_0_def sum.remove)
  next
    case False
    then show ?thesis by (simp add: total_sum_def total_or_0_def domIff)
  qed
  ultimately show ?thesis using c by simp
qed

text \<open>While \<open>r\<close> runs since \<open>v\<close>, nobody else has a start time.\<close>

definition running :: "i32 \<Rightarrow> u64 \<Rightarrow> times \<Rightarrow> bool" where
  "running r v x \<longleftrightarrow> fst x = (\<lambda>_. 0)(r := v)"

text \<open>The first switch of a run, and the rest.\<close>

lemma run_switches_step:
  assumes K: "profiler K bucket" and ok: "profiler.perftop_ok K bucket s" and pn: "task_addr p \<noteq> task_addr n"
  obtains s1 where "profiler.perftop_ok K bucket s1"
    "times_of K s1 = switch_spec now (task_pid p) (task_pid n) (times_of K s)"
    "run_switches K ((p, n, now) # es) s =
       (if freed_reads_ok K (task_pid p) (task_pid n) s then run_switches K es s1 else Some (Inl UseAfterFree))"
    "reads_ok_run K ((p, n, now) # es) s \<longleftrightarrow> freed_reads_ok K (task_pid p) (task_pid n) s \<and> reads_ok_run K es s1"
proof -
  obtain s1 where "profiler.perftop_ok K bucket s1"
    "times_of K s1 = switch_spec now (task_pid p) (task_pid n) (times_of K s)"
    "ret_pick_next_fair K True True now (Some \<lparr>prev = Some p\<rparr>) (Some n) s
      = Some (if freed_reads_ok K (task_pid p) (task_pid n) s then Inr s1 else Inl UseAfterFree)"
    using profiler.ret_refines[OF K ok pn, of now] by blast
  then show thesis using that[of s1] by simp
qed

lemma chain_sum:
  assumes "profiler K bucket"
  shows "profiler.perftop_ok K bucket s \<Longrightarrow> running r v (times_of K s) \<Longrightarrow> v \<noteq> 0 \<Longrightarrow> chained r es
    \<Longrightarrow> no_tie es (times_of K s) \<Longrightarrow>
    if reads_ok_run K es s
    then \<exists>s'. run_switches K es s = Some (Inr s') \<and> profiler.perftop_ok K bucket s'
      \<and> total_sum (total (myroot s')) = total_sum (total (myroot s)) + last_time v es - v
    else run_switches K es s = Some (Inl UseAfterFree)"
proof (induction es arbitrary: s r v)
  case Nil
  then show ?case by simp
next
  case (Cons e es)
  obtain p n now where e: "e = (p, n, now)" by (cases e)
  have c: "task_pid p = r" "task_addr p \<noteq> task_addr n" "now \<noteq> 0" "chained (task_pid n) es"
    using Cons.prems(4) e by simp_all
  obtain start tot where x: "times_of K s = (start, tot)" by (cases "times_of K s")
  have st: "start = (\<lambda>_. 0)(r := v)" and tot: "tot = total (myroot s)"
    using Cons.prems(2) x by (simp_all add: running_def times_of_def)
  obtain s1 where s1: "profiler.perftop_ok K bucket s1" "times_of K s1 = switch_spec now (task_pid p) (task_pid n) (start, tot)"
      "run_switches K ((p, n, now) # es) s =
         (if freed_reads_ok K (task_pid p) (task_pid n) s then run_switches K es s1 else Some (Inl UseAfterFree))"
      "reads_ok_run K ((p, n, now) # es) s \<longleftrightarrow> freed_reads_ok K (task_pid p) (task_pid n) s \<and> reads_ok_run K es s1"
    using run_switches_step[OF assms Cons.prems(1) c(2), of now es] x by metis
  have tie: "\<forall>q. q \<noteq> r \<longrightarrow> tot q \<noteq> Some (total_or_0 (tot r) + now - v)" "no_tie es (times_of K s1)"
    using Cons.prems(5) e x c(1) st s1(2) by simp_all
  have new: "times_of K s1 = ((\<lambda>_. 0)(task_pid n := now), charge r (total_or_0 (tot r) + now - v) tot)"
    using s1(2) c(1) st Cons.prems(3) by (auto simp: switch_spec_def fun_eq_iff)
  then have "running (task_pid n) now (times_of K s1)" by (simp add: running_def)
  note ih = Cons.IH[OF s1(1) this c(3,4) tie(2)]
  have "total_sum (total (myroot s1)) = total_sum tot + now - v"
    using new total_sum_charge[OF tie(1)] by (simp add: times_of_def)
  then show ?case using ih s1(3,4) unfolding e tot by (auto simp del: run_switches.simps reads_ok_run.simps)
qed

text \<open>
  C6. On one processor, as long as no two processes reach the same total, the totals in the tree
  add up to exactly the time between the first switch and the last (modulo \<open>2 ^ 64\<close>): no cycle is
  lost or counted twice. This is so whenever the handler's reads of objects it has freed go well;
  otherwise the run ends at the first that does not.
\<close>

theorem perftop_conservation:
  assumes K: "profiler K bucket" and c: "chained (task_pid p) ((p, n, t0) # es)"
    and tie: "no_tie ((p, n, t0) # es) ((\<lambda>_. 0), (\<lambda>_. None))"
  shows "if reads_ok_run K ((p, n, t0) # es) (snd (perftop_init K r))
    then \<exists>s'. run_switches K ((p, n, t0) # es) (snd (perftop_init K r)) = Some (Inr s')
      \<and> sum_list (map rtsc (inorder (myroot s'))) = last_time t0 es - t0
    else run_switches K ((p, n, t0) # es) (snd (perftop_init K r)) = Some (Inl UseAfterFree)"
proof -
  let ?s0 = "snd (perftop_init K r)"
  have init: "profiler.perftop_ok K bucket ?s0" "times_of K ?s0 = ((\<lambda>_. 0), (\<lambda>_. None))"
    using profiler.init_ok[OF K] by simp_all
  have pn: "task_addr p \<noteq> task_addr n" using c by simp
  obtain s1 where s1: "profiler.perftop_ok K bucket s1" "times_of K s1 = switch_spec t0 (task_pid p) (task_pid n) ((\<lambda>_. 0), (\<lambda>_. None))"
      "run_switches K ((p, n, t0) # es) ?s0 =
         (if freed_reads_ok K (task_pid p) (task_pid n) ?s0 then run_switches K es s1 else Some (Inl UseAfterFree))"
      "reads_ok_run K ((p, n, t0) # es) ?s0 \<longleftrightarrow> freed_reads_ok K (task_pid p) (task_pid n) ?s0 \<and> reads_ok_run K es s1"
    using run_switches_step[OF K init(1) pn, of t0 es] init(2) by metis
  then have x: "times_of K s1 = ((\<lambda>_. 0)(task_pid n := t0), (\<lambda>_. None))" by (simp add: switch_spec_def)
  have "no_tie es (times_of K s1)" using tie s1(2) by simp
  moreover have "running (task_pid n) t0 (times_of K s1)" using x by (simp add: running_def)
  ultimately have rest: "if reads_ok_run K es s1
    then \<exists>s'. run_switches K es s1 = Some (Inr s') \<and> profiler.perftop_ok K bucket s'
      \<and> total_sum (total (myroot s')) = total_sum (total (myroot s1)) + last_time t0 es - t0
    else run_switches K es s1 = Some (Inl UseAfterFree)"
    using chain_sum[OF K s1(1), of "task_pid n" t0 es] c by auto
  have "total_sum (total (myroot s1)) = 0" using x by (simp add: times_of_def total_sum_def)
  moreover have "total_sum (total (myroot s')) = sum_list (map rtsc (inorder (myroot s')))"
    if "profiler.perftop_ok K bucket s'" for s'
    using that total_sum_tree by (simp add: profiler.perftop_ok_def[OF K])
  ultimately show ?thesis using rest s1(3,4) by (auto simp del: run_switches.simps reads_ok_run.simps)
qed

lemma ref_run_reads_ok:
  "profiler.perftop_ok ref_services ref_bucket s \<Longrightarrow> chained r es \<Longrightarrow> reads_ok_run ref_services es s"
proof (induction es arbitrary: s r)
  case (Cons e es)
  obtain p n now where e: "e = (p, n, now)" by (cases e)
  have c: "task_addr p \<noteq> task_addr n" "chained (task_pid n) es" using Cons.prems(2) e by simp_all
  obtain s1 where s1: "profiler.perftop_ok ref_services ref_bucket s1"
      "reads_ok_run ref_services ((p, n, now) # es) s \<longleftrightarrow>
        freed_reads_ok ref_services (task_pid p) (task_pid n) s \<and> reads_ok_run ref_services es s1"
    using run_switches_step[OF ref_profiler.profiler_axioms Cons.prems(1) c(1), of now es] by metis
  show ?case unfolding e s1(2) using ref_reads_ok[OF Cons.prems(1)] Cons.IH[OF s1(1) c(2)] by blast
qed simp

theorem perftop_conservation_witness:
  "\<exists>s'. run_switches ref_services [(task_no 1, task_no 2, 100), (task_no 2, task_no 3, 250)] perf0 = Some (Inr s')
     \<and> sum_list (map rtsc (inorder (myroot s'))) = 150"
proof -
  have c: "chained (task_pid (task_no 1)) [(task_no 1, task_no 2, 100), (task_no 2, task_no 3, 250)]"
    by (simp add: task_no_def)
  have t: "no_tie [(task_no 1, task_no 2, 100), (task_no 2, task_no 3, 250)] ((\<lambda>_. 0), (\<lambda>_. None))"
    by (simp add: task_no_def switch_spec_def)
  have "last_time 100 [(task_no 2, task_no 3, 250)] - 100 = 150" by simp
  then show ?thesis
    using perftop_conservation[OF ref_profiler.profiler_axioms c t, of 0] ref_run_reads_ok[OF perf0_ok c]
    by (simp only: perf0_def if_True)
qed

text \<open>
  C20. A tie costs a process its whole total: when another process already has exactly the new
  total of the process switched out, its old node is removed and the new one is rejected by the
  tree, so that its total reads 0 afterwards - unless one of the reads of the objects the call frees
  was a fault, with which the call then ends.
\<close>

theorem perftop_tie_drops_total:
  assumes K: "profiler K bucket" and ok: "profiler.perftop_ok K bucket s" and pn: "task_addr p \<noteq> task_addr n"
    and start: "lookup_hash_table (hash_svc K) (myhashtable s) (task_pid p) \<noteq> 0"
    and tie: "q \<noteq> task_pid p"
      "total (myroot s) q = Some (lookup_rb_tree (myroot s) (task_pid p) + now
         - lookup_hash_table (hash_svc K) (myhashtable s) (task_pid p))"
  shows "if freed_reads_ok K (task_pid p) (task_pid n) s
    then \<exists>s'. ret_pick_next_fair K True True now (Some \<lparr>prev = Some p\<rparr>) (Some n) s = Some (Inr s')
      \<and> lookup_rb_tree (myroot s') (task_pid p) = 0 \<and> total (myroot s') = (total (myroot s))(task_pid p := None)
    else ret_pick_next_fair K True True now (Some \<lparr>prev = Some p\<rparr>) (Some n) s = Some (Inl UseAfterFree)"
proof -
  obtain s' where s': "ret_pick_next_fair K True True now (Some \<lparr>prev = Some p\<rparr>) (Some n) s
        = Some (if freed_reads_ok K (task_pid p) (task_pid n) s then Inr s' else Inl UseAfterFree)"
      "times_of K s' = switch_spec now (task_pid p) (task_pid n) (times_of K s)"
    using profiler.ret_refines[OF K ok pn] by blast
  have "total (myroot s') = (total (myroot s))(task_pid p := None)"
    using s'(2) start tie by (auto simp: times_of_def switch_spec_def charge_def lookup_total total_or_0_def)
  then show ?thesis using s'(1) by (auto simp: lookup_total)
qed

definition perf_tie :: "(i32 \<times> myhashnode) list perftop" where
  "perf_tie = perf0\<lparr>myhashtable := [(1, \<lparr>hvalue = 1, htsc = 100\<rparr>)], myroot := Node Leaf \<lparr>rvalue = 7, rtsc = 50\<rparr> Leaf\<rparr>"

lemma perf_tie_possible:
  "hash_possible (ref_hash ref_bucket) (myhashtable perf_tie) k =
     (if ref_bucket k = 1 then [\<lparr>hvalue = 1, htsc = 100\<rparr>] else [])"
  by (auto simp: perf_tie_def ref_hash_def)

lemma perf_tie_parts:
  "ref_table.table_ok ref_bucket (myhashtable perf_tie)" "tree_ok (myroot perf_tie)" "\<not> my_lock perf_tie"
  "lookup_hash_table (ref_hash ref_bucket) (myhashtable perf_tie) 1 = 100"
  "total (myroot perf_tie) = [7 \<mapsto> 50]" "lookup_rb_tree (myroot perf_tie) 1 = 0"
  by (simp_all add: ref_table.table_ok_def ref_table.entries_def ref_hash.placed_def perf_tie_possible
      lookup_hash_table_def)
    (auto simp: perf_tie_def perf0_def perftop_init_def tree_ok_def by_tsc_def by_key_def total_def lookup_rb_tree_def)

lemma perf_tie_ok: "profiler.perftop_ok ref_services ref_bucket perf_tie"
  by (simp add: ref_profiler.perftop_ok_def perf_tie_parts)

theorem perftop_tie_drops_total_witness:
  "\<exists>s'. ret_pick_next_fair ref_services True True 150 (Some \<lparr>prev = Some (task_no 1)\<rparr>) (Some (task_no 2)) perf_tie
      = Some (Inr s') \<and> lookup_rb_tree (myroot s') 1 = 0"
  using perftop_tie_drops_total[OF ref_profiler.profiler_axioms perf_tie_ok, of "task_no 1" "task_no 2" 7 150]
    ref_reads_ok[OF perf_tie_ok]
  by (auto simp: task_no_def perf_tie_parts)

section \<open>The report\<close>

text \<open>
  C21. The proc file shows at most ten processes, in descending order of their totals, and every
  process left out has a smaller total than every process shown; the state is unchanged and the
  lock is free again.
\<close>

theorem perftop_show_top_ten:
  assumes "tree_ok (myroot s)" and "\<not> my_lock s"
  shows "\<exists>shown. perftop_show s = Inr ((pre_count s, post_count s, context_switch_count s), shown, s)
    \<and> length shown = min 10 (length (inorder (myroot s)))
    \<and> sorted_wrt (\<lambda>x y. snd x > snd y) shown
    \<and> (\<forall>(pid, v) \<in> set shown. total (myroot s) pid = Some v)
    \<and> (\<forall>pid v. total (myroot s) pid = Some v \<and> (pid, v) \<notin> set shown \<longrightarrow> (\<forall>x \<in> set shown. v < snd x))"
proof -
  let ?f = "\<lambda>n. (rvalue n, rtsc n)"
  let ?r = "rev (inorder (myroot s))"
  have srt: "sorted_wrt (\<lambda>x y. rtsc x > rtsc y) ?r"
    using assms(1) by (simp add: tree_ok_def by_tsc_def by_key_def sorted_wrt_rev)
  have "sorted_wrt (\<lambda>x y. rtsc x > rtsc y) (take 10 ?r @ drop 10 ?r)" using srt by simp
  then have srt': "sorted_wrt (\<lambda>x y. rtsc x > rtsc y) (take 10 ?r)"
      "\<forall>x\<in>set (take 10 ?r). \<forall>y\<in>set (drop 10 ?r). rtsc y < rtsc x"
    by (simp_all only: sorted_wrt_append) auto
  have shw: "perftop_show s = Inr ((pre_count s, post_count s, context_switch_count s), map ?f (take 10 ?r), s)"
    using assms(2) by (simp add: perftop_show_def spin_lock_def spin_unlock_def print_rb_tree_eq)
  have tot: "total (myroot s) (rvalue n) = Some (rtsc n)" if "n \<in> set (take 10 ?r)" for n
    using that total_Some[OF assms(1)] in_set_takeD[OF that] by (auto simp del: set_inorder)
  have rest: "v < snd x" if "total (myroot s) pid = Some v" "(pid, v) \<notin> set (map ?f (take 10 ?r))"
      "x \<in> set (map ?f (take 10 ?r))" for pid v x
  proof -
    obtain n where n: "n \<in> set (inorder (myroot s))" "rvalue n = pid" "rtsc n = v"
      using total_Some[OF assms(1)] \<open>total (myroot s) pid = Some v\<close> by blast
    have "n \<in> set (take 10 ?r @ drop 10 ?r)" using n(1) by (simp only: append_take_drop_id set_rev)
    then have "n \<in> set (take 10 ?r) \<or> n \<in> set (drop 10 ?r)" by (simp only: set_append Un_iff)
    moreover have "n \<notin> set (take 10 ?r)" using that(2) n(2,3) by auto
    ultimately show ?thesis using srt'(2) that(3) n(3) by auto
  qed
  have "sorted_wrt (\<lambda>x y. snd x > snd y) (map ?f (take 10 ?r))"
    using srt'(1) by (simp add: sorted_wrt_map)
  moreover have "length (map ?f (take 10 ?r)) = min 10 (length (inorder (myroot s)))" by (simp add: min.commute)
  moreover have "\<forall>(pid, v) \<in> set (map ?f (take 10 ?r)). total (myroot s) pid = Some v" using tot by auto
  ultimately show ?thesis using shw rest by blast
qed

theorem perftop_show_top_ten_witness:
  "\<exists>shown. perftop_show perf_tie = Inr ((0, 0, 0), shown, perf_tie) \<and> length shown = 1"
  using perftop_show_top_ten[of perf_tie]
  by (auto simp: perf_tie_def perf0_def perftop_init_def tree_ok_def by_tsc_def by_key_def)

section \<open>Freed memory, failing allocations\<close>

text \<open>
  Where accesses to freed memory are trapped, the handler faults at the first switch away from
  a process that has a start time, because the removal loop reads the object it has just freed.
\<close>

theorem perftop_reads_freed_entry:
  assumes "perftop_table (hash_svc K) bucket" and "perftop_table.table_ok (hash_svc K) bucket (myhashtable s)"
    and "freed K = Trapped" and "task_addr p \<noteq> task_addr n"
    and "lookup_hash_table (hash_svc K) (myhashtable s) (task_pid p) \<noteq> 0"
  shows "ret_pick_next_fair K a b now (Some \<lparr>prev = Some p\<rparr>) (Some n) s = Some (Inl UseAfterFree)"
proof -
  have "perftop_table.entries (hash_svc K) (task_pid p) (myhashtable s) \<noteq> {#}"
    using perftop_table.look_entries(1)[OF assms(1,2)] assms(5) by auto
  then show ?thesis
    using perftop_table.remove_trapped[OF assms(1,2)] assms(3-5)
    by (simp add: ret_pick_next_fair_def account_def)
qed

theorem perftop_reads_freed_entry_witness:
  "ret_pick_next_fair (ref_services\<lparr>freed := Trapped\<rparr>) True True 150 (Some \<lparr>prev = Some (task_no 1)\<rparr>)
     (Some (task_no 2)) perf_tie = Some (Inl UseAfterFree)"
proof (rule perftop_reads_freed_entry)
  have h: "hash_svc (ref_services\<lparr>freed := Trapped\<rparr>) = ref_hash ref_bucket" by simp
  show "perftop_table (hash_svc (ref_services\<lparr>freed := Trapped\<rparr>)) ref_bucket"
    unfolding h by (rule ref_table.perftop_table_axioms)
  show "perftop_table.table_ok (hash_svc (ref_services\<lparr>freed := Trapped\<rparr>)) ref_bucket (myhashtable perf_tie)"
    unfolding h by (rule perf_tie_parts(1))
qed (simp_all add: task_no_def perf_tie_parts)

text \<open>
  Neither allocation is checked: when \<open>kmalloc\<close> fails, the handler writes through a NULL
  pointer; for the node of the tree it does so while it holds the lock and after the old total is
  removed.
\<close>

theorem perftop_oom:
  assumes K: "profiler K bucket" and ok: "profiler.perftop_ok K bucket s" and pn: "task_addr p \<noteq> task_addr n"
    and reads: "freed_reads_ok K (task_pid p) (task_pid n) s"
  shows "ret_pick_next_fair K a False now (Some \<lparr>prev = Some p\<rparr>) (Some n) s = Some (Inl NullDeref)
    \<and> (lookup_hash_table (hash_svc K) (myhashtable s) (task_pid p) \<noteq> 0 \<longrightarrow>
      ret_pick_next_fair K False a now (Some \<lparr>prev = Some p\<rparr>) (Some n) s = Some (Inl NullDeref))"
proof -
  let ?s = "s\<lparr>post_count := post_count s + 1\<rparr>"
  have "profiler.perftop_ok K bucket ?s" "freed_reads_ok K (task_pid p) (task_pid n) ?s"
    using ok reads by (simp_all add: profiler.perftop_ok_def[OF K] freed_reads_ok_def)
  then show ?thesis
    using profiler.account_oom_hash[OF K] profiler.account_oom_tree[OF K] pn
    by (simp add: ret_pick_next_fair_def)
qed

theorem perftop_oom_witness:
  "ret_pick_next_fair ref_services True False 150 (Some \<lparr>prev = Some (task_no 1)\<rparr>) (Some (task_no 2)) perf_tie
     = Some (Inl NullDeref)
   \<and> ret_pick_next_fair ref_services False True 150 (Some \<lparr>prev = Some (task_no 1)\<rparr>) (Some (task_no 2)) perf_tie
     = Some (Inl NullDeref)"
  using perftop_oom[OF ref_profiler.profiler_axioms perf_tie_ok, of "task_no 1" "task_no 2" True 150]
    ref_reads_ok[OF perf_tie_ok]
  by (simp add: task_no_def perf_tie_parts)

section \<open>Unloading\<close>

text \<open>The table at exit: only the first object of key 0's bucket is visited.\<close>

lemma exit_table:
  assumes H: "perftop_table H bucket" and ok: "perftop_table.table_ok H bucket t"
  shows "(remove_hash_table_all H fm t = Inl UseAfterFree \<and> fm = Trapped)
    \<or> (\<exists>c t'. remove_hash_table_all H fm t = Inr (c, t') \<and> c \<le> 1
         \<and> length (hash_all H t') = length (hash_all H t) - c
         \<and> (\<forall>k. bucket k \<noteq> bucket 0 \<longrightarrow> mset (hash_possible H t' k) = mset (hash_possible H t k)))"
proof (cases "hash_possible H t 0")
  case Nil
  then show ?thesis by (simp add: remove_hash_table_all_def)
next
  case (Cons obj objs)
  have L: "hashtable_lib H bucket" using H by (simp add: perftop_table_def)
  from Cons have obj: "obj \<in> set (hash_possible H t 0)" by simp
  have p: "hashtable_lib.placed H bucket hvalue t"
    using ok by (simp add: perftop_table.table_ok_def[OF H])
  have "obj \<in> set (hash_all H t)" using hashtable_lib.all_possible[OF L] obj by blast
  then have "size (mset (hash_all H (hash_del H obj t))) = size (mset (hash_all H t)) - 1"
    unfolding hashtable_lib.all_del[OF L obj] by (simp add: size_Diff_singleton)
  then show ?thesis using Cons hashtable_lib.possible_del_placed[OF L p obj]
    by (cases fm) (simp_all add: remove_hash_table_all_def)
qed

lemma exit_ends:
  assumes H: "perftop_table (hash_svc K) bucket" and T: "profile_tree (rb_svc K)"
    and okT: "perftop_table.table_ok (hash_svc K) bucket (myhashtable s)" and okR: "tree_ok (myroot s)"
  shows "(perftop_exit K s = Some (Inl UseAfterFree) \<and> \<not> stale_readable (rb_svc K) (freed K))
    \<or> (\<exists>c k s'. perftop_exit K s = Some (Inr (c, k, s')) \<and> c \<le> 1
      \<and> length (hash_all (hash_svc K) (myhashtable s')) = length (hash_all (hash_svc K) (myhashtable s)) - c
      \<and> (\<forall>key. bucket key \<noteq> bucket 0 \<longrightarrow>
           mset (hash_possible (hash_svc K) (myhashtable s') key) = mset (hash_possible (hash_svc K) (myhashtable s) key))
      \<and> set (inorder (myroot s')) \<subseteq> set (inorder (myroot s))
      \<and> k + length (inorder (myroot s')) = length (inorder (myroot s))
      \<and> (stale_successor (rb_svc K) \<and> freed K = Untouched \<longrightarrow> myroot s' = Leaf))"
  using exit_table[OF H okT, of "freed K"]
proof (elim disjE exE conjE)
  assume "remove_hash_table_all (hash_svc K) (freed K) (myhashtable s) = Inl UseAfterFree" "freed K = Trapped"
  then show ?thesis by (simp add: perftop_exit_def)
next
  fix c tb
  assume tb: "remove_hash_table_all (hash_svc K) (freed K) (myhashtable s) = Inr (c, tb)" "c \<le> 1"
    "length (hash_all (hash_svc K) tb) = length (hash_all (hash_svc K) (myhashtable s)) - c"
    "\<forall>k. bucket k \<noteq> bucket 0 \<longrightarrow> mset (hash_possible (hash_svc K) tb k) = mset (hash_possible (hash_svc K) (myhashtable s) k)"
  from profile_tree.remove_rb_tree_all_ok[OF T okR, of "freed K"] show ?thesis
  proof (elim disjE exE conjE)
    assume "remove_rb_tree_all (rb_svc K) (freed K) (myroot s) = Some (Inl UseAfterFree)"
      "\<not> stale_readable (rb_svc K) (freed K)"
    then show ?thesis using tb(1) by (simp add: perftop_exit_def)
  next
    fix k t assume t: "remove_rb_tree_all (rb_svc K) (freed K) (myroot s) = Some (Inr (k, t))"
      "set (inorder t) \<subseteq> set (inorder (myroot s))" "k + length (inorder t) = length (inorder (myroot s))"
      "stale_successor (rb_svc K) \<and> freed K = Untouched \<longrightarrow> t = Leaf"
    have "perftop_exit K s = Some (Inr (c, k, s\<lparr>myhashtable := tb, myroot := t\<rparr>))"
      using tb(1) t(1) by (simp add: perftop_exit_def)
    then show ?thesis using tb(2-) t(2-)
      by (intro disjI2 exI[of _ c] exI[of _ k] exI[of _ "s\<lparr>myhashtable := tb, myroot := t\<rparr>"]) simp
  qed
qed

text \<open>
  C22. Unloading the module always ends. Unless it ends by reading a freed object in vain,
  \<open>remove_hash_table_all\<close> has visited only the bucket of key 0 and stopped after one object: at most
  one entry is freed, every entry of another bucket stays allocated; and of the tree's nodes exactly
  those counted are gone, which are all of them where a freed node still leads to its successor.
\<close>

theorem perftop_exit_leaks:
  assumes H: "perftop_table (hash_svc K) bucket" and T: "profile_tree (rb_svc K)"
    and okT: "perftop_table.table_ok (hash_svc K) bucket (myhashtable s)" and okR: "tree_ok (myroot s)"
  shows "(perftop_exit K s = Some (Inl UseAfterFree) \<and> \<not> stale_readable (rb_svc K) (freed K))
    \<or> (\<exists>c k s'. perftop_exit K s = Some (Inr (c, k, s')) \<and> c \<le> 1
      \<and> length (hash_all (hash_svc K) (myhashtable s')) = length (hash_all (hash_svc K) (myhashtable s)) - c
      \<and> (\<forall>key. bucket key \<noteq> bucket 0 \<longrightarrow>
           mset (hash_possible (hash_svc K) (myhashtable s') key) = mset (hash_possible (hash_svc K) (myhashtable s) key))
      \<and> set (inorder (myroot s')) \<subseteq> set (inorder (myroot s))
      \<and> k + length (inorder (myroot s')) = length (inorder (myroot s))
      \<and> (stale_successor (rb_svc K) \<and> freed K = Untouched \<longrightarrow> myroot s' = Leaf))"
  by (rule exit_ends[OF assms])

theorem perftop_exit_leaks_witness:
  "\<exists>c s'. perftop_exit ref_services perf_tie = Some (Inr (c, 1, s')) \<and> myroot s' = Leaf
     \<and> mset (hash_possible (hash_svc ref_services) (myhashtable s') 1)
         = {#\<lparr>hvalue = 1, htsc = 100\<rparr>#}"
proof -
  obtain c k s' where s': "perftop_exit ref_services perf_tie = Some (Inr (c, k, s'))"
      "\<forall>k. ref_bucket k \<noteq> ref_bucket 0 \<longrightarrow> mset (hash_possible (ref_hash ref_bucket) (myhashtable s') k)
         = mset (hash_possible (ref_hash ref_bucket) (myhashtable perf_tie) k)"
      "k + length (inorder (myroot s')) = length (inorder (myroot perf_tie))" "myroot s' = Leaf"
    using perftop_exit_leaks[of ref_services ref_bucket perf_tie] ref_table.perftop_table_axioms
      ref_profile.profile_tree_axioms perf_tie_parts(1,2) ref_rb_readable ref_rb_successor by auto
  have "mset (hash_possible (ref_hash ref_bucket) (myhashtable s') 1) = {#\<lparr>hvalue = 1, htsc = 100\<rparr>#}"
    using s'(2)[rule_format, of 1] by (simp add: perf_tie_possible)
  moreover have "k = 1" using s'(3,4) by (simp add: perf_tie_def)
  ultimately show ?thesis using s'(1,4) by auto
qed

section \<open>The entry handler\<close>

text \<open>
  A task without an address space is skipped and changes nothing. Otherwise the entry handler
  hands the previous task to the return handler; when it gets no previous task, the instance
  keeps the task of an earlier call and the return handler charges the switch to that one.
\<close>

theorem perftop_entry_return:
  "entry_pick_next_fair False regs_si ri_data s = (1, ri_data, s)
   \<and> entry_pick_next_fair True (Some p) (Some d) s
       = (0, Some \<lparr>prev = Some p\<rparr>, s\<lparr>pre_count := pre_count s + 1\<rparr>)
   \<and> entry_pick_next_fair True None (Some d) s = (0, Some d, s\<lparr>pre_count := pre_count s + 1\<rparr>)
   \<and> (prev d = None \<longrightarrow> ret_pick_next_fair K a b now (Some d) regs_ax s
        = Some (Inr (s\<lparr>post_count := post_count s + 1\<rparr>)))
   \<and> (prev d = Some p \<and> task_addr p \<noteq> task_addr n \<longrightarrow>
        ret_pick_next_fair K a b now (fst (snd (entry_pick_next_fair True None (Some d) s))) (Some n) s
          = account K a b now (task_pid p) (task_pid n) (s\<lparr>post_count := post_count s + 1\<rparr>))"
  by (cases d) (simp add: entry_pick_next_fair_def ret_pick_next_fair_def Let_def)

theorem perftop_entry_return_witness:
  "ret_pick_next_fair ref_services True True 150 (Some \<lparr>prev = None\<rparr>) (Some (task_no 2)) perf0
     = Some (Inr (perf0\<lparr>post_count := post_count perf0 + 1\<rparr>))"
  using perftop_entry_return[of None None perf0 "task_no 1" "\<lparr>prev = None\<rparr>" ref_services True True 150
      "Some (task_no 2)"] by simp

section \<open>The two versions\<close>





end
