(* ===== verification/Kds_Base.thy ===== *)
theory Kds_Base
  imports KernelLib CString
begin

text \<open>
  The ground of the data-structures module (Assignment 2, \<open>kds.c\<close>): its parameter string and
  its conversion to an array, the objects it allocates, the kernel log it prints to. Kernel code
  is compiled with wrapping signed arithmetic, so \<open>int\<close> is a 32-bit word here.
\<close>

section \<open>The parameter string\<close>

text \<open>The value of a (signed) \<open>char\<close>.\<close>

definition char_val :: "char \<Rightarrow> int" where
  "char_val c = (if char_code c < 128 then int (char_code c) else int (char_code c) - 256)"

text \<open>Counting in \<open>lkp_init\<close>: one integer per space, and one more unless the string ends in one.\<close>

definition count_integers :: "string \<Rightarrow> nat" where
  "count_integers int_str =
     length (filter (\<lambda>c. c = CHR '' '') int_str)
     + (if int_str \<noteq> [] \<and> last int_str \<noteq> CHR '' '' then 1 else 0)"

text \<open>The loop of \<open>convert_str_to_integers\<close>, then its last write.\<close>

fun convert_loop :: "nat \<Rightarrow> string \<Rightarrow> nat \<Rightarrow> i32 \<Rightarrow> i32 list \<Rightarrow> (nat \<times> i32 \<times> i32 list) res" where
  "convert_loop cnt [] j acc int_array = Inr (j, acc, int_array)"
| "convert_loop cnt (c # cs) j acc int_array =
     (if j < cnt then
        (if c = CHR '' '' then rbind (array_write int_array j acc) (convert_loop cnt cs (Suc j) 0)
         else convert_loop cnt cs j (acc * 10 + of_int (char_val c - char_val CHR ''0'')) int_array)
      else Inr (j, acc, int_array))"

definition convert_str_to_integers :: "string \<Rightarrow> i32 list \<Rightarrow> nat \<Rightarrow> i32 list res" where
  "convert_str_to_integers int_str int_array cnt =
     rbind (convert_loop cnt int_str 0 0 int_array) (\<lambda>(j, acc, a). array_write a j acc)"

section \<open>Splitting at spaces\<close>

fun split_spaces :: "string \<Rightarrow> string list" where
  "split_spaces [] = [[]]"
| "split_spaces (c # cs) =
     (if c = CHR '' '' then [] # split_spaces cs
      else (c # hd (split_spaces cs)) # tl (split_spaces cs))"

fun word_value :: "i32 \<Rightarrow> string \<Rightarrow> i32" where
  "word_value v [] = v"
| "word_value v (c # cs) = word_value (v * 10 + of_int (char_val c - 48)) cs"

lemma split_spaces_ne [simp]: "split_spaces s \<noteq> []"
  by (cases s) auto

lemma length_split_spaces: "length (split_spaces s) = Suc (length (filter (\<lambda>c. c = CHR '' '') s))"
proof (induction s)
  case (Cons c cs)
  then show ?case by (cases "split_spaces cs") auto
qed simp

lemma char_val_0: "char_val CHR ''0'' = 48"
  by (simp add: char_val_def char_code_def)

text \<open>With room for all but the last number, the loop stops at the end of the string.\<close>

lemma convert_loop_split:
  assumes "j + length (split_spaces s) \<le> cnt" and "length a = cnt"
  shows "convert_loop cnt s j v a =
    Inr (j + length (split_spaces s) - 1,
         last (word_value v (hd (split_spaces s)) # map (word_value 0) (tl (split_spaces s))),
         take j a @ butlast (word_value v (hd (split_spaces s)) # map (word_value 0) (tl (split_spaces s)))
           @ drop (j + length (split_spaces s) - 1) a)"
  using assms
proof (induction cnt s j v a rule: convert_loop.induct)
  case (1 cnt j v a)
  then show ?case by simp
next
  case (2 cnt c cs j v a)
  have len: "1 \<le> length (split_spaces cs)" using length_split_spaces by simp
  obtain w ws where ws: "split_spaces cs = w # ws" by (cases "split_spaces cs") auto
  have j: "j < cnt" using 2(3) len by (auto split: if_splits)
  show ?case
  proof (cases "c = CHR '' ''")
    case True
    have wr: "array_write a j v = Inr (a[j := v])" using j 2(4) by (simp add: array_write_def)
    have "convert_loop cnt cs (Suc j) 0 (a[j := v]) =
      Inr (Suc j + length (split_spaces cs) - 1,
         last (word_value 0 w # map (word_value 0) ws),
         take (Suc j) (a[j := v]) @ butlast (word_value 0 w # map (word_value 0) ws)
           @ drop (Suc j + length (split_spaces cs) - 1) (a[j := v]))"
      using 2(1)[OF j True, of "a[j := v]"] 2(3,4) True ws wr by simp
    moreover have "take (Suc j) (a[j := v]) = take j a @ [v]"
      using j 2(4) by (simp add: take_Suc_conv_app_nth)
    moreover have "drop (j + length (split_spaces cs)) (a[j := v]) = drop (j + length (split_spaces cs)) a"
      using len by simp
    ultimately show ?thesis using True j wr ws by simp
  next
    case False
    then show ?thesis using 2(2)[OF j False] 2(3,4) j ws by (simp add: char_val_0)
  qed
qed

text \<open>A string that is neither empty nor ends in a space becomes the values of its words.\<close>

lemma convert_words:
  assumes "s \<noteq> []" and "last s \<noteq> CHR '' ''" and "length a = count_integers s"
  shows "convert_str_to_integers s a (count_integers s) = Inr (map (word_value 0) (split_spaces s))"
proof -
  have n: "count_integers s = length (split_spaces s)"
    using assms(1,2) by (simp add: count_integers_def length_split_spaces)
  let ?vs = "map (word_value 0) (split_spaces s)"
  have "word_value 0 (hd (split_spaces s)) # map (word_value 0) (tl (split_spaces s)) = ?vs"
    by (cases "split_spaces s") auto
  then have "convert_loop (count_integers s) s 0 0 a =
      Inr (length ?vs - 1, last ?vs, butlast ?vs @ drop (length ?vs - 1) a)"
    using convert_loop_split[of 0 s "count_integers s" a 0] assms(3) n by simp
  moreover have "array_write (butlast ?vs @ drop (length ?vs - 1) a) (length ?vs - 1) (last ?vs) = Inr ?vs"
  proof -
    have "length ?vs - 1 < length a" using assms(3) n length_split_spaces[of s] by simp
    then have "drop (length ?vs - 1) a = [a ! (length ?vs - 1)]"
      using assms(3) n Cons_nth_drop_Suc[of "length ?vs - 1" a] by simp
    then show ?thesis by (simp add: array_write_def list_update_append append_butlast_last_id)
  qed
  ultimately show ?thesis by (simp add: convert_str_to_integers_def)
qed

lemma split_spaces_snoc:
  "split_spaces (s @ [CHR '' '']) = split_spaces s @ [[]]"
  by (induction s) (auto simp: hd_append tl_append split: list.splits)

text \<open>The empty string and a string that ends in a space write behind the array.\<close>

lemma convert_loop_full:
  assumes "length a = cnt" and "j + length (split_spaces s) = Suc cnt" and "last (split_spaces s) = []"
  shows "\<exists>v' a'. convert_loop cnt s j v a = Inr (cnt, v', a') \<and> length a' = cnt"
  using assms
proof (induction cnt s j v a rule: convert_loop.induct)
  case (1 cnt j v a)
  then show ?case by simp
next
  case (2 cnt c cs j v a)
  obtain w ws where ws: "split_spaces cs = w # ws" by (cases "split_spaces cs") auto
  show ?case
  proof (cases "j < cnt")
    case False
    then have "j = cnt" "tl (split_spaces (c # cs)) = []" using 2(4) ws by (auto split: if_splits)
    then show ?thesis using 2(3) by simp
  next
    case j: True
    show ?thesis
    proof (cases "c = CHR '' ''")
      case True
      have wr: "array_write a j v = Inr (a[j := v])" using j 2(3) by (simp add: array_write_def)
      then show ?thesis using 2(1)[OF j True, of "a[j := v]"] 2(3-5) True j ws wr by simp
    next
      case False
      have "ws \<noteq> []" using 2(4,5) j False ws by auto
      then show ?thesis using 2(2)[OF j False] 2(3-5) False j ws by simp
    qed
  qed
qed

lemma convert_overrun:
  assumes "s = [] \<or> last s = CHR '' ''" and "length a = count_integers s"
  shows "convert_str_to_integers s a (count_integers s) = Inl OutOfBounds"
proof (cases "s = []")
  case True
  then show ?thesis using assms(2)
    by (simp add: convert_str_to_integers_def count_integers_def array_write_def)
next
  case False
  then obtain s' where s: "s = s' @ [CHR '' '']" using assms(1) by (metis append_butlast_last_id)
  have "length (split_spaces s) = Suc (count_integers s)" "last (split_spaces s) = []"
    using s by (simp_all add: split_spaces_snoc length_split_spaces count_integers_def)
  then obtain v a' where "convert_loop (count_integers s) s 0 0 a = Inr (count_integers s, v, a')"
      "length a' = count_integers s"
    using convert_loop_full[of a "count_integers s" 0 s 0] assms(2) by auto
  then show ?thesis by (simp add: convert_str_to_integers_def array_write_def)
qed

end
