(* ===== verification/Kds_Kernel.thy ===== *)
theory Kds_Kernel
  imports Kds_Base
begin

text \<open>
  What the data-structures module (Assignment 2, \<open>kds.c\<close>) needs of the kernel: objects from
  \<open>kmalloc\<close> with their addresses, the set of addresses still allocated, the kernel log. The
  loops that allocate and insert one object per array element share \<open>insert_loop\<close>.
\<close>

section \<open>Objects and messages\<close>

text \<open>
  The module's structs (\<open>myrbtree\<close>, \<open>mylinkedlist\<close>, \<open>mydatanode\<close>, \<open>myhashnode\<close>) all hold one
  \<open>value\<close> beside the library's link; an object is its address and this value.
\<close>

record datanode =
  addr :: nat
  nvalue :: i32

datatype kmsg =
    K_input i32
  | K_printing_list | K_value i32 | K_inserted i32 | K_removing_list
  | K_iterating_hash | K_looked_up i32 | K_deleting i32
  | K_root_null | K_key i32 | K_printed | K_rb_inserted i32 | K_found i32 | K_not_found i32 | K_rb_erased
  | K_missing u64 | K_tagged u64 | K_tag_count nat | K_tag_looked_up i32 | K_deleted i32 | K_no_delete u64
  | K_relookup
  | K_bitmap i32 | K_set_bit nat | K_set_bits | K_bit nat | K_cleared

record kern =
  klog :: "kmsg list"
  live :: "nat set"
  calls :: nat

definition printk :: "kmsg list \<Rightarrow> kern \<Rightarrow> kern" where
  "printk ms k = k\<lparr>klog := klog k @ ms\<rparr>"

lemma printk_simps [simp]:
  "live (printk ms k) = live k" "calls (printk ms k) = calls k" "klog (printk ms k) = klog k @ ms"
  by (simp_all add: printk_def)

section \<open>Allocation\<close>

text \<open>
  \<open>kmalloc\<close> for its \<open>n\<close>-th call with the set of addresses in use: an address, or none. A new
  address is not in use.
\<close>

type_synonym allocator = "nat \<Rightarrow> nat set \<Rightarrow> nat option"

locale kmalloc_lib =
  fixes km :: allocator
  assumes fresh: "finite A \<Longrightarrow> km n A = Some a \<Longrightarrow> a \<notin> A"

text \<open>A kernel that does not run out of memory.\<close>

locale kmalloc_total = kmalloc_lib +
  assumes succeeds: "finite A \<Longrightarrow> km n A \<noteq> None"

definition ref_kmalloc :: allocator where
  "ref_kmalloc n A = Some (if A = {} then 1 else Suc (Max A))"

interpretation ref_kmalloc: kmalloc_total ref_kmalloc
  by unfold_locales (auto simp: ref_kmalloc_def dest: Max_ge split: if_splits)

text \<open>The module stores the value through the unchecked result.\<close>

definition new_node :: "allocator \<Rightarrow> i32 \<Rightarrow> kern \<Rightarrow> (datanode \<times> kern) res" where
  "new_node km v k =
     (case km (calls k) (live k) of
        None \<Rightarrow> Inl NullDeref
      | Some a \<Rightarrow> Inr (\<lparr>addr = a, nvalue = v\<rparr>, k\<lparr>live := insert a (live k), calls := Suc (calls k)\<rparr>))"

definition kfree :: "datanode \<Rightarrow> kern \<Rightarrow> kern res" where
  "kfree nd k = (if addr nd \<in> live k then Inr (k\<lparr>live := live k - {addr nd}\<rparr>) else Inl UseAfterFree)"

section \<open>The insertion loops\<close>

definition insert_loop ::
  "allocator \<Rightarrow> (datanode \<Rightarrow> 'd \<Rightarrow> 'd \<times> kmsg list) \<Rightarrow> i32 list \<Rightarrow> 'd \<times> kern \<Rightarrow> ('d \<times> kern) res" where
  "insert_loop km ins int_array = iter_res (\<lambda>v (d, k).
     rbind (new_node km v k) (\<lambda>(nd, k').
     let (d', ms) = ins nd d in Inr (d', printk ms k'))) int_array"

fun insert_objects :: "(datanode \<Rightarrow> 'd \<Rightarrow> 'd \<times> kmsg list) \<Rightarrow> datanode list \<Rightarrow> 'd \<Rightarrow> 'd \<times> kmsg list" where
  "insert_objects ins [] d = (d, [])"
| "insert_objects ins (nd # nds) d =
     (let r = insert_objects ins nds (fst (ins nd d)) in (fst r, snd (ins nd d) @ snd r))"

definition new_objects :: "i32 list \<Rightarrow> datanode list \<Rightarrow> kern \<Rightarrow> kern \<Rightarrow> bool" where
  "new_objects xs nds k k' \<longleftrightarrow> map nvalue nds = xs \<and> distinct (map addr nds)
     \<and> addr ` set nds \<inter> live k = {} \<and> live k' = live k \<union> addr ` set nds"

text \<open>Every object is new, and the structure is that of inserting them in order.\<close>

context kmalloc_total
begin

lemma insert_loop_new:
  "finite (live k) \<Longrightarrow> \<exists>nds k'. new_objects xs nds k k'
     \<and> insert_loop km ins xs (d, k) = Inr (fst (insert_objects ins nds d), k')
     \<and> klog k' = klog k @ snd (insert_objects ins nds d)"
proof (induction xs arbitrary: d k)
  case Nil
  then show ?case by (intro exI[of _ "[]"] exI[of _ k]) (simp add: insert_loop_def new_objects_def)
next
  case (Cons x xs)
  obtain a where a: "km (calls k) (live k) = Some a" using succeeds[OF Cons.prems] by fastforce
  have na: "a \<notin> live k" by (rule fresh[OF Cons.prems a])
  let ?nd = "\<lparr>addr = a, nvalue = x\<rparr>"
  obtain d1 ms where ins: "ins ?nd d = (d1, ms)" by (cases "ins ?nd d")
  let ?k = "printk ms (k\<lparr>live := insert a (live k), calls := Suc (calls k)\<rparr>)"
  have "finite (live ?k)" using Cons.prems by simp
  from Cons.IH[OF this, of d1] obtain nds k' where ih: "new_objects xs nds ?k k'"
      "insert_loop km ins xs (d1, ?k) = Inr (fst (insert_objects ins nds d1), k')"
      "klog k' = klog ?k @ snd (insert_objects ins nds d1)" by blast
  have "insert_loop km ins (x # xs) (d, k) = insert_loop km ins xs (d1, ?k)"
    using a ins by (simp add: insert_loop_def new_node_def)
  moreover have "new_objects (x # xs) (?nd # nds) k k'"
    using ih(1) na by (auto simp: new_objects_def)
  moreover have "insert_objects ins (?nd # nds) d = (fst (insert_objects ins nds d1), ms @ snd (insert_objects ins nds d1))"
    using ins by (simp add: Let_def)
  ultimately show ?case using ih(2,3)
    by (intro exI[of _ "?nd # nds"] exI[of _ k']) simp
qed

end

text \<open>An allocation that fails is a write through NULL.\<close>

lemma insert_loop_oom:
  assumes "km (calls k) (live k) = None"
  shows "insert_loop km ins (x # xs) (d, k) = Inl NullDeref"
  using assms by (simp add: insert_loop_def new_node_def)

section \<open>Freeing a list of objects\<close>

definition free_all :: "datanode list \<Rightarrow> kern \<Rightarrow> kern" where
  "free_all nds k = k\<lparr>live := live k - addr ` set nds\<rparr>"

lemma kfree_new: "addr nd \<in> live k \<Longrightarrow> kfree nd k = Inr (free_all [nd] k)"
  by (simp add: kfree_def free_all_def)

lemma free_all_Cons: "free_all nds (free_all [nd] k) = free_all (nd # nds) k"
  by (cases k) (auto simp: free_all_def)

lemma free_all_simps [simp]:
  "klog (free_all nds k) = klog k" "calls (free_all nds k) = calls k"
  "live (free_all nds k) = live k - addr ` set nds"
  by (simp_all add: free_all_def)

end
