(* ===== verification/Kds_List.thy ===== *)
theory Kds_List
  imports Kds_Kernel
begin

text \<open>
  The linked-list run of the data-structures module (Assignment 2, \<open>kds.c\<close>), over the kernel's
  doubly linked lists (linux/list.h) as a parameter.
\<close>

section \<open>linux/list.h\<close>

record ('n, 'l) list_ops =
  list_init :: 'l
  list_add :: "'n \<Rightarrow> 'l \<Rightarrow> 'l"
  list_del :: "'n \<Rightarrow> 'l \<Rightarrow> 'l"
  list_entries :: "'l \<Rightarrow> 'n list"

text \<open>\<open>list_add\<close> inserts right after the head; \<open>list_entries\<close> is the order of traversal.\<close>

locale list_lib =
  fixes L :: "('n, 'l) list_ops"
  assumes entries_init: "list_entries L (list_init L) = []"
    and entries_add: "n \<notin> set (list_entries L l) \<Longrightarrow> list_entries L (list_add L n l) = n # list_entries L l"
    and entries_del: "n \<in> set (list_entries L l) \<Longrightarrow> distinct (list_entries L l) \<Longrightarrow>
          list_entries L (list_del L n l) = remove1 n (list_entries L l)"

definition ref_list :: "('n, 'n list) list_ops" where
  "ref_list = \<lparr>list_init = [], list_add = (#), list_del = remove1, list_entries = (\<lambda>l. l)\<rparr>"

interpretation ref_list: list_lib ref_list
  by unfold_locales (simp_all add: ref_list_def)

section \<open>The run\<close>

definition print_linked_list :: "(datanode, 'l) list_ops \<Rightarrow> 'l \<Rightarrow> kmsg list" where
  "print_linked_list L l = K_printing_list # map (\<lambda>nd. K_value (nvalue nd)) (list_entries L l)"

text \<open>\<open>list_for_each_entry_safe\<close>: the next object is read before the body deletes the current one.\<close>

definition remove_list :: "(datanode, 'l) list_ops \<Rightarrow> 'l \<times> kern \<Rightarrow> ('l \<times> kern) res" where
  "remove_list L = (\<lambda>(l, k).
     iter_res (\<lambda>nd (l, k). rbind (kfree nd k) (\<lambda>k'. Inr (list_del L nd l, k'))) (list_entries L l) (l, k))"

definition run_linked_list :: "(datanode, 'l) list_ops \<Rightarrow> allocator \<Rightarrow> i32 list \<Rightarrow> kern \<Rightarrow> kern res" where
  "run_linked_list L km int_array k =
     rbind (insert_loop km (\<lambda>nd l. (list_add L nd l, [K_inserted (nvalue nd)])) int_array (list_init L, k)) (\<lambda>(l, k).
     rbind (remove_list L (l, printk (print_linked_list L l @ [K_removing_list]) k)) (\<lambda>(l, k).
     Inr (printk (print_linked_list L l) k)))"

section \<open>What it does\<close>

locale kds_list = list_lib L for L :: "(datanode, 'l) list_ops"
begin

lemma del_loop:
  assumes "distinct (map addr (list_entries L l))" and "addr ` set (list_entries L l) \<subseteq> live k"
  shows "\<exists>l'. iter_res (\<lambda>nd (l, k). rbind (kfree nd k) (\<lambda>k'. Inr (list_del L nd l, k'))) (list_entries L l) (l, k)
      = Inr (l', free_all (list_entries L l) k) \<and> list_entries L l' = []"
  using assms
proof (induction "list_entries L l" arbitrary: l k)
  case Nil
  then show ?case by (auto simp: free_all_def)
next
  case (Cons nd nds)
  note e = Cons.hyps(2)[symmetric]
  have d: "distinct (list_entries L l)" using Cons.prems(1) by (simp add: distinct_map)
  have del: "list_entries L (list_del L nd l) = nds" using entries_del[of nd l] d e by simp
  have "addr ` set nds \<subseteq> live (free_all [nd] k)" using Cons.prems e by (simp add: subset_Diff_insert)
  then obtain l' where l': "iter_res (\<lambda>nd (l, k). rbind (kfree nd k) (\<lambda>k'. Inr (list_del L nd l, k'))) nds
      (list_del L nd l, free_all [nd] k) = Inr (l', free_all nds (free_all [nd] k))" "list_entries L l' = []"
    using Cons.hyps(1)[of "list_del L nd l" "free_all [nd] k"] Cons.prems(1) e del by auto
  have "addr nd \<in> live k" using Cons.prems(2) e by auto
  then show ?case using l' e by (intro exI[of _ l']) (simp add: kfree_new free_all_Cons)
qed

lemma insert_entries:
  "distinct (map addr nds @ map addr (list_entries L l)) \<Longrightarrow>
    list_entries L (fst (insert_objects (\<lambda>nd l. (list_add L nd l, [K_inserted (nvalue nd)])) nds l)) = rev nds @ list_entries L l
    \<and> snd (insert_objects (\<lambda>nd l. (list_add L nd l, [K_inserted (nvalue nd)])) nds l) = map (\<lambda>nd. K_inserted (nvalue nd)) nds"
proof (induction nds arbitrary: l)
  case (Cons nd nds)
  have "nd \<notin> set (list_entries L l)" using Cons.prems by auto
  then have "list_entries L (list_add L nd l) = nd # list_entries L l" by (rule entries_add)
  moreover from this have "distinct (map addr nds @ map addr (list_entries L (list_add L nd l)))"
    using Cons.prems by auto
  note Cons.IH[OF this]
  ultimately show ?case by (simp add: Let_def)
qed simp

end

interpretation ref_kds_list: kds_list ref_list
  by unfold_locales

lemma run_linked_list_ok:
  assumes "kds_list L" and "kmalloc_total km" and "finite (live k)"
  shows "\<exists>k'. run_linked_list L km xs k = Inr k' \<and> live k' = live k
    \<and> klog k' = klog k @ map K_inserted xs @ [K_printing_list] @ map K_value (rev xs)
                @ [K_removing_list, K_printing_list]"
proof -
  let ?ins = "\<lambda>nd l. (list_add L nd l, [K_inserted (nvalue nd)])"
  obtain nds k1 where new: "new_objects xs nds k k1"
      and run: "insert_loop km ?ins xs (list_init L, k) = Inr (fst (insert_objects ?ins nds (list_init L)), k1)"
      and log: "klog k1 = klog k @ snd (insert_objects ?ins nds (list_init L))"
    using kmalloc_total.insert_loop_new[OF assms(2,3), of xs ?ins "list_init L"] by blast
  let ?l = "fst (insert_objects ?ins nds (list_init L))"
  have d: "distinct (map addr nds)" and v: "map nvalue nds = xs" and fr: "addr ` set nds \<inter> live k = {}"
      and lv: "live k1 = live k \<union> addr ` set nds"
    using new by (simp_all add: new_objects_def)
  have e: "list_entries L ?l = rev nds" and ms: "snd (insert_objects ?ins nds (list_init L)) = map K_inserted xs"
    using kds_list.insert_entries[OF assms(1), of nds "list_init L"] d v
    by (auto simp: list_lib.entries_init[OF kds_list.axioms[OF assms(1)]])
  let ?k = "printk (print_linked_list L ?l @ [K_removing_list]) k1"
  have "distinct (map addr (rev nds))" using d by (simp add: distinct_map)
  then obtain l' where l': "remove_list L (?l, ?k) = Inr (l', free_all (rev nds) ?k)" "list_entries L l' = []"
    using kds_list.del_loop[OF assms(1), of ?l ?k] e lv by (auto simp: remove_list_def)
  have "map (\<lambda>nd. K_value (nvalue nd)) (rev nds) = map K_value (rev xs)"
    using v by (simp add: rev_map comp_def flip: v)
  then show ?thesis using run l' log ms e lv fr
    by (intro exI[of _ "printk (print_linked_list L l') (free_all (rev nds) ?k)"])
      (auto simp: run_linked_list_def print_linked_list_def)
qed

end
