(* ===== verification/Kds_Hash.thy ===== *)
theory Kds_Hash
  imports Kds_Kernel
begin

text \<open>
  The hash-table run of the data-structures module (Assignment 2, \<open>kds.c\<close>), over the kernel's
  hash table as a parameter.
\<close>

section \<open>Operations\<close>

definition print_hash_table :: "(datanode, 't) hash_ops \<Rightarrow> 't \<Rightarrow> kmsg list" where
  "print_hash_table H t = K_iterating_hash # map (\<lambda>nd. K_value (nvalue nd)) (hash_all H t)"

text \<open>Every matching object of the bucket is printed.\<close>

definition kds_lookup_hash_table :: "(datanode, 't) hash_ops \<Rightarrow> 't \<Rightarrow> i32 \<Rightarrow> kmsg list" where
  "kds_lookup_hash_table H t number =
     map (\<lambda>nd. K_looked_up (nvalue nd)) (filter (\<lambda>nd. nvalue nd = number) (hash_possible H t number))"

text \<open>
  The loop stands on the object it frees; its next step reads that object's link, which
  \<open>hash_del\<close> has set to NULL.
\<close>

fun kds_remove_bucket ::
  "(datanode, 't) hash_ops \<Rightarrow> freed_mem \<Rightarrow> i32 \<Rightarrow> datanode list \<Rightarrow> 't \<times> kern \<Rightarrow> ('t \<times> kern) res" where
  "kds_remove_bucket H fm number [] tk = Inr tk"
| "kds_remove_bucket H fm number (nd # nds) tk =
     (if nvalue nd = number then
        rbind (kfree nd (printk [K_deleting (nvalue nd)] (snd tk))) (\<lambda>k'.
        case fm of Trapped \<Rightarrow> Inl UseAfterFree | Untouched \<Rightarrow> Inr (hash_del H nd (fst tk), k'))
      else kds_remove_bucket H fm number nds tk)"

definition kds_remove_hash_table ::
  "(datanode, 't) hash_ops \<Rightarrow> freed_mem \<Rightarrow> i32 \<Rightarrow> 't \<times> kern \<Rightarrow> ('t \<times> kern) res" where
  "kds_remove_hash_table H fm number tk = kds_remove_bucket H fm number (hash_possible H (fst tk) number) tk"

definition run_hash_table ::
  "(datanode, 't) hash_ops \<Rightarrow> freed_mem \<Rightarrow> allocator \<Rightarrow> i32 list \<Rightarrow> kern \<Rightarrow> kern res" where
  "run_hash_table H fm km int_array k =
     rbind (insert_loop km (\<lambda>nd t. (hash_add H nd (nvalue nd) t, [K_inserted (nvalue nd)])) int_array (hash_init H, k)) (\<lambda>(t, k).
     let k = printk (print_hash_table H t) k;
         k = printk (concat (map (kds_lookup_hash_table H t) int_array)) k in
     rbind (iter_res (kds_remove_hash_table H fm) int_array (t, k)) (\<lambda>(t, k).
     Inr (printk (print_hash_table H t) k)))"

section \<open>The table holds a multiset of objects\<close>

locale kds_hash = hashtable_lib H bucket
  for H :: "(datanode, 't) hash_ops" and bucket
begin

definition holds :: "'t \<Rightarrow> datanode multiset \<Rightarrow> bool" where
  "holds t M \<longleftrightarrow> placed nvalue t \<and> mset (hash_all H t) = M \<and>
     (\<forall>x. filter_mset (\<lambda>nd. nvalue nd = x) (mset (hash_possible H t x)) = filter_mset (\<lambda>nd. nvalue nd = x) M)"

lemma holds_init: "holds (hash_init H) {#}"
  by (simp add: holds_def placed_init all_init possible_init)

lemma holds_add: "holds t M \<Longrightarrow> holds (hash_add H nd (nvalue nd) t) (add_mset nd M)"
  by (auto simp: holds_def placed_add all_add possible_add)

lemma holds_del:
  assumes h: "holds t M" and nd: "nd \<in> set (hash_possible H t (nvalue nd))"
  shows "holds (hash_del H nd t) (M - {#nd#})"
proof -
  have p: "placed nvalue t" using h by (simp add: holds_def)
  show ?thesis
    using h placed_del[OF p nd] all_del[OF nd] possible_del_placed[OF p nd] by (auto simp: holds_def)
qed

lemma insert_holds:
  "holds t M \<Longrightarrow>
    holds (fst (insert_objects (\<lambda>nd t. (hash_add H nd (nvalue nd) t, [K_inserted (nvalue nd)])) nds t)) (mset nds + M)
    \<and> snd (insert_objects (\<lambda>nd t. (hash_add H nd (nvalue nd) t, [K_inserted (nvalue nd)])) nds t)
        = map (\<lambda>nd. K_inserted (nvalue nd)) nds"
proof (induction nds arbitrary: t M)
  case (Cons nd nds)
  then show ?case using Cons.IH[OF holds_add[OF Cons.prems, of nd]] by (simp add: Let_def)
qed simp

lemma size_filter_image: "size (filter_mset (\<lambda>nd. f nd = x) M) = count (image_mset f M) x"
  by (induction M) auto

text \<open>Each object with the number is printed once.\<close>

lemma lookup_holds:
  assumes "holds t M"
  shows "kds_lookup_hash_table H t x = replicate (count (image_mset nvalue M) x) (K_looked_up x)"
proof -
  let ?xs = "filter (\<lambda>nd. nvalue nd = x) (hash_possible H t x)"
  have "mset ?xs = filter_mset (\<lambda>nd. nvalue nd = x) M" using assms by (simp add: holds_def)
  then have "length ?xs = count (image_mset nvalue M) x"
    using size_filter_image[of nvalue x M] by (metis size_mset)
  moreover have "map (\<lambda>nd. K_looked_up (nvalue nd)) ?xs = replicate (length ?xs) (K_looked_up x)"
    by (intro replicate_eqI) auto
  ultimately show ?thesis by (simp add: kds_lookup_hash_table_def)
qed

lemma remove_bucket_first:
  "\<exists>nd \<in> set nds. nvalue nd = x \<Longrightarrow> \<exists>nd \<in> set nds. nvalue nd = x \<and>
     kds_remove_bucket H fm x nds tk = rbind (kfree nd (printk [K_deleting x] (snd tk))) (\<lambda>k'.
        case fm of Trapped \<Rightarrow> Inl UseAfterFree | Untouched \<Rightarrow> Inr (hash_del H nd (fst tk), k'))"
proof (induction nds)
  case (Cons nd nds)
  then show ?case by (cases "nvalue nd = x") auto
qed simp

lemma remove_holds:
  assumes h: "holds t M" and x: "x \<in># image_mset nvalue M" and lv: "addr ` set_mset M \<subseteq> live k"
  shows "\<exists>nd \<in># M. nvalue nd = x \<and> kds_remove_hash_table H fm x (t, k) =
     (case fm of Trapped \<Rightarrow> Inl UseAfterFree
      | Untouched \<Rightarrow> Inr (hash_del H nd t, free_all [nd] (printk [K_deleting x] k)))
     \<and> holds (hash_del H nd t) (M - {#nd#})"
proof -
  have eq: "filter_mset (\<lambda>nd. nvalue nd = x) (mset (hash_possible H t x)) = filter_mset (\<lambda>nd. nvalue nd = x) M"
    using h by (simp add: holds_def)
  have mem: "nd \<in> set (hash_possible H t x) \<longleftrightarrow> nd \<in># M" if "nvalue nd = x" for nd
    using arg_cong[OF eq, of "\<lambda>A. nd \<in># A"] that by simp
  have "\<exists>nd \<in> set (hash_possible H t x). nvalue nd = x" using x mem by auto
  from remove_bucket_first[OF this, of fm "(t, k)"] obtain nd where
      nd: "nd \<in> set (hash_possible H t x)" "nvalue nd = x"
      and run: "kds_remove_bucket H fm x (hash_possible H t x) (t, k) = rbind (kfree nd (printk [K_deleting x] k)) (\<lambda>k'.
        case fm of Trapped \<Rightarrow> Inl UseAfterFree | Untouched \<Rightarrow> Inr (hash_del H nd t, k'))"
    by (cases fm) auto
  have M: "nd \<in># M" using nd mem by simp
  then have "addr nd \<in> live (printk [K_deleting x] k)" using lv by auto
  then have "kds_remove_hash_table H fm x (t, k) =
     (case fm of Trapped \<Rightarrow> Inl UseAfterFree
      | Untouched \<Rightarrow> Inr (hash_del H nd t, free_all [nd] (printk [K_deleting x] k)))"
    using run by (simp add: kds_remove_hash_table_def kfree_new)
  moreover have "holds (hash_del H nd t) (M - {#nd#})" using holds_del[OF h] nd by simp
  ultimately show ?thesis using M nd(2) by blast
qed

text \<open>Removing the values of all objects, in any order, empties the table and frees every object.\<close>

lemma remove_loop_ok:
  "holds t M \<Longrightarrow> image_mset nvalue M = mset xs \<Longrightarrow> addr ` set_mset M \<subseteq> live k \<Longrightarrow>
    inj_on addr (set_mset M) \<Longrightarrow> (\<forall>nd \<in># M. count M nd = 1) \<Longrightarrow>
    \<exists>t' k'. iter_res (kds_remove_hash_table H Untouched) xs (t, k) = Inr (t', k')
      \<and> holds t' {#} \<and> live k' = live k - addr ` set_mset M \<and> klog k' = klog k @ map K_deleting xs"
proof (induction xs arbitrary: t M k)
  case Nil
  then show ?case by simp
next
  case (Cons x xs)
  have "x \<in># image_mset nvalue M" using Cons.prems(2) by simp
  then obtain nd where nd: "nd \<in># M" "nvalue nd = x" "holds (hash_del H nd t) (M - {#nd#})"
      "kds_remove_hash_table H Untouched x (t, k) = Inr (hash_del H nd t, free_all [nd] (printk [K_deleting x] k))"
    using remove_holds[OF Cons.prems(1) _ Cons.prems(3), of x Untouched] by auto
  let ?M = "M - {#nd#}" and ?k = "free_all [nd] (printk [K_deleting x] k)"
  have c: "count M nd = 1" using Cons.prems(5) nd(1) by blast
  have "m \<in># ?M \<longleftrightarrow> m \<in> set_mset M - {nd}" for m
    using c by (cases "m = nd") (auto simp: count_greater_zero_iff[symmetric] simp del: count_greater_zero_iff)
  then have sM: "set_mset ?M = set_mset M - {nd}" by blast
  have im: "image_mset nvalue ?M = mset xs" using Cons.prems(2) nd(1,2) by (simp add: image_mset_Diff)
  have lv: "addr ` set_mset ?M \<subseteq> live ?k"
    using Cons.prems(3,4) nd(1) sM by (auto dest: inj_onD)
  have inj: "inj_on addr (set_mset ?M)" using Cons.prems(4) sM by (auto intro: inj_on_subset)
  have cnt: "\<forall>m \<in># ?M. count ?M m = 1" using Cons.prems(5) sM by auto
  obtain t' k' where ih: "iter_res (kds_remove_hash_table H Untouched) xs (hash_del H nd t, ?k) = Inr (t', k')"
      "holds t' {#}" "live k' = live ?k - addr ` set_mset ?M" "klog k' = klog ?k @ map K_deleting xs"
    using Cons.IH[OF nd(3) im lv inj cnt] by blast
  have "live k' = live k - addr ` set_mset M" using ih(3) sM nd(1) by auto
  then show ?case using nd(4) ih(1,2,4) by simp
qed

end

interpretation ref_kds_hash: kds_hash "ref_hash h" h for h
  by unfold_locales

section \<open>The whole run\<close>

lemma run_hash_table_ok:
  assumes H: "kds_hash H bucket" and km: "kmalloc_total km" and fin: "finite (live k)"
  shows "\<exists>k' ys. run_hash_table H Untouched km xs k = Inr k' \<and> live k' = live k \<and> mset ys = mset xs
    \<and> klog k' = klog k @ map K_inserted xs @ [K_iterating_hash] @ map K_value ys
        @ concat (map (\<lambda>x. replicate (count (mset xs) x) (K_looked_up x)) xs)
        @ map K_deleting xs @ [K_iterating_hash]"
proof -
  let ?ins = "\<lambda>nd t. (hash_add H nd (nvalue nd) t, [K_inserted (nvalue nd)])"
  obtain nds k1 where new: "new_objects xs nds k k1"
      and run: "insert_loop km ?ins xs (hash_init H, k) = Inr (fst (insert_objects ?ins nds (hash_init H)), k1)"
      and log: "klog k1 = klog k @ snd (insert_objects ?ins nds (hash_init H))"
    using kmalloc_total.insert_loop_new[OF km fin, of xs ?ins "hash_init H"] by blast
  let ?t = "fst (insert_objects ?ins nds (hash_init H))"
  have d: "distinct (map addr nds)" and v: "map nvalue nds = xs" and fr: "addr ` set nds \<inter> live k = {}"
      and lv: "live k1 = live k \<union> addr ` set nds"
    using new by (simp_all add: new_objects_def)
  have h: "kds_hash.holds H bucket ?t (mset nds)" and ms: "snd (insert_objects ?ins nds (hash_init H)) = map K_inserted xs"
    using kds_hash.insert_holds[OF H kds_hash.holds_init[OF H], of nds] v by auto
  have all: "mset (hash_all H ?t) = mset nds" using h by (simp add: kds_hash.holds_def[OF H])
  have im: "image_mset nvalue (mset nds) = mset xs" using v by (simp flip: mset_map)
  have look: "kds_lookup_hash_table H ?t = (\<lambda>x. replicate (count (mset xs) x) (K_looked_up x))"
    using kds_hash.lookup_holds[OF H h] im by (intro ext) simp
  let ?k = "printk (concat (map (kds_lookup_hash_table H ?t) xs)) (printk (print_hash_table H ?t) k1)"
  have one: "\<forall>nd \<in># mset nds. count (mset nds) nd = 1"
    using d distinct_count_atmost_1[of nds] by (simp add: distinct_map)
  have inj: "inj_on addr (set_mset (mset nds))" using d by (simp add: distinct_map)
  obtain t' k' where rem: "iter_res (kds_remove_hash_table H Untouched) xs (?t, ?k) = Inr (t', k')"
      "kds_hash.holds H bucket t' {#}" "live k' = live ?k - addr ` set nds" "klog k' = klog ?k @ map K_deleting xs"
    using kds_hash.remove_loop_ok[OF H h im _ inj one, of ?k] lv by auto
  have empty: "hash_all H t' = []" using rem(2) by (simp add: kds_hash.holds_def[OF H])
  let ?ys = "map nvalue (hash_all H ?t)"
  have ys: "mset ?ys = mset xs" using arg_cong[OF all, of "image_mset nvalue"] im by simp
  have "run_hash_table H Untouched km xs k = Inr (printk (print_hash_table H t') k')"
    using run rem(1) by (simp add: run_hash_table_def Let_def)
  moreover have "live k' = live k" using rem(3) lv fr by auto
  moreover have "map (\<lambda>nd. K_value (nvalue nd)) (hash_all H ?t) = map K_value ?ys" by simp
  ultimately show ?thesis using rem(4) log ms look empty ys
    by (intro exI[of _ "printk (print_hash_table H t') k'"] exI[of _ ?ys]) (simp add: print_hash_table_def)
qed

text \<open>Where freed memory is trapped, the first removal is the last.\<close>

lemma run_hash_table_trapped:
  assumes H: "kds_hash H bucket" and km: "kmalloc_total km" and fin: "finite (live k)" and ne: "xs \<noteq> []"
  shows "run_hash_table H Trapped km xs k = Inl UseAfterFree"
proof -
  let ?ins = "\<lambda>nd t. (hash_add H nd (nvalue nd) t, [K_inserted (nvalue nd)])"
  obtain nds k1 where new: "new_objects xs nds k k1"
      and run: "insert_loop km ?ins xs (hash_init H, k) = Inr (fst (insert_objects ?ins nds (hash_init H)), k1)"
    using kmalloc_total.insert_loop_new[OF km fin, of xs ?ins "hash_init H"] by blast
  let ?t = "fst (insert_objects ?ins nds (hash_init H))"
  have h: "kds_hash.holds H bucket ?t (mset nds)"
    using kds_hash.insert_holds[OF H kds_hash.holds_init[OF H], of nds] by auto
  obtain y ys where xs: "xs = y # ys" using ne by (cases xs) auto
  have lv: "addr ` set_mset (mset nds) \<subseteq> live k1" and v: "map nvalue nds = xs"
    using new by (auto simp: new_objects_def)
  have y: "y \<in># image_mset nvalue (mset nds)" using v xs by (simp flip: mset_map)
  let ?k = "printk (concat (map (kds_lookup_hash_table H ?t) xs)) (printk (print_hash_table H ?t) k1)"
  have "kds_remove_hash_table H Trapped y (?t, ?k) = Inl UseAfterFree"
    using kds_hash.remove_holds[OF H h y, of ?k Trapped] lv by auto
  then have "iter_res (kds_remove_hash_table H Trapped) xs (?t, ?k) = Inl UseAfterFree"
    using xs by simp
  then show ?thesis using run unfolding run_hash_table_def Let_def by (simp del: iter_res.simps)
qed

end
