(* ===== verification/Kds_Tree.thy ===== *)
theory Kds_Tree
  imports Kds_Kernel
begin

text \<open>
  The red-black-tree run of the data-structures module (Assignment 2, \<open>kds.c\<close>), over the kernel's
  red-black tree as a parameter. Values compare as signed integers.
\<close>

section \<open>Operations\<close>

definition skey :: "datanode \<Rightarrow> int" where
  "skey nd = sint (nvalue nd)"

definition kds_print_rb_tree :: "datanode tree \<Rightarrow> kmsg list" where
  "kds_print_rb_tree t =
     (if rb_first t = None then [K_root_null] else []) @ map (\<lambda>nd. K_key (nvalue nd)) (inorder t) @ [K_printed]"

text \<open>Insertion of an object, and its message; an equal value is not inserted (and not freed).\<close>

definition kds_insert_rb_tree :: "datanode rb_ops \<Rightarrow> datanode \<Rightarrow> datanode tree \<Rightarrow> datanode tree \<times> kmsg list" where
  "kds_insert_rb_tree L new t =
     (case link_by skey new t of
        None \<Rightarrow> (t, [])
      | Some t' \<Rightarrow> (rb_insert_color L new t', [K_rb_inserted (nvalue new)]))"

fun kds_lookup_rb_tree :: "datanode tree \<Rightarrow> i32 \<Rightarrow> i32 \<times> kmsg list" where
  "kds_lookup_rb_tree Leaf number = (- 1, [])"
| "kds_lookup_rb_tree (Node l this r) number =
     (if sint number < skey this then kds_lookup_rb_tree l number
      else if sint number > skey this then kds_lookup_rb_tree r number
      else (number, [K_found number]))"

text \<open>
  The loop of \<open>remove_rb_tree\<close>: \<open>rb_next\<close> is called on the node just freed, with no promise where it
  leads.
\<close>

partial_function (option) kds_erase_loop ::
  "datanode rb_ops \<Rightarrow> freed_mem \<Rightarrow> datanode option \<Rightarrow> datanode tree \<Rightarrow> kern \<Rightarrow> (datanode tree \<times> kern) res option" where
  "kds_erase_loop L fm node t k =
     (case node of
        None \<Rightarrow> Some (Inr (t, k))
      | Some temp \<Rightarrow>
          (case kfree temp k of
             Inl e \<Rightarrow> Some (Inl e)
           | Inr k' \<Rightarrow>
               (case stale_next L fm temp t of
                  Inl e \<Rightarrow> Some (Inl e)
                | Inr node' \<Rightarrow> kds_erase_loop L fm node' (rb_erase L temp t) k')))"

definition kds_remove_rb_tree ::
  "datanode rb_ops \<Rightarrow> freed_mem \<Rightarrow> datanode tree \<Rightarrow> kern \<Rightarrow> (datanode tree \<times> kern) res option" where
  "kds_remove_rb_tree L fm t k =
     (case kds_erase_loop L fm (rb_first t) t k of
        Some (Inr (t', k')) \<Rightarrow> Some (Inr (t', printk [K_rb_erased] k'))
      | r \<Rightarrow> r)"

text \<open>The body of the insertion loop and of the look-up loop of \<open>run_redblack_trees\<close>.\<close>

definition insert_and_print :: "datanode rb_ops \<Rightarrow> datanode \<Rightarrow> datanode tree \<Rightarrow> datanode tree \<times> kmsg list" where
  "insert_and_print L new t =
     (let (t', ms) = kds_insert_rb_tree L new t in (t', ms @ kds_print_rb_tree t'))"

definition lookup_and_report :: "datanode tree \<Rightarrow> i32 \<Rightarrow> kmsg list" where
  "lookup_and_report t number =
     (let (ret, ms) = kds_lookup_rb_tree t number
      in ms @ (if sint ret < 0 then [K_not_found number] else []))"

definition run_redblack_trees ::
  "datanode rb_ops \<Rightarrow> freed_mem \<Rightarrow> allocator \<Rightarrow> i32 list \<Rightarrow> kern \<Rightarrow> kern res option" where
  "run_redblack_trees L fm km int_array k =
     (case insert_loop km (insert_and_print L) int_array (Leaf, printk (kds_print_rb_tree Leaf) k) of
        Inl e \<Rightarrow> Some (Inl e)
      | Inr (t, k1) \<Rightarrow>
          (case kds_remove_rb_tree L fm t (printk (concat (map (lookup_and_report t) int_array)) k1) of
             None \<Rightarrow> None
           | Some (Inl e) \<Rightarrow> Some (Inl e)
           | Some (Inr (t', k2)) \<Rightarrow> Some (Inr (printk (kds_print_rb_tree t') k2))))"

section \<open>The search tree\<close>

definition stree_ok :: "datanode tree \<Rightarrow> bool" where
  "stree_ok t \<longleftrightarrow> by_key skey (inorder t)"

lemma stree_Leaf [simp]: "stree_ok Leaf"
  by (simp add: stree_ok_def by_key_def)

lemma stree_ok_distinct: "stree_ok t \<Longrightarrow> distinct (inorder t)"
  by (auto simp: stree_ok_def distinct_map dest: by_key_distinct)

lemma sint_eq [simp]: "sint a = sint b \<longleftrightarrow> a = b" for a b :: "'w::len word"
  by (auto intro: signed_word_eqI)

lemma skey_eq: "skey a = skey b \<longleftrightarrow> nvalue a = nvalue b"
  by (simp add: skey_def)

definition keys :: "datanode tree \<Rightarrow> i32 set" where
  "keys t = nvalue ` set (inorder t)"

lemma keys_Leaf: "keys Leaf = set []"
  by (simp add: keys_def)

text \<open>The descent finds exactly the values in the tree.\<close>

lemma lookup_rb_tree_ok:
  "stree_ok t \<Longrightarrow> kds_lookup_rb_tree t x = (if x \<in> keys t then (x, [K_found x]) else (- 1, []))"
proof (induction t)
  case Leaf
  then show ?case by (simp add: keys_def)
next
  case (Node l this r)
  have ord: "stree_ok l" "stree_ok r" "\<forall>a\<in>set (inorder l). skey a < skey this" "\<forall>b\<in>set (inorder r). skey this < skey b"
    using Node.prems by (auto simp: stree_ok_def by_key_append by_key_Cons)
  have k: "x \<in> keys (Node l this r) \<longleftrightarrow> x \<in> keys l \<or> x = nvalue this \<or> x \<in> keys r"
    by (auto simp: keys_def)
  have l: "x \<in> keys l \<Longrightarrow> sint x < skey this" using ord(3) by (auto simp: keys_def skey_def)
  have r: "x \<in> keys r \<Longrightarrow> skey this < sint x" using ord(4) by (auto simp: keys_def skey_def)
  consider "sint x < skey this" | "sint x > skey this" | "sint x = skey this" by linarith
  then show ?case
  proof cases
    case 1
    then have "x \<noteq> nvalue this" by (auto simp: skey_def)
    then show ?thesis using 1 r Node.IH(1)[OF ord(1)] k by auto
  next
    case 2
    then have "x \<noteq> nvalue this" by (auto simp: skey_def)
    then show ?thesis using 2 l Node.IH(2)[OF ord(2)] k by auto
  next
    case 3
    then have "x = nvalue this" by (simp add: skey_def)
    then show ?thesis using 3 k by simp
  qed
qed

text \<open>The values in order are the sorted set of values.\<close>

lemma inorder_sorted:
  assumes "stree_ok t" and "keys t = set xs"
  shows "map nvalue (inorder t) = sort_key sint (remdups xs)"
proof -
  let ?ys = "map nvalue (inorder t)" and ?zs = "sort_key sint (remdups xs)"
  have m: "map sint ?ys = map skey (inorder t)" by (simp add: skey_def comp_def)
  have "sorted_wrt (<) (map skey (inorder t))"
    using assms(1) by (simp add: stree_ok_def by_key_def sorted_wrt_map)
  then have s1: "sorted (map sint ?ys)" "distinct (map sint ?ys)" unfolding m by (simp_all add: strict_sorted_iff)
  have "inj sint" by (simp add: inj_def)
  then have s2: "sorted (map sint ?zs)" "distinct (map sint ?zs)"
    by (simp_all add: distinct_map inj_on_def)
  have "set ?ys = set ?zs" using assms(2) by (simp add: keys_def del: set_inorder)
  then have "set (map sint ?ys) = set (map sint ?zs)" by (simp only: set_map)
  then have "map sint ?ys = map sint ?zs" by (rule sorted_distinct_set_unique[OF s1 s2])
  then show ?thesis by (rule map_injective) (simp add: inj_def)
qed

text \<open>The messages of the insertion loop: each new value, and after each value the sorted tree.\<close>

fun tree_log :: "i32 list \<Rightarrow> i32 list \<Rightarrow> kmsg list" where
  "tree_log old [] = []"
| "tree_log old (x # xs) =
     (if x \<in> set old then [] else [K_rb_inserted x])
     @ map K_key (sort_key sint (remdups (x # old))) @ [K_printed] @ tree_log (x # old) xs"

locale kds_tree = rbtree_lib L for L :: "datanode rb_ops"
begin

lemma insert_one:
  assumes "stree_ok t"
  shows "kds_insert_rb_tree L new t =
      (if nvalue new \<in> keys t then (t, []) else (fst (kds_insert_rb_tree L new t), [K_rb_inserted (nvalue new)]))
    \<and> stree_ok (fst (kds_insert_rb_tree L new t))
    \<and> keys (fst (kds_insert_rb_tree L new t)) = insert (nvalue new) (keys t)
    \<and> set (inorder (fst (kds_insert_rb_tree L new t)))
        = (if nvalue new \<in> keys t then set (inorder t) else insert new (set (inorder t)))"
proof -
  have s: "by_key skey (inorder t)" using assms by (simp add: stree_ok_def)
  have none: "link_by skey new t = None \<longleftrightarrow> nvalue new \<in> keys t"
    using link_by_None[OF s, of new] by (simp add: keys_def skey_eq image_iff eq_commute del: set_inorder)
  show ?thesis
  proof (cases "link_by skey new t")
    case None
    then show ?thesis using none assms by (auto simp: kds_insert_rb_tree_def)
  next
    case (Some t1)
    obtain us vs where io: "inorder t = us @ vs" "inorder t1 = us @ new # vs"
        "\<forall>x\<in>set us. skey x < skey new" "\<forall>y\<in>set vs. skey new < skey y"
      using link_by_Some[OF s Some] by blast
    have i: "inorder (rb_insert_color L new t1) = us @ new # vs" using io(2) by (simp add: inorder_insert_color)
    have "by_key skey (us @ new # vs)" using s io by (auto simp: by_key_append by_key_Cons)
    then have "stree_ok (rb_insert_color L new t1)" by (simp only: stree_ok_def i)
    moreover have "keys (rb_insert_color L new t1) = insert (nvalue new) (keys t)"
      unfolding keys_def i io(1) by auto
    moreover have "set (inorder (rb_insert_color L new t1)) = insert new (set (inorder t))"
      unfolding i io(1) by auto
    ultimately show ?thesis using Some none by (auto simp: kds_insert_rb_tree_def)
  qed
qed

lemma insert_tree_log:
  "stree_ok t \<Longrightarrow> keys t = set old \<Longrightarrow>
    stree_ok (fst (insert_objects (insert_and_print L) nds t))
    \<and> keys (fst (insert_objects (insert_and_print L) nds t)) = set old \<union> nvalue ` set nds
    \<and> set (inorder (fst (insert_objects (insert_and_print L) nds t))) \<subseteq> set (inorder t) \<union> set nds
    \<and> snd (insert_objects (insert_and_print L) nds t) = tree_log old (map nvalue nds)"
proof (induction nds arbitrary: t old)
  case Nil
  then show ?case by (simp del: set_inorder)
next
  case (Cons nd nds)
  let ?t = "fst (kds_insert_rb_tree L nd t)"
  note one = insert_one[OF Cons.prems(1), of nd]
  have f: "fst (insert_and_print L nd t) = ?t"
    by (simp add: insert_and_print_def split: prod.splits)
  have k: "keys ?t = set (nvalue nd # old)" using one Cons.prems(2) by simp
  then have ne: "inorder ?t \<noteq> []" by (auto simp: keys_def simp del: set_inorder)
  have "map nvalue (inorder ?t) = sort_key sint (remdups (nvalue nd # old))"
    using inorder_sorted[OF _ k] one by blast
  then have "map (\<lambda>nd. K_key (nvalue nd)) (inorder ?t) = map K_key (sort_key sint (remdups (nvalue nd # old)))"
    by (metis (no_types, lifting) comp_apply map_eq_conv map_map)
  then have pr: "kds_print_rb_tree ?t = map K_key (sort_key sint (remdups (nvalue nd # old))) @ [K_printed]"
    using ne by (simp add: kds_print_rb_tree_def rb_first_def split: list.splits)
  have s: "snd (insert_and_print L nd t) =
      (if nvalue nd \<in> set old then [] else [K_rb_inserted (nvalue nd)]) @ kds_print_rb_tree ?t"
    using one Cons.prems(2) by (auto simp: insert_and_print_def Let_def split: prod.splits if_splits)
  have sub: "set (inorder ?t) \<subseteq> insert nd (set (inorder t))" using one by (auto split: if_splits simp del: set_inorder)
  have "stree_ok ?t" using one by blast
  from Cons.IH[OF this k] sub show ?case
    by (auto simp: Let_def f s pr simp del: set_inorder remdups.simps)
qed

text \<open>
  The loop ends wherever the freed nodes lead: with a fault, or having erased and freed some of the
  nodes, at least the one it started from.
\<close>

lemma erase_ends:
  "distinct (inorder t) \<Longrightarrow> inj_on addr (set (inorder t)) \<Longrightarrow> addr ` set (inorder t) \<subseteq> live k \<Longrightarrow>
    \<forall>y. node = Some y \<longrightarrow> y \<in> set (inorder t) \<Longrightarrow>
    (kds_erase_loop L fm node t k = Some (Inl UseAfterFree) \<and> \<not> stale_readable L fm)
    \<or> (\<exists>gone t'. kds_erase_loop L fm node t k = Some (Inr (t', free_all gone k)) \<and> set gone \<subseteq> set (inorder t)
         \<and> inorder t' = filter (\<lambda>x. x \<notin> set gone) (inorder t) \<and> (node \<noteq> None \<longrightarrow> gone \<noteq> []))"
proof (induction "length (inorder t)" arbitrary: t node k rule: less_induct)
  case less
  show ?case
  proof (cases node)
    case None
    have "kds_erase_loop L fm None t k = Some (Inr (t, free_all [] k))"
      by (simp add: kds_erase_loop.simps free_all_def)
    then show ?thesis unfolding None by (intro disjI2 exI[of _ "[]"] exI[of _ t]) (simp del: set_inorder)
  next
    case (Some x)
    let ?t = "rb_erase L x t"
    have x: "x \<in> set (inorder t)" using less.prems(4) Some by blast
    have e: "inorder ?t = filter (\<lambda>y. y \<noteq> x) (inorder t)"
      using inorder_erase[OF x less.prems(1)] distinct_remove1_removeAll[OF less.prems(1), of x]
      by (simp add: removeAll_filter_not_eq eq_commute)
    have "addr x \<in> live k" using less.prems(3) x by (auto simp del: set_inorder)
    then have free: "kfree x k = Inr (free_all [x] k)" by (rule kfree_new)
    show ?thesis
    proof (cases rule: stale_next_cases[of L fm x t])
      case (1 r)
      have step: "kds_erase_loop L fm node t k = kds_erase_loop L fm r ?t (free_all [x] k)"
        using 1 free by (simp add: Some kds_erase_loop.simps[of L fm "Some x"])
      have len: "length (inorder ?t) < length (inorder t)"
        unfolding e by (rule length_filter_less[OF x]) simp
      have d: "distinct (inorder ?t)" unfolding e using less.prems(1) by simp
      have sub: "set (inorder ?t) = set (inorder t) - {x}" unfolding e by auto
      have inj: "inj_on addr (set (inorder ?t))" using less.prems(2) unfolding sub by (rule inj_on_diff)
      have "addr y \<noteq> addr x" if "y \<in> set (inorder t) - {x}" for y
        using that x inj_onD[OF less.prems(2), of y x] by (auto simp del: set_inorder)
      then have lv: "addr ` set (inorder ?t) \<subseteq> live (free_all [x] k)"
        using less.prems(3) unfolding sub by (auto simp del: set_inorder)
      have r: "\<forall>y. r = Some y \<longrightarrow> y \<in> set (inorder ?t)" using stale_next_Inr[OF 1] by blast
      from less.hyps[OF len d inj lv r] show ?thesis
      proof (elim disjE exE conjE)
        fix gone t' assume ih: "kds_erase_loop L fm r ?t (free_all [x] k) = Some (Inr (t', free_all gone (free_all [x] k)))"
          "set gone \<subseteq> set (inorder ?t)" "inorder t' = filter (\<lambda>y. y \<notin> set gone) (inorder ?t)"
        have "kds_erase_loop L fm node t k = Some (Inr (t', free_all (x # gone) k))"
          using step ih(1) by (simp add: free_all_Cons)
        moreover have "set (x # gone) \<subseteq> set (inorder t)" using ih(2) x unfolding sub by (auto simp del: set_inorder)
        moreover have "inorder t' = filter (\<lambda>y. y \<notin> set (x # gone)) (inorder t)"
          unfolding ih(3) e by (simp add: conj_commute)
        ultimately show ?thesis by blast
      qed (simp add: step)
    next
      case 2
      then have "\<not> stale_readable L fm" using stale_readableD[OF _ x less.prems(1)] by fastforce
      then show ?thesis using 2 free by (simp add: Some kds_erase_loop.simps[of L fm "Some x"])
    qed
  qed
qed

text \<open>Where an erased first node still leads to its successor, all nodes go.\<close>

lemma erase_all:
  "stale_successor L \<Longrightarrow> distinct (inorder t) \<Longrightarrow> kds_erase_loop L Untouched (first_of (inorder t)) t k = Some (Inr (t', k'))
    \<Longrightarrow> inorder t' = []"
proof (induction "inorder t" arbitrary: t k)
  case Nil
  then show ?case by (simp add: kds_erase_loop.simps)
next
  case (Cons x xs)
  note io = Cons.hyps(2)[symmetric]
  let ?t = "rb_erase L x t"
  have e: "inorder ?t = xs" using inorder_erase[of x t] Cons.prems(2) io by (simp del: set_inorder)
  have "rb_next_erased L x t = first_of xs"
    using Cons.prems(1,2) io by (simp add: stale_successor_def first_of_def)
  then have nx: "stale_next L Untouched x t = Inr (first_of (inorder ?t))"
    using e by (cases xs) (simp_all add: stale_next_def del: set_inorder)
  obtain k1 where "kfree x k = Inr k1"
    using Cons.prems(3) io by (cases "kfree x k") (simp_all add: kds_erase_loop.simps[of L Untouched "Some x"])
  then have "kds_erase_loop L Untouched (first_of (inorder ?t)) ?t k1 = Some (Inr (t', k'))"
    using Cons.prems(3) io nx by (simp add: kds_erase_loop.simps[of L Untouched "Some x"])
  then show ?case using Cons.hyps(1)[of ?t k1] Cons.prems(1,2) e io by simp
qed

end

interpretation ref_kds_tree: kds_tree ref_rb
  by unfold_locales

section \<open>The whole run\<close>

text \<open>What is left of a tree when some of its nodes are gone: values, and objects still allocated.\<close>

lemma run_left:
  assumes t: "stree_ok t" "keys t = set xs" "set (inorder t) \<subseteq> set nds"
    and nds: "map nvalue nds = xs" "distinct (map addr nds)"
    and gone: "set gone \<subseteq> set (inorder t)" "inorder t' = filter (\<lambda>x. x \<notin> set gone) (inorder t)"
  shows "card (addr ` set nds - addr ` set gone) = length xs - card (set xs) + length (map nvalue (inorder t'))"
    and "sorted_wrt (\<lambda>x y. sint x < sint y) (map nvalue (inorder t'))"
    and "set (map nvalue (inorder t')) \<subseteq> set xs"
    and "gone \<noteq> [] \<Longrightarrow> set (map nvalue (inorder t')) \<noteq> set xs"
proof -
  have dt: "distinct (inorder t)" by (rule stree_ok_distinct[OF t(1)])
  have inj: "inj_on nvalue (set (inorder t))"
    using t(1) by (auto simp: stree_ok_def inj_on_def distinct_map skey_eq dest: by_key_distinct)
  have s: "set (inorder t') = set (inorder t) - set gone" unfolding gone(2) by auto
  have xs: "set xs = nvalue ` set (inorder t)" using t(2) by (simp add: keys_def)
  have "card (set (inorder t)) = card (set xs)" unfolding xs by (rule card_image[OF inj, symmetric])
  moreover have "length (inorder t') = card (set (inorder t'))"
    by (rule distinct_card[symmetric]) (use dt gone(2) in simp)
  moreover have "card (set (inorder t')) = card (set (inorder t)) - card (set gone)"
    unfolding s using gone(1) by (simp add: card_Diff_subset del: set_inorder)
  moreover have "card (set gone) \<le> card (set (inorder t))" using gone(1) by (simp add: card_mono del: set_inorder)
  moreover have "card (addr ` set nds - addr ` set gone) = length xs - card (set gone)"
  proof -
    have sub: "set gone \<subseteq> set nds" using gone(1) t(3) by blast
    have "inj_on addr (set nds)" using nds(2) by (simp add: distinct_map)
    then have "card (addr ` set gone) = card (set gone)" using sub by (intro card_image) (rule inj_on_subset)
    moreover have "card (addr ` set nds) = length xs" using distinct_card[OF nds(2)] nds(1) by (metis length_map list.set_map)
    ultimately show ?thesis using sub by (simp add: card_Diff_subset image_mono)
  qed
  moreover have "card (set xs) \<le> length xs" by (rule card_length)
  ultimately show "card (addr ` set nds - addr ` set gone) = length xs - card (set xs) + length (map nvalue (inorder t'))"
    by simp
  have "sorted_wrt (\<lambda>x y. skey x < skey y) (inorder t')"
    using t(1) unfolding gone(2) by (simp add: stree_ok_def by_key_def sorted_wrt_filter)
  then show "sorted_wrt (\<lambda>x y. sint x < sint y) (map nvalue (inorder t'))" by (simp add: sorted_wrt_map skey_def)
  show "set (map nvalue (inorder t')) \<subseteq> set xs" unfolding xs set_map s by auto
  assume "gone \<noteq> []"
  then obtain g where g: "g \<in> set gone" "g \<in> set (inorder t)" using gone(1) by (cases gone) auto
  have "nvalue g \<notin> set (map nvalue (inorder t'))"
    using g inj_onD[OF inj, of _ g] unfolding set_map s by auto
  then show "set (map nvalue (inorder t')) \<noteq> set xs" using g(2) unfolding xs by blast
qed

text \<open>
  Every value is found again (a negative one is also reported as not found). Then the run ends with
  the read of a freed node, or with a rest of the tree, whose values it prints in order; what stays
  allocated is this rest and the objects of repeated values.
\<close>

lemma run_redblack_trees_ok:
  assumes T: "kds_tree L" and km: "kmalloc_total km" and fin: "finite (live k)"
  shows "(run_redblack_trees L fm km xs k = Some (Inl UseAfterFree) \<and> \<not> stale_readable L fm)
    \<or> (\<exists>k' left. run_redblack_trees L fm km xs k = Some (Inr k')
      \<and> live k \<subseteq> live k' \<and> finite (live k') \<and> card (live k' - live k) = length xs - card (set xs) + length left
      \<and> sorted_wrt (\<lambda>x y. sint x < sint y) left \<and> set left \<subseteq> set xs \<and> (xs \<noteq> [] \<longrightarrow> set left \<noteq> set xs)
      \<and> (stale_successor L \<and> fm = Untouched \<longrightarrow> left = [])
      \<and> klog k' = klog k @ [K_root_null, K_printed] @ tree_log [] xs
        @ concat (map (\<lambda>x. K_found x # (if sint x < 0 then [K_not_found x] else [])) xs)
        @ K_rb_erased # (if left = [] then [K_root_null] else map K_key left) @ [K_printed])"
proof -
  let ?k0 = "printk (kds_print_rb_tree Leaf) k"
  obtain nds k1 where new: "new_objects xs nds ?k0 k1"
      and run: "insert_loop km (insert_and_print L) xs (Leaf, ?k0) = Inr (fst (insert_objects (insert_and_print L) nds Leaf), k1)"
      and log: "klog k1 = klog ?k0 @ snd (insert_objects (insert_and_print L) nds Leaf)"
    using kmalloc_total.insert_loop_new[OF km, of ?k0 xs "insert_and_print L" Leaf] fin by auto
  let ?t = "fst (insert_objects (insert_and_print L) nds Leaf)"
  have d: "distinct (map addr nds)" and v: "map nvalue nds = xs" and fr: "addr ` set nds \<inter> live k = {}"
      and lv: "live k1 = live k \<union> addr ` set nds"
    using new by (simp_all add: new_objects_def)
  have vs: "nvalue ` set nds = set xs" using v by (metis list.set_map)
  have t: "stree_ok ?t" "keys ?t = set xs" "set (inorder ?t) \<subseteq> set nds"
      "snd (insert_objects (insert_and_print L) nds Leaf) = tree_log [] xs"
    using kds_tree.insert_tree_log[OF T stree_Leaf keys_Leaf, of nds] vs unfolding v by simp_all
  have look: "concat (map (lookup_and_report ?t) xs) =
      concat (map (\<lambda>x. K_found x # (if sint x < 0 then [K_not_found x] else [])) xs)"
    using lookup_rb_tree_ok[OF t(1)] t(2) by (intro arg_cong[of _ _ concat] map_cong refl) (simp add: lookup_and_report_def)
  let ?k = "printk (concat (map (lookup_and_report ?t) xs)) k1"
  have inj: "inj_on addr (set nds)" using d by (simp add: distinct_map)
  then have injt: "inj_on addr (set (inorder ?t))" using t(3) by (rule inj_on_subset)
  have dt: "distinct (inorder ?t)" by (rule stree_ok_distinct[OF t(1)])
  have lvt: "addr ` set (inorder ?t) \<subseteq> live ?k" using t(3) lv by auto
  have f: "\<forall>y. first_of (inorder ?t) = Some y \<longrightarrow> y \<in> set (inorder ?t)"
    by (cases "inorder ?t") (simp_all del: set_inorder)
  have run': "run_redblack_trees L fm km xs k = (case kds_erase_loop L fm (first_of (inorder ?t)) ?t ?k of
      None \<Rightarrow> None | Some (Inl e) \<Rightarrow> Some (Inl e)
    | Some (Inr (t', k')) \<Rightarrow> Some (Inr (printk (kds_print_rb_tree t') (printk [K_rb_erased] k'))))"
    using run by (simp add: run_redblack_trees_def kds_remove_rb_tree_def rb_first_first_of split: option.split sum.split)
  from kds_tree.erase_ends[OF T dt injt lvt f, of fm] show ?thesis
  proof (elim disjE exE conjE)
    assume "kds_erase_loop L fm (first_of (inorder ?t)) ?t ?k = Some (Inl UseAfterFree)" "\<not> stale_readable L fm"
    then show ?thesis unfolding run' by simp
  next
    fix gone t'
    assume loop: "kds_erase_loop L fm (first_of (inorder ?t)) ?t ?k = Some (Inr (t', free_all gone ?k))"
      and gone: "set gone \<subseteq> set (inorder ?t)" "inorder t' = filter (\<lambda>x. x \<notin> set gone) (inorder ?t)"
        "first_of (inorder ?t) \<noteq> None \<longrightarrow> gone \<noteq> []"
    let ?left = "map nvalue (inorder t')"
    let ?k' = "printk (kds_print_rb_tree t') (printk [K_rb_erased] (free_all gone ?k))"
    have r: "run_redblack_trees L fm km xs k = Some (Inr ?k')" unfolding run' loop by simp
    note rest = run_left[OF t(1-3) v d gone(1,2)]
    have keep: "live k \<subseteq> live ?k'" "live ?k' - live k = addr ` set nds - addr ` set gone"
    proof -
      have "addr ` set gone \<subseteq> addr ` set nds" using gone(1) t(3) by (intro image_mono) (rule subset_trans)
      then show "live k \<subseteq> live ?k'" "live ?k' - live k = addr ` set nds - addr ` set gone"
        using fr unfolding printk_simps free_all_simps lv by blast+
    qed
    have pr: "kds_print_rb_tree t' = (if ?left = [] then [K_root_null] else map K_key ?left) @ [K_printed]"
      "kds_print_rb_tree Leaf = [K_root_null, K_printed]"
      by (auto simp: kds_print_rb_tree_def rb_first_def comp_def split: list.split)
    have "set ?left \<noteq> set xs" if "xs \<noteq> []"
      using rest(4) gone(3) that t(2) by (cases "inorder ?t") (auto simp: keys_def simp del: set_inorder)
    moreover have "?left = []" if "stale_successor L \<and> fm = Untouched"
      using kds_tree.erase_all[OF T _ dt, of ?k t' "free_all gone ?k"] that loop by simp
    moreover have "card (live ?k' - live k) = length xs - card (set xs) + length ?left"
      unfolding keep(2) by (rule rest(1))
    moreover have "finite (live ?k')" using lv fin by simp
    moreover have "klog ?k' = klog k @ [K_root_null, K_printed] @ tree_log [] xs
        @ concat (map (\<lambda>x. K_found x # (if sint x < 0 then [K_not_found x] else [])) xs)
        @ K_rb_erased # (if ?left = [] then [K_root_null] else map K_key ?left) @ [K_printed]"
      using log t(4) by (simp only: printk_simps free_all_simps look pr append_assoc append_Cons append_Nil)
    ultimately show ?thesis using r keep(1) rest(2,3)
      by (intro disjI2 exI[of _ ?k'] exI[of _ ?left] conjI impI)
  qed
qed

end
