(* ===== verification/Kds_Index.thy ===== *)
theory Kds_Index
  imports Kds_Kernel
begin

text \<open>
  The radix-tree and XArray runs of the data-structures module (Assignment 2, \<open>kds.c\<close>). Both
  libraries map an unsigned long to a pointer and keep marks on their entries; the module uses
  the value itself, sign-extended, as the index.
\<close>

section \<open>linux/radix-tree.h and linux/xarray.h\<close>

text \<open>
  \<open>ix_put\<close> is \<open>radix_tree_insert\<close> (an index in use is refused with EEXIST) or \<open>xa_store\<close> (the
  old pointer is replaced); \<open>ix_marked\<close> the marked entries in ascending order of their index, as
  the gang look-up and \<open>xa_for_each_marked\<close> deliver them.
\<close>

record ('n, 'r) index_ops =
  ix_init :: 'r
  ix_put :: "u64 \<Rightarrow> 'n \<Rightarrow> 'r \<Rightarrow> 'r"
  ix_load :: "'r \<Rightarrow> u64 \<Rightarrow> 'n option"
  ix_mark :: "u64 \<Rightarrow> 'r \<Rightarrow> 'r"
  ix_marked :: "'r \<Rightarrow> 'n list"
  ix_erase :: "u64 \<Rightarrow> 'r \<Rightarrow> 'n option \<times> 'r"

locale index_lib =
  fixes R :: "('n, 'r) index_ops"
    and marks :: "'r \<Rightarrow> u64 set"
  assumes load_init: "ix_load R (ix_init R) i = None"
    and marks_init: "marks (ix_init R) = {}"
    and load_put: "ix_load R (ix_put R i n r) i = Some n \<or>
          ix_load R r i \<noteq> None \<and> ix_load R (ix_put R i n r) i = ix_load R r i"
    and load_put_other: "j \<noteq> i \<Longrightarrow> ix_load R (ix_put R i n r) j = ix_load R r j"
    and marks_put: "marks (ix_put R i n r) = marks r"
    and load_mark: "ix_load R (ix_mark R i r) = ix_load R r"
    and marks_mark: "ix_load R r i \<noteq> None \<Longrightarrow> marks (ix_mark R i r) = insert i (marks r)"
    and marked: "marks r \<subseteq> dom (ix_load R r) \<Longrightarrow>
          ix_marked R r = map (\<lambda>i. the (ix_load R r i)) (sorted_list_of_set (marks r))"
    and erase_fst: "fst (ix_erase R i r) = ix_load R r i"
    and load_erase: "ix_load R (snd (ix_erase R i r)) = (ix_load R r)(i := None)"

definition ref_index :: "bool \<Rightarrow> ('n, (u64 \<Rightarrow> 'n option) \<times> u64 set) index_ops" where
  "ref_index replace =
     \<lparr>ix_init = (\<lambda>_. None, {}),
      ix_put = (\<lambda>i n (m, T). (if m i = None \<or> replace then m(i \<mapsto> n) else m, T)),
      ix_load = fst,
      ix_mark = (\<lambda>i (m, T). (m, insert i T)),
      ix_marked = (\<lambda>(m, T). map (\<lambda>i. the (m i)) (sorted_list_of_set T)),
      ix_erase = (\<lambda>i (m, T). (m i, (m(i := None), T - {i})))\<rparr>"

interpretation ref_index: index_lib "ref_index replace" snd for replace
  by unfold_locales (auto simp: ref_index_def split: prod.splits)

section \<open>The radix tree\<close>

text \<open>\<open>number = int_array[i++]\<close> with an unsigned long on the left.\<close>

definition index_of :: "i32 \<Rightarrow> u64" where
  "index_of v = scast v"

definition lookup_radix_tree :: "(datanode, 'r) index_ops \<Rightarrow> i32 list \<Rightarrow> 'r \<Rightarrow> kmsg list" where
  "lookup_radix_tree R int_array r = map (\<lambda>x.
     case ix_load R r (index_of x) of
       None \<Rightarrow> K_missing (index_of x)
     | Some nd \<Rightarrow> K_found (nvalue nd)) int_array"

fun tag_radix_tree :: "(datanode, 'r) index_ops \<Rightarrow> i32 list \<Rightarrow> 'r \<Rightarrow> 'r \<times> kmsg list" where
  "tag_radix_tree R [] r = (r, [])"
| "tag_radix_tree R (x # xs) r =
     (let number = index_of x in
      if number mod 2 = 1 then
        (let (r', ms) = tag_radix_tree R xs (ix_mark R number r) in (r', K_tagged number # ms))
      else tag_radix_tree R xs r)"

text \<open>Up to 100 results are asked for, into an array of 10.\<close>

definition lookup_tagged_tree :: "(datanode, 'r) index_ops \<Rightarrow> 'r \<Rightarrow> kmsg list res" where
  "lookup_tagged_tree R r =
     (let results = take 100 (ix_marked R r) in
      if length results \<le> 10
      then Inr (K_tag_count (length results) # map (\<lambda>nd. K_tag_looked_up (nvalue nd)) results)
      else Inl OutOfBounds)"

definition remove_radix_tree :: "(datanode, 'r) index_ops \<Rightarrow> i32 list \<Rightarrow> 'r \<times> kern \<Rightarrow> ('r \<times> kern) res" where
  "remove_radix_tree R int_array = iter_res (\<lambda>x (r, k).
     case ix_erase R (index_of x) r of
       (None, r') \<Rightarrow> Inr (r', printk [K_no_delete (index_of x)] k)
     | (Some nd, r') \<Rightarrow> rbind (kfree nd (printk [K_deleted (nvalue nd)] k)) (\<lambda>k'. Inr (r', k'))) int_array"

definition run_radix_tree :: "(datanode, 'r) index_ops \<Rightarrow> allocator \<Rightarrow> i32 list \<Rightarrow> kern \<Rightarrow> kern res" where
  "run_radix_tree R km int_array k =
     rbind (insert_loop km (\<lambda>nd r. (ix_put R (index_of (nvalue nd)) nd r, [K_inserted (nvalue nd)])) int_array (ix_init R, k)) (\<lambda>(r, k).
     let k = printk (lookup_radix_tree R int_array r) k; (r, ms) = tag_radix_tree R int_array r in
     rbind (lookup_tagged_tree R r) (\<lambda>ms'.
     rbind (remove_radix_tree R int_array (r, printk (ms @ ms') k)) (\<lambda>(r, k).
     Inr (printk (K_relookup # lookup_radix_tree R int_array r) k))))"

section \<open>The XArray\<close>

definition lookup_xarray :: "(datanode, 'r) index_ops \<Rightarrow> i32 list \<Rightarrow> 'r \<Rightarrow> kmsg list" where
  "lookup_xarray R int_array r = map (\<lambda>x.
     case ix_load R r (index_of x) of
       None \<Rightarrow> K_missing (index_of x)
     | Some nd \<Rightarrow> K_found (nvalue nd)) int_array"

fun tag_xarray :: "(datanode, 'r) index_ops \<Rightarrow> i32 list \<Rightarrow> 'r \<Rightarrow> 'r \<times> kmsg list" where
  "tag_xarray R [] r = (r, [])"
| "tag_xarray R (x # xs) r =
     (let number = index_of x in
      if number mod 2 = 1 then
        (let (r', ms) = tag_xarray R xs (ix_mark R number r) in (r', K_tagged number # ms))
      else tag_xarray R xs r)"

definition lookup_tagged :: "(datanode, 'r) index_ops \<Rightarrow> 'r \<Rightarrow> kmsg list" where
  "lookup_tagged R r = map (\<lambda>nd. K_tag_looked_up (nvalue nd)) (ix_marked R r)"

definition remove_xarray :: "(datanode, 'r) index_ops \<Rightarrow> i32 list \<Rightarrow> 'r \<times> kern \<Rightarrow> ('r \<times> kern) res" where
  "remove_xarray R int_array = iter_res (\<lambda>x (r, k).
     case ix_erase R (index_of x) r of
       (None, r') \<Rightarrow> Inr (r', printk [K_no_delete (index_of x)] k)
     | (Some nd, r') \<Rightarrow> rbind (kfree nd (printk [K_deleted (nvalue nd)] k)) (\<lambda>k'. Inr (r', k'))) int_array"

definition run_xarray :: "(datanode, 'r) index_ops \<Rightarrow> allocator \<Rightarrow> i32 list \<Rightarrow> kern \<Rightarrow> kern res" where
  "run_xarray R km int_array k =
     rbind (insert_loop km (\<lambda>nd r. (ix_put R (index_of (nvalue nd)) nd r, [K_inserted (nvalue nd)])) int_array (ix_init R, k)) (\<lambda>(r, k).
     let k = printk (lookup_xarray R int_array r) k; (r, ms) = tag_xarray R int_array r in
     rbind (remove_xarray R int_array (r, printk (ms @ lookup_tagged R r) k)) (\<lambda>(r, k). Inr k))"

lemma xarray_as_radix:
  "lookup_xarray = lookup_radix_tree" "tag_xarray = tag_radix_tree" "remove_xarray = remove_radix_tree"
proof -
  show "lookup_xarray = lookup_radix_tree"
    by (intro ext) (simp add: lookup_xarray_def lookup_radix_tree_def)
  show "remove_xarray = remove_radix_tree"
    by (intro ext) (simp add: remove_xarray_def remove_radix_tree_def)
  have "tag_xarray R xs r = tag_radix_tree R xs r" for R :: "(datanode, 'b) index_ops" and xs r
    by (induction xs arbitrary: r) (simp_all add: Let_def)
  then show "tag_xarray = (tag_radix_tree :: (datanode, 'b) index_ops \<Rightarrow> _)" by (intro ext)
qed

section \<open>Indices\<close>

lemma index_of_eq [simp]: "index_of a = index_of b \<longleftrightarrow> a = b"
proof
  assume "index_of a = index_of b"
  then have "sint (index_of a) = sint (index_of b)" by simp
  then have "sint a = sint b" by (simp add: index_of_def sint_up_scast is_up)
  then show "a = b" by (simp add: signed_word_eqI)
qed simp

definition odd_index :: "i32 \<Rightarrow> bool" where
  "odd_index x \<longleftrightarrow> index_of x mod 2 = 1"

section \<open>What the runs do\<close>

text \<open>The messages of the removal loop: the first time a value is found, later it is not.\<close>

fun delete_log :: "i32 list \<Rightarrow> i32 list \<Rightarrow> kmsg list" where
  "delete_log old [] = []"
| "delete_log old (x # xs) =
     (if x \<in> set old then K_no_delete (index_of x) else K_deleted x) # delete_log (x # old) xs"

text \<open>The marked values in the order of their indices.\<close>

definition odd_values :: "i32 list \<Rightarrow> i32 list" where
  "odd_values xs = sort_key index_of (remdups (filter odd_index xs))"

locale kds_index = index_lib R marks
  for R :: "(datanode, 'r) index_ops" and marks
begin

text \<open>Every entry is one of the objects, under its value's index.\<close>

definition holds :: "'r \<Rightarrow> i32 set \<Rightarrow> datanode set \<Rightarrow> bool" where
  "holds r S N \<longleftrightarrow> dom (ix_load R r) = index_of ` S \<and>
     (\<forall>i nd. ix_load R r i = Some nd \<longrightarrow> nd \<in> N \<and> index_of (nvalue nd) = i)"

lemma holds_some:
  assumes "holds r S N"
  shows "x \<in> S \<Longrightarrow> \<exists>nd \<in> N. ix_load R r (index_of x) = Some nd \<and> nvalue nd = x"
    and "x \<notin> S \<Longrightarrow> ix_load R r (index_of x) = None"
proof -
  show "\<exists>nd \<in> N. ix_load R r (index_of x) = Some nd \<and> nvalue nd = x" if "x \<in> S"
  proof -
    have "index_of x \<in> dom (ix_load R r)" using assms that by (simp add: holds_def)
    then obtain nd where "ix_load R r (index_of x) = Some nd" by blast
    then show ?thesis using assms by (force simp: holds_def)
  qed
  show "ix_load R r (index_of x) = None" if "x \<notin> S"
  proof -
    have "index_of x \<notin> dom (ix_load R r)" using assms that by (auto simp: holds_def)
    then show ?thesis by blast
  qed
qed

lemma holds_put:
  assumes "holds r S N" and "nd \<in> N"
  shows "holds (ix_put R (index_of (nvalue nd)) nd r) (insert (nvalue nd) S) N"
proof -
  let ?i = "index_of (nvalue nd)" and ?r = "ix_put R (index_of (nvalue nd)) nd r"
  have l: "ix_load R ?r i = Some m \<Longrightarrow> m \<in> N \<and> index_of (nvalue m) = i" for i m
    using load_put[of ?i nd r] load_put_other[of i ?i nd r] assms unfolding holds_def by (metis option.inject)
  have "ix_load R ?r ?i \<noteq> None" using load_put[of ?i nd r] by auto
  then have "i \<in> dom (ix_load R ?r) \<longleftrightarrow> i = ?i \<or> i \<in> dom (ix_load R r)" for i
    using load_put_other[of i ?i nd r] by (cases "i = ?i") (auto simp: domIff)
  then have "dom (ix_load R ?r) = insert ?i (dom (ix_load R r))" by blast
  then show ?thesis using l assms by (simp add: holds_def)
qed

lemma insert_holds:
  "holds r S N \<Longrightarrow> set nds \<subseteq> N \<Longrightarrow> marks r = {} \<Longrightarrow>
    holds (fst (insert_objects (\<lambda>nd r. (ix_put R (index_of (nvalue nd)) nd r, [K_inserted (nvalue nd)])) nds r))
      (S \<union> nvalue ` set nds) N
    \<and> marks (fst (insert_objects (\<lambda>nd r. (ix_put R (index_of (nvalue nd)) nd r, [K_inserted (nvalue nd)])) nds r)) = {}
    \<and> snd (insert_objects (\<lambda>nd r. (ix_put R (index_of (nvalue nd)) nd r, [K_inserted (nvalue nd)])) nds r)
        = map (\<lambda>nd. K_inserted (nvalue nd)) nds"
proof (induction nds arbitrary: r S)
  case (Cons nd nds)
  have "holds (ix_put R (index_of (nvalue nd)) nd r) (insert (nvalue nd) S) N"
    using holds_put[OF Cons.prems(1)] Cons.prems(2) by simp
  from Cons.IH[OF this] Cons.prems(2,3) show ?case by (simp add: Let_def marks_put)
qed simp

lemma lookup_holds:
  assumes "holds r S N" and "set xs \<subseteq> S"
  shows "lookup_radix_tree R xs r = map K_found xs"
  unfolding lookup_radix_tree_def
proof (rule map_cong[OF refl])
  fix x assume "x \<in> set xs"
  then obtain nd where "ix_load R r (index_of x) = Some nd" "nvalue nd = x"
    using holds_some(1)[OF assms(1)] assms(2) by blast
  then show "(case ix_load R r (index_of x) of None \<Rightarrow> K_missing (index_of x) | Some nd \<Rightarrow> K_found (nvalue nd)) = K_found x"
    by simp
qed

lemma tag_holds:
  "\<forall>x \<in> set xs. ix_load R r (index_of x) \<noteq> None \<Longrightarrow>
    ix_load R (fst (tag_radix_tree R xs r)) = ix_load R r
    \<and> marks (fst (tag_radix_tree R xs r)) = marks r \<union> index_of ` {x \<in> set xs. odd_index x}
    \<and> snd (tag_radix_tree R xs r) = map (\<lambda>x. K_tagged (index_of x)) (filter odd_index xs)"
proof (induction xs arbitrary: r)
  case (Cons x xs)
  have "\<forall>y \<in> set xs. ix_load R (ix_mark R (index_of x) r) (index_of y) \<noteq> None"
    using Cons.prems by (simp add: load_mark)
  note mk = Cons.IH[OF this]
  have "\<forall>y \<in> set xs. ix_load R r (index_of y) \<noteq> None" using Cons.prems by simp
  note nomk = Cons.IH[OF this]
  show ?case
  proof (cases "odd_index x")
    case True
    then have "{y \<in> set (x # xs). odd_index y} = insert x {y \<in> set xs. odd_index y}" by auto
    then show ?thesis using True mk Cons.prems
      by (simp add: Let_def load_mark marks_mark odd_index_def case_prod_beta)
  next
    case False
    then have "{y \<in> set (x # xs). odd_index y} = {y \<in> set xs. odd_index y}" by auto
    then show ?thesis using False nomk by (simp add: Let_def odd_index_def)
  qed
qed simp

lemma marked_values:
  assumes h: "holds r S N" and m: "marks r = index_of ` {x \<in> set xs. odd_index x}" and xs: "set xs \<subseteq> S"
  shows "map nvalue (ix_marked R r) = odd_values xs"
proof -
  have sub: "marks r \<subseteq> dom (ix_load R r)" using h m xs by (auto simp: holds_def)
  have nv: "index_of (nvalue (the (ix_load R r i))) = i" if "i \<in> marks r" for i
    using that sub h by (force simp: holds_def)
  have fin: "finite (marks r)" by simp
  have 1: "map index_of (map nvalue (ix_marked R r)) = sorted_list_of_set (marks r)"
    unfolding marked[OF sub] map_map by (rule map_idI) (use nv fin in simp)
  let ?o = "odd_values xs"
  have "set (map index_of ?o) = marks r" using m by (auto simp: odd_values_def)
  moreover have "sorted (map index_of ?o)" "distinct (map index_of ?o)"
    by (simp_all add: odd_values_def distinct_map inj_on_def)
  ultimately have "map index_of ?o = sorted_list_of_set (marks r)"
    using sorted_list_of_set.idem_if_sorted_distinct by metis
  then have "map index_of (map nvalue (ix_marked R r)) = map index_of ?o" using 1 by simp
  then show ?thesis by (rule map_injective) (simp add: inj_def)
qed

lemma remove_holds:
  "holds r S N \<Longrightarrow> inj_on addr N \<Longrightarrow> addr ` ran (ix_load R r) \<subseteq> live k \<Longrightarrow> S \<inter> set old = {} \<Longrightarrow> set xs \<subseteq> S \<union> set old \<Longrightarrow>
    \<exists>r' k'. remove_radix_tree R xs (r, k) = Inr (r', k') \<and> holds r' (S - set xs) N
      \<and> live k' = live k - (\<lambda>x. addr (the (ix_load R r (index_of x)))) ` (S \<inter> set xs)
      \<and> klog k' = klog k @ delete_log old xs"
proof (induction xs arbitrary: r S k old)
  case Nil
  then show ?case by (simp add: remove_radix_tree_def)
next
  case (Cons x xs)
  obtain e where e: "e = snd (ix_erase R (index_of x) r)" by blast
  have le: "ix_load R e = (ix_load R r)(index_of x := None)" unfolding e by (rule load_erase)
  have he: "holds e (S - {x}) N"
    using Cons.prems(1) unfolding holds_def le by (auto simp: image_iff)
  have ran: "ran (ix_load R e) \<subseteq> ran (ix_load R r)" unfolding le by (auto simp: ran_def)
  show ?case
  proof (cases "x \<in> S")
    case False
    then have none: "ix_load R r (index_of x) = None" by (rule holds_some(2)[OF Cons.prems(1)])
    then have er: "ix_erase R (index_of x) r = (None, e)" using erase_fst[of "index_of x" r] e by (metis prod.collapse)
    have x: "x \<in> set old" using Cons.prems(5) False by simp
    have ldr: "ix_load R e = ix_load R r" using le none by auto
    let ?k = "printk [K_no_delete (index_of x)] k"
    have heS: "holds e S N" using he False by simp
    have lv: "addr ` ran (ix_load R e) \<subseteq> live ?k" using Cons.prems(3) ldr by simp
    have old: "S \<inter> set (x # old) = {}" "set xs \<subseteq> S \<union> set (x # old)" using Cons.prems(4,5) False by auto
    obtain r' k' where ih: "remove_radix_tree R xs (e, ?k) = Inr (r', k')" "holds r' (S - set xs) N"
        "live k' = live ?k - (\<lambda>x. addr (the (ix_load R e (index_of x)))) ` (S \<inter> set xs)"
        "klog k' = klog ?k @ delete_log (x # old) xs"
      using Cons.IH[OF heS Cons.prems(2) lv old] by blast
    have "remove_radix_tree R (x # xs) (r, k) = remove_radix_tree R xs (e, ?k)"
      using er by (simp add: remove_radix_tree_def)
    moreover have "S - set (x # xs) = S - set xs" "S \<inter> set (x # xs) = S \<inter> set xs" using False by auto
    ultimately show ?thesis using ih x ldr by simp
  next
    case True
    obtain nd where nd: "nd \<in> N" "ix_load R r (index_of x) = Some nd" "nvalue nd = x"
      using holds_some(1)[OF Cons.prems(1) True] by blast
    have er: "ix_erase R (index_of x) r = (Some nd, e)" using erase_fst[of "index_of x" r] nd(2) e by (metis prod.collapse)
    have a: "addr nd \<in> live k" using Cons.prems(3) nd(2) by (auto simp: ran_def)
    let ?k = "free_all [nd] (printk [K_deleted x] k)"
    have other: "addr m \<noteq> addr nd" if m: "m \<in> ran (ix_load R e)" for m
    proof -
      obtain i where i: "ix_load R e i = Some m" using m by (auto simp: ran_def)
      then have "i \<noteq> index_of x" "ix_load R r i = Some m" using le by (auto split: if_splits)
      then have "m \<in> N" "m \<noteq> nd" using Cons.prems(1) nd(3) by (auto simp: holds_def)
      then show ?thesis using Cons.prems(2) nd(1) by (auto dest: inj_onD)
    qed
    then have lv: "addr ` ran (ix_load R e) \<subseteq> live ?k" using ran Cons.prems(3) by fastforce
    have old: "(S - {x}) \<inter> set (x # old) = {}" "set xs \<subseteq> (S - {x}) \<union> set (x # old)" using Cons.prems(4,5) by auto
    obtain r' k' where ih: "remove_radix_tree R xs (e, ?k) = Inr (r', k')" "holds r' (S - {x} - set xs) N"
        "live k' = live ?k - (\<lambda>x. addr (the (ix_load R e (index_of x)))) ` ((S - {x}) \<inter> set xs)"
        "klog k' = klog ?k @ delete_log (x # old) xs"
      using Cons.IH[OF he Cons.prems(2) lv old] by blast
    have "remove_radix_tree R (x # xs) (r, k) = remove_radix_tree R xs (e, ?k)"
      using er a nd(3) by (simp add: remove_radix_tree_def kfree_new)
    moreover have "S - set (x # xs) = S - {x} - set xs" by auto
    moreover have "(\<lambda>x. addr (the (ix_load R e (index_of x)))) ` ((S - {x}) \<inter> set xs)
        = (\<lambda>x. addr (the (ix_load R r (index_of x)))) ` ((S - {x}) \<inter> set xs)"
      unfolding le by (rule image_cong) auto
    moreover have "S \<inter> set (x # xs) = insert x ((S - {x}) \<inter> set xs)" using True by auto
    moreover have "x \<notin> set old" using Cons.prems(4) True by auto
    ultimately show ?thesis using ih nd(2) by auto
  qed
qed

abbreviation put_object :: "datanode \<Rightarrow> 'r \<Rightarrow> 'r \<times> kmsg list" where
  "put_object \<equiv> \<lambda>nd r. (ix_put R (index_of (nvalue nd)) nd r, [K_inserted (nvalue nd)])"

text \<open>Insertion, look-up and tagging, which both runs start with.\<close>

lemma first_phases:
  assumes km: "kmalloc_total km" and fin: "finite (live k)"
  shows "\<exists>nds k1 r0 r1. new_objects xs nds k k1
    \<and> insert_loop km put_object xs (ix_init R, k) = Inr (r0, k1)
    \<and> klog k1 = klog k @ map K_inserted xs
    \<and> lookup_radix_tree R xs r0 = map K_found xs
    \<and> tag_radix_tree R xs r0 = (r1, map (\<lambda>x. K_tagged (index_of x)) (filter odd_index xs))
    \<and> holds r1 (set xs) (set nds) \<and> map nvalue (ix_marked R r1) = odd_values xs"
proof -
  obtain nds k1 where new: "new_objects xs nds k k1"
      and run: "insert_loop km put_object xs (ix_init R, k) = Inr (fst (insert_objects put_object nds (ix_init R)), k1)"
      and log: "klog k1 = klog k @ snd (insert_objects put_object nds (ix_init R))"
    using kmalloc_total.insert_loop_new[OF km fin, of xs put_object "ix_init R"] by blast
  let ?r0 = "fst (insert_objects put_object nds (ix_init R))" and ?r1 = "fst (tag_radix_tree R xs (fst (insert_objects put_object nds (ix_init R))))"
  have v: "map nvalue nds = xs" using new by (simp add: new_objects_def)
  then have vs: "nvalue ` set nds = set xs" by (metis list.set_map)
  have h0: "holds (ix_init R) {} (set nds)" by (auto simp: holds_def load_init)
  have r0: "holds ?r0 (set xs) (set nds)" "marks ?r0 = {}"
      "snd (insert_objects put_object nds (ix_init R)) = map K_inserted xs"
    using insert_holds[OF h0 order_refl marks_init] unfolding vs v[symmetric] by simp_all
  have "ix_load R ?r0 (index_of x) \<noteq> None" if "x \<in> set xs" for x
    using holds_some(1)[OF r0(1) that] by auto
  then have "\<forall>x \<in> set xs. ix_load R ?r0 (index_of x) \<noteq> None" by blast
  note tag = tag_holds[OF this]
  have r1: "holds ?r1 (set xs) (set nds)" using r0(1) tag by (simp add: holds_def)
  have "marks ?r1 = index_of ` {x \<in> set xs. odd_index x}" using tag r0(2) by simp
  then have mv: "map nvalue (ix_marked R ?r1) = odd_values xs" by (rule marked_values[OF r1 _ order_refl])
  have tg: "tag_radix_tree R xs ?r0 = (?r1, map (\<lambda>x. K_tagged (index_of x)) (filter odd_index xs))"
    using tag by (simp add: prod_eq_iff)
  show ?thesis
    using new run log[unfolded r0(3)] lookup_holds[OF r0(1) order_refl] tg r1 mv
    by (intro exI[of _ nds] exI[of _ k1] exI[of _ ?r0] exI[of _ ?r1] conjI)
qed

text \<open>Removal: one object per distinct value is freed, the objects of repeated values are not.\<close>

lemma last_phase:
  assumes h: "holds r (set xs) (set nds)" and new: "new_objects xs nds k0 k1" and k: "live k = live k1"
    and fin: "finite (live k0)"
  shows "\<exists>r' k'. remove_radix_tree R xs (r, k) = Inr (r', k') \<and> holds r' {} (set nds)
    \<and> live k0 \<subseteq> live k' \<and> finite (live k') \<and> card (live k' - live k0) = length xs - card (set xs)
    \<and> klog k' = klog k @ delete_log [] xs"
proof -
  have d: "distinct (map addr nds)" and v: "map nvalue nds = xs" and fr: "addr ` set nds \<inter> live k0 = {}"
      and lv: "live k = live k0 \<union> addr ` set nds"
    using new k by (simp_all add: new_objects_def)
  have inj: "inj_on addr (set nds)" using d by (simp add: distinct_map)
  have "ran (ix_load R r) \<subseteq> set nds" using h by (auto simp: ran_def holds_def)
  then have "addr ` ran (ix_load R r) \<subseteq> live k" using lv by auto
  from remove_holds[OF h inj this, of "[]" xs]
  obtain r' k' where rem: "remove_radix_tree R xs (r, k) = Inr (r', k')" "holds r' {} (set nds)"
      "live k' = live k - (\<lambda>x. addr (the (ix_load R r (index_of x)))) ` set xs" "klog k' = klog k @ delete_log [] xs"
    by auto
  let ?f = "\<lambda>x. addr (the (ix_load R r (index_of x)))"
  have node: "the (ix_load R r (index_of x)) \<in> set nds \<and> nvalue (the (ix_load R r (index_of x))) = x" if "x \<in> set xs" for x
    using holds_some(1)[OF h that] by auto
  have sub: "?f ` set xs \<subseteq> addr ` set nds" using node by auto
  have "inj_on ?f (set xs)"
  proof (rule inj_onI)
    fix x y assume "x \<in> set xs" "y \<in> set xs" "?f x = ?f y"
    then show "x = y" using node inj_onD[OF inj] by metis
  qed
  then have c: "card (?f ` set xs) = card (set xs)" by (rule card_image)
  have keep: "live k0 \<subseteq> live k'" "live k' - live k0 = addr ` set nds - ?f ` set xs"
    unfolding rem(3) lv using fr sub by blast+
  have "card (addr ` set nds) = length xs" using distinct_card[OF d] v by (metis length_map list.set_map)
  then have "card (live k' - live k0) = length xs - card (set xs)"
    unfolding keep(2) using sub c by (simp add: card_Diff_subset)
  moreover have "finite (live k')" unfolding rem(3) lv using fin by simp
  ultimately show ?thesis using rem(1,2,4) keep(1) by blast
qed

lemma lookup_none: "holds r {} N \<Longrightarrow> lookup_radix_tree R xs r = map (\<lambda>x. K_missing (index_of x)) xs"
  using holds_some(2)[of r "{}" N] by (simp add: lookup_radix_tree_def)

end

interpretation ref_kds_index: kds_index "ref_index replace" snd for replace
  by unfold_locales

section \<open>The whole runs\<close>

lemma length_odd_values: "length (odd_values xs) = card {x \<in> set xs. odd_index x}"
  by (simp add: odd_values_def length_remdups_card_conv flip: set_filter)

lemma marked_log: "map nvalue nds = vs \<Longrightarrow> map (\<lambda>nd. K_tag_looked_up (nvalue nd)) nds = map K_tag_looked_up vs"
  by auto

lemma run_radix_tree_ok:
  assumes R: "kds_index R marks" and km: "kmalloc_total km" and fin: "finite (live k)"
    and few: "card {x \<in> set xs. odd_index x} \<le> 10"
  shows "\<exists>k'. run_radix_tree R km xs k = Inr k'
    \<and> live k \<subseteq> live k' \<and> finite (live k') \<and> card (live k' - live k) = length xs - card (set xs)
    \<and> klog k' = klog k @ map K_inserted xs @ map K_found xs
        @ map (\<lambda>x. K_tagged (index_of x)) (filter odd_index xs)
        @ K_tag_count (card {x \<in> set xs. odd_index x}) # map K_tag_looked_up (odd_values xs)
        @ delete_log [] xs @ K_relookup # map (\<lambda>x. K_missing (index_of x)) xs"
proof -
  obtain nds k1 r0 r1 where p: "new_objects xs nds k k1"
      "insert_loop km (\<lambda>nd r. (ix_put R (index_of (nvalue nd)) nd r, [K_inserted (nvalue nd)])) xs (ix_init R, k) = Inr (r0, k1)"
      "klog k1 = klog k @ map K_inserted xs" "lookup_radix_tree R xs r0 = map K_found xs"
      "tag_radix_tree R xs r0 = (r1, map (\<lambda>x. K_tagged (index_of x)) (filter odd_index xs))"
      "kds_index.holds R r1 (set xs) (set nds)" "map nvalue (ix_marked R r1) = odd_values xs"
    using kds_index.first_phases[OF R km fin] by blast
  have len: "length (ix_marked R r1) = card {x \<in> set xs. odd_index x}"
    using arg_cong[OF p(7), of length] length_odd_values[of xs] by simp
  have g: "lookup_tagged_tree R r1 = Inr (K_tag_count (card {x \<in> set xs. odd_index x}) # map K_tag_looked_up (odd_values xs))"
    using few len marked_log[OF p(7)] by (simp add: lookup_tagged_tree_def)
  let ?ms = "map (\<lambda>x. K_tagged (index_of x)) (filter odd_index xs)
    @ K_tag_count (card {x \<in> set xs. odd_index x}) # map K_tag_looked_up (odd_values xs)"
  let ?k = "printk ?ms (printk (map K_found xs) k1)"
  obtain r' k' where rem: "remove_radix_tree R xs (r1, ?k) = Inr (r', k')" "kds_index.holds R r' {} (set nds)"
      "live k \<subseteq> live k'" "finite (live k')" "card (live k' - live k) = length xs - card (set xs)" "klog k' = klog ?k @ delete_log [] xs"
    using kds_index.last_phase[OF R p(6,1) _ fin, of ?k] by auto
  have "run_radix_tree R km xs k = Inr (printk (K_relookup # map (\<lambda>x. K_missing (index_of x)) xs) k')"
    using p(2,4,5) g rem(1) kds_index.lookup_none[OF R rem(2)] by (simp add: run_radix_tree_def Let_def)
  then show ?thesis using rem(3-6) p(3) by simp
qed

lemma run_radix_tree_overflow:
  assumes R: "kds_index R marks" and km: "kmalloc_total km" and fin: "finite (live k)"
    and many: "10 < card {x \<in> set xs. odd_index x}"
  shows "run_radix_tree R km xs k = Inl OutOfBounds"
proof -
  obtain nds k1 r0 r1 where p:
      "insert_loop km (\<lambda>nd r. (ix_put R (index_of (nvalue nd)) nd r, [K_inserted (nvalue nd)])) xs (ix_init R, k) = Inr (r0, k1)"
      "tag_radix_tree R xs r0 = (r1, map (\<lambda>x. K_tagged (index_of x)) (filter odd_index xs))"
      "map nvalue (ix_marked R r1) = odd_values xs"
    using kds_index.first_phases[OF R km fin] by blast
  have len: "length (ix_marked R r1) = card {x \<in> set xs. odd_index x}"
    using arg_cong[OF p(3), of length] length_odd_values[of xs] by simp
  have "lookup_tagged_tree R r1 = Inl OutOfBounds"
    using many len by (simp add: lookup_tagged_tree_def Let_def min_def)
  then show ?thesis using p(1,2) by (simp add: run_radix_tree_def Let_def)
qed

lemma run_xarray_ok:
  assumes R: "kds_index R marks" and km: "kmalloc_total km" and fin: "finite (live k)"
  shows "\<exists>k'. run_xarray R km xs k = Inr k'
    \<and> live k \<subseteq> live k' \<and> finite (live k') \<and> card (live k' - live k) = length xs - card (set xs)
    \<and> klog k' = klog k @ map K_inserted xs @ map K_found xs
        @ map (\<lambda>x. K_tagged (index_of x)) (filter odd_index xs)
        @ map K_tag_looked_up (odd_values xs) @ delete_log [] xs"
proof -
  obtain nds k1 r0 r1 where p: "new_objects xs nds k k1"
      "insert_loop km (\<lambda>nd r. (ix_put R (index_of (nvalue nd)) nd r, [K_inserted (nvalue nd)])) xs (ix_init R, k) = Inr (r0, k1)"
      "klog k1 = klog k @ map K_inserted xs" "lookup_radix_tree R xs r0 = map K_found xs"
      "tag_radix_tree R xs r0 = (r1, map (\<lambda>x. K_tagged (index_of x)) (filter odd_index xs))"
      "kds_index.holds R r1 (set xs) (set nds)" "map nvalue (ix_marked R r1) = odd_values xs"
    using kds_index.first_phases[OF R km fin] by blast
  have g: "lookup_tagged R r1 = map K_tag_looked_up (odd_values xs)"
    using marked_log[OF p(7)] by (simp add: lookup_tagged_def)
  let ?ms = "map (\<lambda>x. K_tagged (index_of x)) (filter odd_index xs) @ map K_tag_looked_up (odd_values xs)"
  let ?k = "printk ?ms (printk (map K_found xs) k1)"
  obtain r' k' where rem: "remove_radix_tree R xs (r1, ?k) = Inr (r', k')" "live k \<subseteq> live k'"
      "finite (live k')" "card (live k' - live k) = length xs - card (set xs)" "klog k' = klog ?k @ delete_log [] xs"
    using kds_index.last_phase[OF R p(6,1) _ fin, of ?k] by auto
  have "run_xarray R km xs k = Inr k'"
    using p(2,4,5) g rem(1) by (simp add: run_xarray_def Let_def xarray_as_radix)
  then show ?thesis using rem(2-5) p(3) by simp
qed

end
