(* ===== verification/Kds_Bitmap.thy ===== *)
theory Kds_Bitmap
  imports Kds_Kernel
begin

text \<open>
  The bitmap run of the data-structures module (Assignment 2, \<open>kds.c\<close>): a bitmap of 10 bits, which
  is one unsigned long, collects the binary digits of all positive integers.
\<close>

section \<open>Operations\<close>

text \<open>\<open>set_bit\<close> on a bitmap of one word.\<close>

definition set_bitmap :: "nat \<Rightarrow> u64 \<Rightarrow> u64 res" where
  "set_bitmap b mybitmap = (if b < 64 then Inr (set_bit b mybitmap) else Inl OutOfBounds)"

text \<open>The inner loop, on the value of the C \<open>int\<close>.\<close>

function bits_loop :: "int \<Rightarrow> nat \<Rightarrow> u64 \<times> kern \<Rightarrow> (u64 \<times> kern) res" where
  "bits_loop number b (mybitmap, k) =
     (if number > 0 then
        rbind (if number mod 2 = 1
               then rbind (set_bitmap b mybitmap) (\<lambda>m. Inr (m, printk [K_set_bit b] k))
               else Inr (mybitmap, k))
          (bits_loop (number div 2) (Suc b))
      else Inr (mybitmap, k))"
  by pat_completeness auto
termination by (relation "measure (\<lambda>(number, b, bk). nat number)") auto

declare bits_loop.simps [simp del]

definition run_bitmap :: "i32 list \<Rightarrow> kern \<Rightarrow> kern res" where
  "run_bitmap int_array k =
     rbind (iter_res (\<lambda>number (mybitmap, k). bits_loop (sint number) 0 (mybitmap, printk [K_bitmap number] k))
       int_array (0, k)) (\<lambda>(mybitmap, k).
     Inr (printk (K_set_bits # map K_bit (filter (bit mybitmap) [0..<10]) @ [K_cleared]) k))"

section \<open>What it does\<close>

lemma bits_loop_neg: "number \<le> 0 \<Longrightarrow> bits_loop number b bk = Inr bk"
  by (cases bk) (simp add: bits_loop.simps)

lemma bits_loop_ok:
  "0 \<le> number \<Longrightarrow> number < 2 ^ (31 - b) \<Longrightarrow> b \<le> 31 \<Longrightarrow>
    \<exists>m'. bits_loop number b (m, k) = Inr (m', printk (map K_set_bit (filter (\<lambda>j. bit number (j - b)) [b..<31])) k)
      \<and> (\<forall>j < 64. bit m' j \<longleftrightarrow> bit m j \<or> (b \<le> j \<and> bit number (j - b)))"
proof (induction "nat number" arbitrary: number b m k rule: less_induct)
  case less
  show ?case
  proof (cases "number = 0")
    case True
    then show ?thesis by (simp add: bits_loop_neg printk_def)
  next
    case False
    then have pos: "number > 0" using less.prems by simp
    have b: "b < 31" using less.prems(2,3) pos by (cases "b = 31") auto
    have half: "nat (number div 2) < nat number" "0 \<le> number div 2" using pos by auto
    have "31 - b = Suc (31 - Suc b)" using b by simp
    then have "number < 2 * 2 ^ (31 - Suc b)" using less.prems(2) by (metis power_Suc)
    then have lim: "number div 2 < 2 ^ (31 - Suc b)" "Suc b \<le> 31" using b by auto
    have shift: "bit number (j - b) = bit (number div 2) (j - Suc b)" if "Suc b \<le> j" for j
      using that by (metis Suc_diff_Suc bit_Suc less_eq_Suc_le)
    have up: "[b..<31] = b # [Suc b..<31]" using b by (simp add: upt_conv_Cons)
    have fl: "filter (\<lambda>j. bit number (j - b)) [Suc b..<31] = filter (\<lambda>j. bit (number div 2) (j - Suc b)) [Suc b..<31]"
      using shift by (intro filter_cong) auto
    let ?m = "if odd number then set_bit b m else m"
    let ?k = "if odd number then printk [K_set_bit b] k else k"
    have step: "bits_loop number b (m, k) = bits_loop (number div 2) (Suc b) (?m, ?k)"
      using pos b by (subst bits_loop.simps) (simp add: set_bitmap_def odd_iff_mod_2_eq_one)
    obtain m' where m': "bits_loop (number div 2) (Suc b) (?m, ?k)
          = Inr (m', printk (map K_set_bit (filter (\<lambda>j. bit (number div 2) (j - Suc b)) [Suc b..<31])) ?k)"
        "\<forall>j < 64. bit m' j \<longleftrightarrow> bit ?m j \<or> (Suc b \<le> j \<and> bit (number div 2) (j - Suc b))"
      using less.hyps[OF half lim] by blast
    have "bit m' j \<longleftrightarrow> bit m j \<or> (b \<le> j \<and> bit number (j - b))" if "j < 64" for j
      using that m'(2) shift[of j] by (cases "j = b") (auto simp: bit_set_bit_iff bit_0)
    moreover have "printk (map K_set_bit (filter (\<lambda>j. bit (number div 2) (j - Suc b)) [Suc b..<31])) ?k
        = printk (map K_set_bit (filter (\<lambda>j. bit number (j - b)) [b..<31])) k"
      unfolding up using fl by (simp add: printk_def bit_0)
    ultimately show ?thesis using step m'(1) by auto
  qed
qed

definition digits_of :: "i32 \<Rightarrow> nat list" where
  "digits_of x = (if 0 < sint x then filter (bit (sint x)) [0..<31] else [])"

lemma one_integer:
  "\<exists>m'. bits_loop (sint x) 0 (m, k) = Inr (m', printk (map K_set_bit (digits_of x)) k)
     \<and> (\<forall>j < 31. bit m' j \<longleftrightarrow> bit m j \<or> j \<in> set (digits_of x))" for x :: i32
proof (cases "0 < sint x")
  case True
  have "sint x < 2 ^ 31" using sint_less[of x] by simp
  then show ?thesis using bits_loop_ok[of "sint x" 0 m k] True by (auto simp: digits_of_def)
next
  case False
  then show ?thesis by (simp add: bits_loop_neg digits_of_def printk_def)
qed

lemma run_bitmap_ok:
  "run_bitmap xs k = Inr (printk (concat (map (\<lambda>x. K_bitmap x # map K_set_bit (digits_of x)) xs)
     @ K_set_bits # map K_bit (filter (\<lambda>b. \<exists>x \<in> set xs. b \<in> set (digits_of x)) [0..<10]) @ [K_cleared]) k)"
proof -
  have loop: "\<exists>m'. iter_res (\<lambda>number (mybitmap, k). bits_loop (sint number) 0 (mybitmap, printk [K_bitmap number] k)) xs (m, k)
      = Inr (m', printk (concat (map (\<lambda>x. K_bitmap x # map K_set_bit (digits_of x)) xs)) k)
      \<and> (\<forall>j < 31. bit m' j \<longleftrightarrow> bit m j \<or> (\<exists>x \<in> set xs. j \<in> set (digits_of x)))" for m k
  proof (induction xs arbitrary: m k)
    case Nil
    then show ?case by (simp add: printk_def)
  next
    case (Cons x xs)
    obtain m1 where m1: "bits_loop (sint x) 0 (m, printk [K_bitmap x] k)
          = Inr (m1, printk (map K_set_bit (digits_of x)) (printk [K_bitmap x] k))"
        "\<forall>j < 31. bit m1 j \<longleftrightarrow> bit m j \<or> j \<in> set (digits_of x)"
      using one_integer by blast
    from Cons.IH[of m1 "printk (map K_set_bit (digits_of x)) (printk [K_bitmap x] k)"] m1 show ?case
      by (auto simp: printk_def)
  qed
  obtain m' where m': "iter_res (\<lambda>number (mybitmap, k). bits_loop (sint number) 0 (mybitmap, printk [K_bitmap number] k)) xs (0, k)
      = Inr (m', printk (concat (map (\<lambda>x. K_bitmap x # map K_set_bit (digits_of x)) xs)) k)"
      "\<forall>j < 31. bit m' j \<longleftrightarrow> (\<exists>x \<in> set xs. j \<in> set (digits_of x))"
    using loop[of 0 k] by auto
  have "filter (bit m') [0..<10] = filter (\<lambda>b. \<exists>x \<in> set xs. b \<in> set (digits_of x)) [0..<10]"
    using m'(2) by (intro filter_cong) auto
  then show ?thesis using m'(1) by (simp add: run_bitmap_def printk_def)
qed

end
