(* ===== verification/Kds.thy ===== *)
theory Kds
  imports Kds_List Kds_Hash Kds_Tree Kds_Index Kds_Bitmap
begin

text \<open>
  The data-structures module as a whole (Assignment 2, \<open>kds.c\<close>): \<open>lkp_init\<close> converts the
  parameter string and runs every data structure on the integers.
\<close>

section \<open>The kernel the module is loaded into\<close>

record ('l, 't, 'r, 'x) kernel =
  k_list :: "(datanode, 'l) list_ops"
  k_hash :: "(datanode, 't) hash_ops"
  k_rb :: "datanode rb_ops"
  k_radix :: "(datanode, 'r) index_ops"
  k_xarray :: "(datanode, 'x) index_ops"
  k_freed :: freed_mem
  k_malloc :: allocator
  k_garbage :: "nat \<Rightarrow> i32 list"

text \<open>
  \<open>lkp_init\<close>; \<open>k_garbage n\<close> is what an array of \<open>n\<close> integers from \<open>kmalloc\<close> holds. The value
  returned, 0, is left out.
\<close>

definition lkp_init :: "('l, 't, 'r, 'x) kernel \<Rightarrow> string \<Rightarrow> kern \<Rightarrow> kern res option" where
  "lkp_init K int_str k =
     (let cnt = count_integers int_str in
      case k_malloc K (calls k) (live k) of
        None \<Rightarrow> Some (Inl NullDeref)
      | Some a \<Rightarrow>
          run_bind (Some (convert_str_to_integers int_str (k_garbage K cnt) cnt)) (\<lambda>int_array.
          let k = printk (map K_input int_array) (k\<lparr>live := insert a (live k), calls := Suc (calls k)\<rparr>) in
          run_bind (Some (run_linked_list (k_list K) (k_malloc K) int_array k)) (\<lambda>k.
          run_bind (Some (run_hash_table (k_hash K) (k_freed K) (k_malloc K) int_array k)) (\<lambda>k.
          run_bind (run_redblack_trees (k_rb K) (k_freed K) (k_malloc K) int_array k) (\<lambda>k.
          run_bind (Some (run_radix_tree (k_radix K) (k_malloc K) int_array k)) (\<lambda>k.
          run_bind (Some (run_xarray (k_xarray K) (k_malloc K) int_array k)) (\<lambda>k.
          run_bind (Some (run_bitmap int_array k)) (\<lambda>k.
          Some (kfree \<lparr>addr = a, nvalue = 0\<rparr> k)))))))))"

text \<open>
  A kernel whose libraries keep their promises and that does not run out of memory. Nothing is said
  of freed memory.
\<close>

definition kernel_ok :: "(i32 \<Rightarrow> nat) \<Rightarrow> ('r \<Rightarrow> u64 set) \<Rightarrow> ('x \<Rightarrow> u64 set) \<Rightarrow> ('l, 't, 'r, 'x) kernel \<Rightarrow> bool" where
  "kernel_ok bucket marks marks' K \<longleftrightarrow>
     kds_list (k_list K) \<and> kds_hash (k_hash K) bucket \<and> kds_tree (k_rb K)
     \<and> kds_index (k_radix K) marks \<and> kds_index (k_xarray K) marks'
     \<and> kmalloc_total (k_malloc K) \<and> (\<forall>n. length (k_garbage K n) = n)"

definition ref_kernel :: "(datanode list, (i32 \<times> datanode) list,
    (u64 \<Rightarrow> datanode option) \<times> u64 set, (u64 \<Rightarrow> datanode option) \<times> u64 set) kernel" where
  "ref_kernel = \<lparr>k_list = ref_list, k_hash = ref_hash (\<lambda>k. unat k mod 16384), k_rb = ref_rb,
     k_radix = ref_index False, k_xarray = ref_index True, k_freed = Untouched, k_malloc = ref_kmalloc,
     k_garbage = (\<lambda>n. replicate n 0)\<rparr>"

lemma ref_kernel_ok: "kernel_ok (\<lambda>k. unat k mod 16384) snd snd ref_kernel"
  by (simp add: kernel_ok_def ref_kernel_def ref_kds_list.kds_list_axioms ref_kds_hash.kds_hash_axioms
      ref_kds_tree.kds_tree_axioms ref_kds_index.kds_index_axioms ref_kmalloc.kmalloc_total_axioms)

lemma card_chain:
  "A \<subseteq> B \<Longrightarrow> B \<subseteq> C \<Longrightarrow> finite C \<Longrightarrow> card (C - A) = card (C - B) + card (B - A)" for A B C :: "'a set"
proof -
  assume "A \<subseteq> B" "B \<subseteq> C" "finite C"
  then have "C - A = (C - B) \<union> (B - A)" "(C - B) \<inter> (B - A) = {}" "finite (C - B)" "finite (B - A)"
    by (auto intro: finite_subset)
  then show ?thesis by (simp add: card_Un_disjoint)
qed

lemma sorted_left:
  fixes xs left :: "i32 list"
  assumes "sorted_wrt (\<lambda>x y. sint x < sint y) left" and "set left \<subseteq> set xs" and "set left \<noteq> set xs"
  shows "length left < card (set xs)"
proof -
  have "sorted_wrt (<) (map sint left)" using assms(1) by (simp add: sorted_wrt_map)
  then have "distinct (map sint left)" by (simp add: strict_sorted_iff)
  then have "length left = card (set left)" by (simp add: distinct_map distinct_card)
  also have "\<dots> < card (set xs)" using assms(2,3) by (intro psubset_card_mono) auto
  finally show ?thesis .
qed

text \<open>
  Loading the module: the objects of repeated values in the tree, the radix tree and the XArray
  stay allocated, and the nodes the removal loop of the tree did not reach; everything else is given
  back. Or the load ends with the read of a freed object.
\<close>

lemma lkp_init_ok:
  assumes K: "kernel_ok bucket marks marks' K" and fin: "finite (live k)"
    and s: "s \<noteq> []" "last s \<noteq> CHR '' ''"
    and xs: "xs = map (word_value 0) (split_spaces s)" and few: "card {x \<in> set xs. odd_index x} \<le> 10"
  shows "(lkp_init K s k = Some (Inl UseAfterFree) \<and> \<not> stale_readable (k_rb K) (k_freed K))
    \<or> (\<exists>k' left. lkp_init K s k = Some (Inr k') \<and> live k \<subseteq> live k'
      \<and> card (live k' - live k) = 3 * (length xs - card (set xs)) + left \<and> left < card (set xs)
      \<and> (stale_successor (k_rb K) \<and> k_freed K = Untouched \<longrightarrow> left = 0))"
proof -
  have k: "kds_list (k_list K)" "kds_hash (k_hash K) bucket" "kds_tree (k_rb K)" "kds_index (k_radix K) marks"
      "kds_index (k_xarray K) marks'" "kmalloc_total (k_malloc K)" "\<And>n. length (k_garbage K n) = n"
    using K by (simp_all add: kernel_ok_def)
  have ne: "xs \<noteq> []" using length_split_spaces[of s] xs by (auto simp: Suc_length_conv)
  obtain a where a: "k_malloc K (calls k) (live k) = Some a"
    using kmalloc_total.succeeds[OF k(6) fin] by fastforce
  have na: "a \<notin> live k"
    using kmalloc_lib.fresh[OF kmalloc_total.axioms(1)[OF k(6)] fin a] .
  let ?k0 = "printk (map K_input xs) (k\<lparr>live := insert a (live k), calls := Suc (calls k)\<rparr>)"
  have conv: "convert_str_to_integers s (k_garbage K (count_integers s)) (count_integers s) = Inr xs"
    using convert_words[OF s] k(7) xs by simp
  obtain k1 where k1: "run_linked_list (k_list K) (k_malloc K) xs ?k0 = Inr k1" "live k1 = insert a (live k)"
    using run_linked_list_ok[OF k(1,6), of ?k0 xs] fin by auto
  have f1: "finite (live k1)" using fin k1(2) by simp
  show ?thesis
  proof (cases "k_freed K")
    case Trapped
    then have "run_hash_table (k_hash K) (k_freed K) (k_malloc K) xs k1 = Inl UseAfterFree"
      using run_hash_table_trapped[OF k(2,6) f1 ne] by simp
    then have "lkp_init K s k = Some (Inl UseAfterFree)"
      unfolding lkp_init_def Let_def a conv using k1(1) by simp
    then show ?thesis using Trapped by simp
  next
    case Untouched
    obtain k2 where k2: "run_hash_table (k_hash K) Untouched (k_malloc K) xs k1 = Inr k2" "live k2 = live k1"
      using run_hash_table_ok[OF k(2,6) f1] by blast
    have f2: "finite (live k2)" using f1 k2(2) by simp
    from run_redblack_trees_ok[OF k(3,6) f2, of Untouched xs] show ?thesis
    proof (elim disjE exE conjE)
      assume "run_redblack_trees (k_rb K) Untouched (k_malloc K) xs k2 = Some (Inl UseAfterFree)"
        "\<not> stale_readable (k_rb K) Untouched"
      moreover from this(1) have "lkp_init K s k = Some (Inl UseAfterFree)"
        unfolding lkp_init_def Let_def a conv Untouched using k1(1) k2(1) by simp
      ultimately show ?thesis using Untouched by simp
    next
      fix k3 left
      assume k3: "run_redblack_trees (k_rb K) Untouched (k_malloc K) xs k2 = Some (Inr k3)"
        "live k2 \<subseteq> live k3" "finite (live k3)" "card (live k3 - live k2) = length xs - card (set xs) + length left"
        and left: "sorted_wrt (\<lambda>x y. sint x < sint y) left" "set left \<subseteq> set xs" "xs \<noteq> [] \<longrightarrow> set left \<noteq> set xs"
          "stale_successor (k_rb K) \<and> Untouched = Untouched \<longrightarrow> left = []"
      obtain k4 where k4: "run_radix_tree (k_radix K) (k_malloc K) xs k3 = Inr k4"
          "live k3 \<subseteq> live k4" "finite (live k4)" "card (live k4 - live k3) = length xs - card (set xs)"
        using run_radix_tree_ok[OF k(4,6) k3(3) few] by blast
      obtain k5 where k5: "run_xarray (k_xarray K) (k_malloc K) xs k4 = Inr k5"
          "live k4 \<subseteq> live k5" "finite (live k5)" "card (live k5 - live k4) = length xs - card (set xs)"
        using run_xarray_ok[OF k(5,6) k4(3)] by blast
      obtain k6 where k6: "run_bitmap xs k5 = Inr k6" "live k6 = live k5"
        using run_bitmap_ok[of xs k5] by simp
      have a6: "a \<in> live k6" using k1(2) k2(2) k3(2) k4(2) k5(2) k6(2) by auto
      have run: "lkp_init K s k = Some (Inr (k6\<lparr>live := live k6 - {a}\<rparr>))"
        unfolding lkp_init_def Let_def a conv Untouched
        using k1(1) k2(1) k3(1) k4(1) k5(1) k6(1) a6 by (simp add: kfree_def)
      have sub: "live k2 \<subseteq> live k5" using k3(2) k4(2) k5(2) by auto
      have "card (live k5 - live k2) = 3 * (length xs - card (set xs)) + length left"
        using card_chain[OF k3(2) _ k5(3)] card_chain[OF k4(2) k5(2,3)] k3(2,4) k4(2,4) k5(2,4) by auto
      moreover have "live k6 - {a} - live k = live k5 - live k2" "live k \<subseteq> live k6 - {a}"
        using k1(2) k2(2) k6(2) sub na by auto
      moreover have "length left < card (set xs)" using sorted_left[OF left(1,2)] left(3) ne by blast
      ultimately show ?thesis using run left(4)
        by (intro disjI2 exI[of _ "k6\<lparr>live := live k6 - {a}\<rparr>"] exI[of _ "length left"]) simp
    qed
  qed
qed

end
