(* ===== verification/Kds_Properties.thy ===== *)
theory Kds_Properties
  imports Kds
begin

text \<open>
  What the data-structures module (Assignment 2) does with its parameter string and with each
  data structure, what it leaves allocated, and the inputs on which it leaves its arrays.
\<close>

section \<open>The parameter string\<close>

fun join_spaces :: "string list \<Rightarrow> string" where
  "join_spaces [] = []"
| "join_spaces [w] = w"
| "join_spaces (w # ws) = w @ CHR '' '' # join_spaces ws"

lemma split_word: "CHR '' '' \<notin> set w \<Longrightarrow> split_spaces w = [w]"
  by (induction w) auto

lemma split_word_space: "CHR '' '' \<notin> set w \<Longrightarrow> split_spaces (w @ CHR '' '' # s) = w # split_spaces s"
  by (induction w) auto

lemma split_join: "ws \<noteq> [] \<Longrightarrow> \<forall>w \<in> set ws. CHR '' '' \<notin> set w \<Longrightarrow> split_spaces (join_spaces ws) = ws"
  by (induction ws rule: join_spaces.induct) (auto simp: split_word split_word_space)

lemma word_value_append: "word_value v (s @ t) = word_value (word_value v s) t"
  by (induction v s rule: word_value.induct) auto

lemma char_val_digit: "d < 10 \<Longrightarrow> char_val (digit_char d) = 48 + int d"
  by (simp add: char_val_def)

lemma word_value_show_nat: "word_value v (show_nat n) = v * 10 ^ length (show_nat n) + of_nat n"
proof (induction n arbitrary: v rule: show_nat.induct)
  case (1 n)
  show ?case
  proof (cases "n < 10")
    case True
    then show ?thesis by (subst (1 2) show_nat.simps) (simp add: char_val_digit)
  next
    case False
    then have s: "show_nat n = show_nat (n div 10) @ [digit_char (n mod 10)]" by (subst show_nat.simps) simp
    have "of_nat n = (of_nat (n div 10) * 10 + of_nat (n mod 10) :: i32)"
      by (metis div_mult_mod_eq of_nat_add of_nat_mult of_nat_numeral)
    then show ?thesis using 1[OF False, of v]
      by (simp add: s word_value_append char_val_digit algebra_simps)
  qed
qed

lemma join_nats_ne:
  "ns \<noteq> [] \<Longrightarrow> join_spaces (map show_nat ns) \<noteq> [] \<and> last (join_spaces (map show_nat ns)) \<noteq> CHR '' ''"
proof (induction ns rule: induct_list012)
  case (2 n)
  have "last (show_nat n) \<in> set (show_nat n)" by simp
  then have "last (show_nat n) \<noteq> CHR '' ''" using show_nat_no_space by metis
  then show ?case by simp
qed auto

text \<open>
  C24. A list of numbers written in decimal with single spaces is read back exactly (modulo
  \<open>2 ^ 32\<close>), and the array \<open>lkp_init\<close> allocates has exactly its length.
\<close>

theorem kds_parse_roundtrip:
  assumes "ns \<noteq> []" and "length a = count_integers (join_spaces (map show_nat ns))"
  shows "convert_str_to_integers (join_spaces (map show_nat ns)) a (count_integers (join_spaces (map show_nat ns)))
      = Inr (map of_nat ns)
    \<and> count_integers (join_spaces (map show_nat ns)) = length ns"
proof -
  let ?s = "join_spaces (map show_nat ns)"
  have sp: "split_spaces ?s = map show_nat ns" using assms(1) by (intro split_join) auto
  have "count_integers ?s = length ns"
    using length_split_spaces[of ?s] sp join_nats_ne[OF assms(1)] by (simp add: count_integers_def)
  moreover have "map (word_value 0) (split_spaces ?s) = map of_nat ns"
    by (simp add: sp word_value_show_nat)
  ultimately show ?thesis using convert_words[of ?s a] join_nats_ne[OF assms(1)] assms(2) by simp
qed

theorem kds_parse_roundtrip_witness:
  "convert_str_to_integers ''11 44 22 33 5'' (replicate 5 0) (count_integers ''11 44 22 33 5'') = Inr [11, 44, 22, 33, 5]"
proof -
  have s: "join_spaces (map show_nat [11, 44, 22, 33, 5]) = ''11 44 22 33 5''" by code_simp
  show ?thesis using kds_parse_roundtrip[of "[11, 44, 22, 33, 5]" "replicate 5 0"]
    unfolding s by (simp add: count_integers_def)
qed

text \<open>
  C25. The conversion writes behind its array exactly for the empty string and for strings that
  end in a space; for every other string it yields the values of the words between the spaces.
\<close>

theorem kds_parse_bounds:
  assumes "length a = count_integers s"
  shows "convert_str_to_integers s a (count_integers s) =
    (if s = [] \<or> last s = CHR '' '' then Inl OutOfBounds else Inr (map (word_value 0) (split_spaces s)))"
  using convert_overrun[OF _ assms] convert_words[OF _ _ assms] by auto

theorem kds_parse_bounds_witness:
  "convert_str_to_integers ''1 2 '' [0, 0] (count_integers ''1 2 '') = Inl OutOfBounds"
  using kds_parse_bounds[of "[0, 0]" "''1 2 ''"] by (simp add: count_integers_def)

text \<open>
  A minus sign is read as the digit -3: a negative number \<open>-n\<close> becomes
  \<open>n - 3 * 10 ^ d\<close>, where \<open>d\<close> is the number of its digits.
\<close>

theorem kds_parse_negative:
  assumes "0 < n"
  shows "convert_str_to_integers (show_int (- int n)) [v] 1 = Inr [of_nat n - 3 * 10 ^ length (show_nat n)]"
proof -
  let ?s = "CHR ''-'' # show_nat n"
  have "last ?s \<noteq> CHR '' ''" using join_nats_ne[of "[n]"] by simp
  moreover have "split_spaces ?s = [?s]" by (rule split_word) simp
  moreover have "count_integers ?s = 1"
    using calculation length_split_spaces[of ?s] by (simp add: count_integers_def)
  moreover have "word_value 0 ?s = of_nat n - 3 * 10 ^ length (show_nat n)"
    by (simp add: word_value_show_nat char_val_def char_code_def)
  ultimately show ?thesis using convert_words[of ?s "[v]"] assms by (simp add: show_int_def)
qed

theorem kds_parse_negative_witness: "convert_str_to_integers ''-5'' [0] 1 = Inr [- 25]"
proof -
  have s: "show_int (- 5) = ''-5''" "length (show_nat 5) = 1" by code_simp+
  show ?thesis using kds_parse_negative[of 5 0] by (simp add: s)
qed

section \<open>The runs\<close>

definition kern0 :: kern where
  "kern0 = \<lparr>klog = [], live = {}, calls = 0\<rparr>"

lemma kern0_simps [simp]: "klog kern0 = []" "live kern0 = {}"
  by (simp_all add: kern0_def)

abbreviation kds_bucket :: "i32 \<Rightarrow> nat" where
  "kds_bucket \<equiv> \<lambda>k. unat k mod 16384"

text \<open>
  The linked-list run prints the integers in reverse order of insertion, then an empty list,
  and frees every object it allocated.
\<close>

theorem kds_list_run:
  assumes "kds_list L" and "kmalloc_total km" and "finite (live k)"
  shows "\<exists>k'. run_linked_list L km xs k = Inr k' \<and> live k' = live k
    \<and> klog k' = klog k @ map K_inserted xs @ [K_printing_list] @ map K_value (rev xs)
                @ [K_removing_list, K_printing_list]"
  using run_linked_list_ok[OF assms] .

theorem kds_list_run_witness:
  "\<exists>k'. run_linked_list ref_list ref_kmalloc [1, 2] kern0 = Inr k' \<and> live k' = {}
     \<and> klog k' = [K_inserted 1, K_inserted 2, K_printing_list, K_value 2, K_value 1, K_removing_list, K_printing_list]"
  using kds_list_run[OF ref_kds_list.kds_list_axioms ref_kmalloc.kmalloc_total_axioms, of kern0 "[1, 2]"] by simp



text \<open>
  Where accesses to freed memory are trapped, the hash-table run faults at its first removal,
  for every non-empty list of integers.
\<close>

theorem kds_hash_run_trapped:
  assumes "kds_hash H bucket" and "kmalloc_total km" and "finite (live k)" and "xs \<noteq> []"
  shows "run_hash_table H Trapped km xs k = Inl UseAfterFree"
  using run_hash_table_trapped[OF assms] .

theorem kds_hash_run_trapped_witness:
  "run_hash_table (ref_hash kds_bucket) Trapped ref_kmalloc [7] kern0 = Inl UseAfterFree"
  using kds_hash_run_trapped[OF ref_kds_hash.kds_hash_axioms[of kds_bucket] ref_kmalloc.kmalloc_total_axioms, of kern0 "[7]"]
  by simp

text \<open>
  C26. The red-black-tree run always ends: it prints the sorted set of values after each insertion and
  finds every value (reporting a negative one as missing as well). Then its removal loop, which
  follows the pointers of nodes it has freed, ends with a fault in a kernel where such reads can go
  wrong, or leaves a rest of the tree: a part of the values, never all, which it prints in order. What
  stays allocated is exactly this rest and the objects of repeated values; the rest is empty where
  an erased node still leads to its successor.
\<close>

theorem kds_tree_run:
  assumes "kds_tree L" and "kmalloc_total km" and "finite (live k)"
  shows "(run_redblack_trees L fm km xs k = Some (Inl UseAfterFree) \<and> \<not> stale_readable L fm)
    \<or> (\<exists>k' left. run_redblack_trees L fm km xs k = Some (Inr k')
      \<and> live k \<subseteq> live k' \<and> card (live k' - live k) = length xs - card (set xs) + length left
      \<and> sorted_wrt (\<lambda>x y. sint x < sint y) left \<and> set left \<subseteq> set xs \<and> (xs \<noteq> [] \<longrightarrow> set left \<noteq> set xs)
      \<and> (stale_successor L \<and> fm = Untouched \<longrightarrow> left = [])
      \<and> klog k' = klog k @ [K_root_null, K_printed] @ tree_log [] xs
        @ concat (map (\<lambda>x. K_found x # (if sint x < 0 then [K_not_found x] else [])) xs)
        @ K_rb_erased # (if left = [] then [K_root_null] else map K_key left) @ [K_printed])"
  using run_redblack_trees_ok[OF assms, of fm xs] by blast

theorem kds_tree_run_witness:
  "\<exists>k'. run_redblack_trees ref_rb Untouched ref_kmalloc [- 2, - 2] kern0 = Some (Inr k')
     \<and> card (live k') = 1 \<and> K_not_found (- 2) \<in> set (klog k')"
  using kds_tree_run[OF ref_kds_tree.kds_tree_axioms ref_kmalloc.kmalloc_total_axioms, of kern0 Untouched "[- 2, - 2]"]
    ref_rb_readable ref_rb_successor
  by auto

lemma few_odd: "card {x \<in> set [4, 4 :: i32]. odd_index x} \<le> 10"
proof -
  have "{x \<in> set [4, 4 :: i32]. odd_index x} \<subseteq> {4}" by auto
  from card_mono[OF _ this] show ?thesis by simp
qed

text \<open>
  C28. The radix-tree run with at most ten different odd integers finds and tags them, gang-looks
  the tagged ones up in the order of their (sign-extended) indices, deletes every value once and
  finds none afterwards; the objects of repeated values are never freed.
\<close>

theorem kds_radix_run:
  assumes "kds_index R marks" and "kmalloc_total km" and "finite (live k)"
    and "card {x \<in> set xs. odd_index x} \<le> 10"
  shows "\<exists>k'. run_radix_tree R km xs k = Inr k'
    \<and> live k \<subseteq> live k' \<and> card (live k' - live k) = length xs - card (set xs)
    \<and> klog k' = klog k @ map K_inserted xs @ map K_found xs
        @ map (\<lambda>x. K_tagged (index_of x)) (filter odd_index xs)
        @ K_tag_count (card {x \<in> set xs. odd_index x}) # map K_tag_looked_up (odd_values xs)
        @ delete_log [] xs @ K_relookup # map (\<lambda>x. K_missing (index_of x)) xs"
  using run_radix_tree_ok[OF assms] by blast

theorem kds_radix_run_witness:
  "\<exists>k'. run_radix_tree (ref_index False) ref_kmalloc [4, 4] kern0 = Inr k' \<and> card (live k') = 1"
  using kds_radix_run[OF ref_kds_index.kds_index_axioms[of False] ref_kmalloc.kmalloc_total_axioms _ few_odd, of kern0]
  by auto

text \<open>
  C29. With more than ten different odd integers the gang look-up, which asks for up to 100
  results, writes behind the array of ten pointers on the stack.
\<close>

theorem kds_radix_overflow:
  assumes "kds_index R marks" and "kmalloc_total km" and "finite (live k)"
    and "10 < card {x \<in> set xs. odd_index x}"
  shows "run_radix_tree R km xs k = Inl OutOfBounds"
  using run_radix_tree_overflow[OF assms] .

theorem kds_radix_overflow_witness:
  "run_radix_tree (ref_index False) ref_kmalloc [1, 3, 5, 7, 9, 11, 13, 15, 17, 19, 21] kern0 = Inl OutOfBounds"
proof (rule kds_radix_overflow[OF ref_kds_index.kds_index_axioms[of False] ref_kmalloc.kmalloc_total_axioms])
  have "{x \<in> set [1, 3, 5, 7, 9, 11, 13, 15, 17, 19, 21]. odd_index x} = {1, 3, 5, 7, 9, 11, 13, 15, 17, 19, 21}"
    by (auto simp: odd_index_def index_of_def)
  then show "10 < card {x \<in> set [1, 3, 5, 7, 9, 11, 13, 15, 17, 19, 21]. odd_index x}" by simp
qed simp

text \<open>
  C30. The XArray run finds, tags and deletes the values without a bound on their number; the
  objects a repeated value's store replaces are never freed.
\<close>

theorem kds_xarray_run:
  assumes "kds_index R marks" and "kmalloc_total km" and "finite (live k)"
  shows "\<exists>k'. run_xarray R km xs k = Inr k'
    \<and> live k \<subseteq> live k' \<and> card (live k' - live k) = length xs - card (set xs)
    \<and> klog k' = klog k @ map K_inserted xs @ map K_found xs
        @ map (\<lambda>x. K_tagged (index_of x)) (filter odd_index xs)
        @ map K_tag_looked_up (odd_values xs) @ delete_log [] xs"
  using run_xarray_ok[OF assms] by blast

theorem kds_xarray_run_witness:
  "\<exists>k'. run_xarray (ref_index True) ref_kmalloc [4, 4] kern0 = Inr k' \<and> card (live k') = 1"
  using kds_xarray_run[OF ref_kds_index.kds_index_axioms[of True] ref_kmalloc.kmalloc_total_axioms, of kern0 "[4, 4]"]
  by auto

text \<open>
  The bitmap run never writes outside its word: it prints the positions of the ones of every
  positive integer and at the end the positions below 10 that are set in some positive integer.
\<close>

theorem kds_bitmap_run:
  "run_bitmap xs k = Inr (printk (concat (map (\<lambda>x. K_bitmap x # map K_set_bit (digits_of x)) xs)
     @ K_set_bits # map K_bit (filter (\<lambda>b. \<exists>x \<in> set xs. b \<in> set (digits_of x)) [0..<10]) @ [K_cleared]) k)"
  using run_bitmap_ok .

text \<open>
  C23. Loading the module on a string of integers with at most ten different odd ones: it ends with
  the read of a freed object, in a kernel where such reads can go wrong, or it succeeds. What then
  stays allocated is three objects for every repetition, one each from the tree, the radix tree and
  the XArray, and the nodes the tree's removal loop did not reach: fewer than there are values, and
  none where an erased node still leads to its successor.
\<close>

theorem kds_load:
  assumes "kernel_ok bucket marks marks' K" and "finite (live k)"
    and "s \<noteq> []" and "last s \<noteq> CHR '' ''"
    and "xs = map (word_value 0) (split_spaces s)" and "card {x \<in> set xs. odd_index x} \<le> 10"
  shows "(lkp_init K s k = Some (Inl UseAfterFree) \<and> \<not> stale_readable (k_rb K) (k_freed K))
    \<or> (\<exists>k' left. lkp_init K s k = Some (Inr k') \<and> live k \<subseteq> live k'
      \<and> card (live k' - live k) = 3 * (length xs - card (set xs)) + left \<and> left < card (set xs)
      \<and> (stale_successor (k_rb K) \<and> k_freed K = Untouched \<longrightarrow> left = 0))"
  using lkp_init_ok[OF assms] .

theorem kds_load_witness:
  "\<exists>k'. lkp_init ref_kernel ''4 4'' kern0 = Some (Inr k') \<and> card (live k') = 3"
proof -
  have x: "[4, 4] = map (word_value 0) (split_spaces ''4 4'')"
    by (simp add: char_val_def char_code_def)
  have "stale_readable (k_rb ref_kernel) (k_freed ref_kernel)" "stale_successor (k_rb ref_kernel)" "k_freed ref_kernel = Untouched"
    by (simp_all add: ref_kernel_def ref_rb_readable ref_rb_successor)
  then show ?thesis using kds_load[OF ref_kernel_ok _ _ _ x few_odd, of kern0] by auto
qed

end
