(* ===== verification/S2fs.thy ===== *)
theory S2fs
  imports Prelude
begin

text \<open>
  The simple file system (Assignment 5, \<open>s2fs.c\<close>): the read function of its one file, and the
  construction of the mounted tree over the kernel's inode and dentry functions, which are a
  parameter.
\<close>

section \<open>Reading\<close>

definition hello :: string where
  "hello = ''Hello World!'' @ [CHR 0x0A]"

definition EFAULT :: int where "EFAULT = 14"
definition ENOMEM :: int where "ENOMEM = 12"

text \<open>
  \<open>s2fs_read_file\<close>: \<open>loff_t\<close> is signed, \<open>size_t\<close> unsigned, both 64 bits wide, and the comparison
  of \<open>count\<close> is unsigned; \<open>ok\<close> says whether \<open>copy_to_user\<close> succeeds. The value returned, what the
  user's buffer gets, and the new offset.
\<close>

definition s2fs_read_file :: "bool \<Rightarrow> u64 \<Rightarrow> u64 \<Rightarrow> (int \<times> string \<times> u64) res" where
  "s2fs_read_file ok cnt offset =
     (let len = of_nat (length hello) in
      if sint offset > sint len then Inr (0, [], offset)
      else
        let cnt = (if cnt > len - offset then len - offset else cnt) in
        if sint offset < 0 \<and> cnt \<noteq> 0 then Inl OutOfBounds
        else if \<not> ok then Inr (- EFAULT, [], offset)
        else Inr (uint cnt, take (unat cnt) (drop (unat offset) hello), offset + len))"

definition s2fs_write_file :: "u64 \<Rightarrow> u64 \<Rightarrow> int \<times> u64" where
  "s2fs_write_file cnt offset = (0, offset)"

text \<open>A reader that calls \<open>read\<close> with buffers of \<open>n\<close> bytes until it returns 0, at most \<open>fuel\<close> times.\<close>

fun read_all :: "nat \<Rightarrow> u64 \<Rightarrow> u64 \<Rightarrow> string option" where
  "read_all 0 n offset = None"
| "read_all (Suc fuel) n offset =
     (case s2fs_read_file True n offset of
        Inl e \<Rightarrow> None
      | Inr (r, s, offset') \<Rightarrow>
          if r = 0 then Some []
          else (case read_all fuel n offset' of None \<Rightarrow> None | Some s' \<Rightarrow> Some (s @ s')))"

lemma length_hello [simp]: "length hello = 13"
  by (simp add: hello_def)

lemma read_at_start:
  "s2fs_read_file True n 0 = Inr (min (uint n) 13, take (unat n) hello, 13)"
proof (cases "13 < n")
  case True
  have u: "13 < uint n" using True by (simp add: word_less_def)
  have "13 \<le> unat n" using True unfolding word_less_nat_alt by simp
  then have "take (unat n) hello = hello" by simp
  then show ?thesis using True u by (simp add: s2fs_read_file_def Let_def)
next
  case False
  then have "n \<le> 13" by simp
  then have "uint n \<le> 13" unfolding word_le_def by simp
  then show ?thesis using False by (simp add: s2fs_read_file_def Let_def min_def)
qed

lemma read_at_end: "s2fs_read_file True n 13 = Inr (0, [], 26)"
proof (cases "n > 0")
  case True
  then show ?thesis by (simp add: s2fs_read_file_def Let_def)
next
  case False
  then have "n = 0" by (simp add: word_gt_0)
  then show ?thesis by (simp add: s2fs_read_file_def Let_def)
qed

section \<open>Inodes, dentries and the kernel's functions on them\<close>

datatype inode_ops = No_inode_ops | Simple_dir_inode_operations
datatype file_ops = No_file_ops | Simple_dir_operations | S2fs_fops

record inode =
  i_ino :: nat
  i_mode :: nat
  i_uid :: nat
  i_gid :: nat
  i_blocks :: nat
  i_time :: nat
  i_op :: inode_ops
  i_fop :: file_ops

text \<open>
  Inodes and dentries are named by their addresses. \<open>refs\<close> is an inode's reference count,
  \<open>inode_of\<close> the inode a dentry is bound to, \<open>place\<close> the parent and name a dentry was allocated
  with, \<open>child\<close> what a name in a directory resolves to.
\<close>

record 'v vfs_ops =
  new_inode :: "'v \<Rightarrow> nat option \<times> 'v"
  get_next_ino :: "'v \<Rightarrow> nat \<times> 'v"
  current_time :: "'v \<Rightarrow> nat"
  d_alloc :: "nat \<Rightarrow> string \<Rightarrow> 'v \<Rightarrow> nat option \<times> 'v"
  d_add :: "nat \<Rightarrow> nat \<Rightarrow> 'v \<Rightarrow> 'v"
  dput :: "nat \<Rightarrow> 'v \<Rightarrow> 'v"
  d_make_root :: "nat \<Rightarrow> 'v \<Rightarrow> nat option \<times> 'v"
  iput :: "nat \<Rightarrow> 'v \<Rightarrow> 'v res"
  refs :: "'v \<Rightarrow> nat \<Rightarrow> nat"
  inode_of :: "'v \<Rightarrow> nat \<Rightarrow> nat option"
  place :: "'v \<Rightarrow> nat \<Rightarrow> (nat \<times> string) option"
  child :: "'v \<Rightarrow> nat \<times> string \<Rightarrow> nat option"

definition same_view :: "'v vfs_ops \<Rightarrow> 'v \<Rightarrow> 'v \<Rightarrow> bool" where
  "same_view V v w \<longleftrightarrow> inode_of V w = inode_of V v \<and> child V w = child V v"

text \<open>
  What the kernel documents: allocations give unused objects, \<open>d_add\<close> binds and hashes a dentry,
  \<open>d_make_root\<close> consumes the inode's reference even when it fails, \<open>iput\<close> needs a reference.
\<close>

locale vfs_lib =
  fixes V :: "'v vfs_ops"
  assumes new_inode_Some: "new_inode V v = (Some i, w) \<Longrightarrow>
        refs V v i = 0 \<and> refs V w = (refs V v)(i := 1) \<and> same_view V v w \<and> place V w = place V v"
    and new_inode_None: "new_inode V v = (None, w) \<Longrightarrow> refs V w = refs V v \<and> same_view V v w \<and> place V w = place V v"
    and next_ino: "get_next_ino V v = (k, w) \<Longrightarrow> refs V w = refs V v \<and> same_view V v w \<and> place V w = place V v"
    and d_alloc_Some: "d_alloc V p name v = (Some d, w) \<Longrightarrow>
        inode_of V v d = None \<and> refs V w = refs V v \<and> same_view V v w \<and> place V w = (place V v)(d \<mapsto> (p, name))"
    and d_alloc_None: "d_alloc V p name v = (None, w) \<Longrightarrow> refs V w = refs V v \<and> same_view V v w \<and> place V w = place V v"
    and d_add: "inode_of V v d = None \<Longrightarrow> place V v d = Some pn \<Longrightarrow>
        refs V (d_add V d i v) = refs V v \<and> inode_of V (d_add V d i v) = (inode_of V v)(d \<mapsto> i)
        \<and> child V (d_add V d i v) = (child V v)(pn \<mapsto> d) \<and> place V (d_add V d i v) = place V v"
    and dput_unbound: "inode_of V v d = None \<Longrightarrow> refs V (dput V d v) = refs V v \<and> same_view V v (dput V d v)"
    and make_root_Some: "d_make_root V i v = (Some d, w) \<Longrightarrow>
        inode_of V v d = None \<and> refs V w = refs V v \<and> inode_of V w = (inode_of V v)(d \<mapsto> i) \<and> child V w = child V v"
    and make_root_None: "d_make_root V i v = (None, w) \<Longrightarrow> refs V w = (refs V v)(i := refs V v i - 1)"
    and iput_unreferenced: "refs V v i = 0 \<Longrightarrow> iput V i v = Inl RefUnderflow"

text \<open>Reference: a script says which allocations succeed; addresses are never used again.\<close>

record ref_vfs =
  r_script :: "bool list"
  r_next :: nat
  r_refs :: "nat \<Rightarrow> nat"
  r_inode :: "nat \<Rightarrow> nat option"
  r_place :: "nat \<Rightarrow> (nat \<times> string) option"
  r_child :: "nat \<times> string \<Rightarrow> nat option"

definition ref_alloc :: "ref_vfs \<Rightarrow> nat option \<times> ref_vfs" where
  "ref_alloc v =
     (let a = r_next v; v' = v\<lparr>r_script := tl (r_script v), r_next := Suc a\<rparr> in
      if r_script v \<noteq> [] \<and> hd (r_script v) \<and> r_refs v a = 0 \<and> r_inode v a = None then (Some a, v') else (None, v'))"

definition ref_vfs_ops :: "ref_vfs vfs_ops" where
  "ref_vfs_ops =
     \<lparr>new_inode = (\<lambda>v. case ref_alloc v of (None, w) \<Rightarrow> (None, w) | (Some i, w) \<Rightarrow> (Some i, w\<lparr>r_refs := (r_refs w)(i := 1)\<rparr>)),
      get_next_ino = (\<lambda>v. (r_next v, v\<lparr>r_next := Suc (r_next v)\<rparr>)),
      current_time = r_next,
      d_alloc = (\<lambda>p name v. case ref_alloc v of (None, w) \<Rightarrow> (None, w)
                  | (Some d, w) \<Rightarrow> (Some d, w\<lparr>r_place := (r_place w)(d \<mapsto> (p, name))\<rparr>)),
      d_add = (\<lambda>d i v. v\<lparr>r_inode := (r_inode v)(d \<mapsto> i),
                 r_child := (case r_place v d of None \<Rightarrow> r_child v | Some pn \<Rightarrow> (r_child v)(pn \<mapsto> d))\<rparr>),
      dput = (\<lambda>d v. v),
      d_make_root = (\<lambda>i v. case ref_alloc v of (None, w) \<Rightarrow> (None, w\<lparr>r_refs := (r_refs w)(i := r_refs w i - 1)\<rparr>)
                  | (Some d, w) \<Rightarrow> (Some d, w\<lparr>r_inode := (r_inode w)(d \<mapsto> i)\<rparr>)),
      iput = (\<lambda>i v. if r_refs v i = 0 then Inl RefUnderflow else Inr (v\<lparr>r_refs := (r_refs v)(i := r_refs v i - 1)\<rparr>)),
      refs = r_refs, inode_of = r_inode, place = r_place, child = r_child\<rparr>"

lemma ref_alloc_simps:
  "ref_alloc v = (x, w) \<Longrightarrow> r_refs w = r_refs v \<and> r_inode w = r_inode v \<and> r_place w = r_place v \<and> r_child w = r_child v
     \<and> (\<forall>a. x = Some a \<longrightarrow> r_refs v a = 0 \<and> r_inode v a = None)"
  by (auto simp: ref_alloc_def Let_def split: if_splits)

interpretation ref_vfs: vfs_lib ref_vfs_ops
  by unfold_locales
    (auto simp: ref_vfs_ops_def same_view_def split: prod.splits option.splits if_splits dest!: ref_alloc_simps)

section \<open>Building the tree\<close>

record 'v sb =
  vfs :: 'v
  inodes :: "nat \<Rightarrow> inode option"
  s_magic :: nat
  s_root :: "nat option"

definition S_IFDIR :: nat where "S_IFDIR = 0x4000"
definition S_IFREG :: nat where "S_IFREG = 0x8000"
definition S2FS_MAGIC :: nat where "S2FS_MAGIC = 0x19980122"

definition s2fs_make_inode :: "'v vfs_ops \<Rightarrow> nat \<Rightarrow> 'v sb \<Rightarrow> nat option \<times> 'v sb" where
  "s2fs_make_inode V mode s =
     (case new_inode V (vfs s) of
        (None, v) \<Rightarrow> (None, s\<lparr>vfs := v\<rparr>)
      | (Some i, v) \<Rightarrow>
          (let (ino, v) = get_next_ino V v in
           (Some i, s\<lparr>vfs := v, inodes := (inodes s)(i \<mapsto>
              \<lparr>i_ino = ino, i_mode = mode, i_uid = 0, i_gid = 0, i_blocks = 0, i_time = current_time V v,
               i_op = No_inode_ops, i_fop = No_file_ops\<rparr>)\<rparr>)))"

definition set_ops :: "nat \<Rightarrow> inode_ops \<Rightarrow> file_ops \<Rightarrow> 'v sb \<Rightarrow> 'v sb" where
  "set_ops i iop fop s = s\<lparr>inodes := (inodes s)(i := map_option (\<lambda>x. x\<lparr>i_op := iop, i_fop := fop\<rparr>) (inodes s i))\<rparr>"

definition s2fs_create_dir :: "'v vfs_ops \<Rightarrow> nat \<Rightarrow> string \<Rightarrow> 'v sb \<Rightarrow> nat option \<times> 'v sb" where
  "s2fs_create_dir V parent dir_name s =
     (case d_alloc V parent dir_name (vfs s) of
        (None, v) \<Rightarrow> (None, s\<lparr>vfs := v\<rparr>)
      | (Some dentry, v) \<Rightarrow>
          (case s2fs_make_inode V (S_IFDIR + 0x1FF) (s\<lparr>vfs := v\<rparr>) of
             (None, s) \<Rightarrow> (None, s\<lparr>vfs := dput V dentry (vfs s)\<rparr>)
           | (Some i, s) \<Rightarrow>
               (let s = set_ops i Simple_dir_inode_operations Simple_dir_operations s in
                (Some dentry, s\<lparr>vfs := d_add V dentry i (vfs s)\<rparr>))))"

definition s2fs_create_file :: "'v vfs_ops \<Rightarrow> nat \<Rightarrow> string \<Rightarrow> 'v sb \<Rightarrow> nat option \<times> 'v sb" where
  "s2fs_create_file V dir file_name s =
     (case d_alloc V dir file_name (vfs s) of
        (None, v) \<Rightarrow> (None, s\<lparr>vfs := v\<rparr>)
      | (Some dentry, v) \<Rightarrow>
          (case s2fs_make_inode V (S_IFREG + 0x1A4) (s\<lparr>vfs := v\<rparr>) of
             (None, s) \<Rightarrow> (None, s\<lparr>vfs := dput V dentry (vfs s)\<rparr>)
           | (Some i, s) \<Rightarrow>
               (let s = set_ops i No_inode_ops S2fs_fops s in
                (Some dentry, s\<lparr>vfs := d_add V dentry i (vfs s)\<rparr>))))"

definition s2fs_fill_super :: "'v vfs_ops \<Rightarrow> 'v sb \<Rightarrow> (int \<times> 'v sb) res" where
  "s2fs_fill_super V s =
     (let s = s\<lparr>s_magic := S2FS_MAGIC\<rparr> in
      case s2fs_make_inode V (S_IFDIR + 0x1ED) s of
        (None, s) \<Rightarrow> Inr (- ENOMEM, s)
      | (Some root, s) \<Rightarrow>
          (let s = set_ops root Simple_dir_inode_operations Simple_dir_operations s in
           case d_make_root V root (vfs s) of
             (None, v) \<Rightarrow> rbind (iput V root v) (\<lambda>v. Inr (- ENOMEM, s\<lparr>vfs := v\<rparr>))
           | (Some root_dentry, v) \<Rightarrow>
               (case s2fs_create_dir V root_dentry ''foo'' (s\<lparr>vfs := v, s_root := Some root_dentry\<rparr>) of
                  (None, s) \<Rightarrow> Inr (0, s)
                | (Some subdirectory, s) \<Rightarrow> Inr (0, snd (s2fs_create_file V subdirectory ''bar'' s)))))"

end
