(* ===== verification/S2fs_Properties.thy ===== *)
theory S2fs_Properties
  imports S2fs
begin

text \<open>
  What the simple file system guarantees: the tree every successful mount has, what a reader gets,
  and the two errors - the short read that loses the rest, the inode that is put twice.
\<close>

section \<open>The mounted tree\<close>

text \<open>A dentry bound to an inode with this mode and these operations.\<close>

definition is_entry :: "'v vfs_ops \<Rightarrow> 'v sb \<Rightarrow> nat \<Rightarrow> nat \<Rightarrow> inode_ops \<Rightarrow> file_ops \<Rightarrow> bool" where
  "is_entry V s d mode iop fop \<longleftrightarrow> (\<exists>i a. inode_of V (vfs s) d = Some i \<and> refs V (vfs s) i = 1
     \<and> inodes s i = Some a \<and> i_mode a = mode \<and> i_op a = iop \<and> i_fop a = fop)"

text \<open>Every entry of the first state is one of the second.\<close>

definition keeps_entries :: "'v vfs_ops \<Rightarrow> 'v sb \<Rightarrow> 'v sb \<Rightarrow> bool" where
  "keeps_entries V s s' \<longleftrightarrow> (\<forall>d mode iop fop. is_entry V s d mode iop fop \<longrightarrow> is_entry V s' d mode iop fop)"

lemma keeps_entriesD: "keeps_entries V s s' \<Longrightarrow> is_entry V s d mode iop fop \<Longrightarrow> is_entry V s' d mode iop fop"
  by (simp add: keeps_entries_def)

lemma vfs_set_ops [simp]: "vfs (set_ops i iop fop s) = vfs s" "s_root (set_ops i iop fop s) = s_root s"
  by (simp_all add: set_ops_def)

text \<open>\<open>s2fs_create_dir\<close> and \<open>s2fs_create_file\<close> differ in the mode and the operations only.\<close>

definition create_entry ::
  "'v vfs_ops \<Rightarrow> nat \<Rightarrow> inode_ops \<Rightarrow> file_ops \<Rightarrow> nat \<Rightarrow> string \<Rightarrow> 'v sb \<Rightarrow> nat option \<times> 'v sb" where
  "create_entry V mode iop fop parent name s =
     (case d_alloc V parent name (vfs s) of
        (None, v) \<Rightarrow> (None, s\<lparr>vfs := v\<rparr>)
      | (Some dentry, v) \<Rightarrow>
          (case s2fs_make_inode V mode (s\<lparr>vfs := v\<rparr>) of
             (None, s) \<Rightarrow> (None, s\<lparr>vfs := dput V dentry (vfs s)\<rparr>)
           | (Some i, s) \<Rightarrow>
               (let s = set_ops i iop fop s in (Some dentry, s\<lparr>vfs := d_add V dentry i (vfs s)\<rparr>))))"

lemma create_entry_eqs:
  "s2fs_create_dir V = create_entry V (S_IFDIR + 0x1FF) Simple_dir_inode_operations Simple_dir_operations"
  "s2fs_create_file V = create_entry V (S_IFREG + 0x1A4) No_inode_ops S2fs_fops"
  by (intro ext, simp add: s2fs_create_dir_def s2fs_create_file_def create_entry_def)+

context vfs_lib
begin

lemma make_inode_Some:
  assumes "s2fs_make_inode V mode s = (Some i, s')"
  shows "refs V (vfs s) i = 0 \<and> refs V (vfs s') = (refs V (vfs s))(i := 1) \<and> same_view V (vfs s) (vfs s')
    \<and> place V (vfs s') = place V (vfs s) \<and> s_root s' = s_root s
    \<and> (\<exists>a. inodes s' = (inodes s)(i \<mapsto> a) \<and> i_mode a = mode)"
proof -
  obtain v w k where v: "new_inode V (vfs s) = (Some i, v)" "get_next_ino V v = (k, w)" "vfs s' = w" "s_root s' = s_root s"
      "\<exists>a. inodes s' = (inodes s)(i \<mapsto> a) \<and> i_mode a = mode"
    using assms by (fastforce simp: s2fs_make_inode_def Let_def split: prod.splits option.splits)
  then show ?thesis using new_inode_Some[OF v(1)] next_ino[OF v(2)] by (auto simp: same_view_def)
qed

lemma make_inode_None:
  assumes "s2fs_make_inode V mode s = (None, s')"
  shows "refs V (vfs s') = refs V (vfs s) \<and> same_view V (vfs s) (vfs s') \<and> s_root s' = s_root s
    \<and> inodes s' = inodes s"
  using assms new_inode_None[of "vfs s"]
  by (auto simp: s2fs_make_inode_def Let_def split: prod.splits option.splits)

text \<open>Binding a fresh dentry to a fresh inode adds one entry; \<open>create_dir\<close> and \<open>create_file\<close> do it.\<close>

lemma new_entry:
  assumes al: "d_alloc V parent name (vfs s) = (Some d, v)"
    and mk: "s2fs_make_inode V mode (s\<lparr>vfs := v\<rparr>) = (Some i, s1)"
    and s': "s' = (set_ops i iop fop s1)\<lparr>vfs := d_add V d i (vfs s1)\<rparr>"
  shows "is_entry V s' d mode iop fop \<and> keeps_entries V s s' \<and> s_root s' = s_root s
    \<and> child V (vfs s') = (child V (vfs s))((parent, name) \<mapsto> d)"
proof -
  note A = d_alloc_Some[OF al] and M = make_inode_Some[OF mk]
  obtain a where a: "inodes s1 = (inodes s)(i \<mapsto> a)" "i_mode a = mode" using M by auto
  have none: "inode_of V (vfs s1) d = None" "place V (vfs s1) d = Some (parent, name)"
    using A M by (auto simp: same_view_def)
  note D = d_add[OF none, of i]
  have v': "vfs s' = d_add V d i (vfs s1)" "s_root s' = s_root s1"
      "inodes s' = (inodes s)(i \<mapsto> a\<lparr>i_op := iop, i_fop := fop\<rparr>)"
    using s' a(1) by (simp_all add: set_ops_def)
  have io: "inode_of V (vfs s') = (inode_of V (vfs s))(d \<mapsto> i)"
    and rf: "refs V (vfs s') = (refs V (vfs s))(i := 1)"
    and ch: "child V (vfs s') = (child V (vfs s))((parent, name) \<mapsto> d)"
    using D A M v'(1) by (auto simp: same_view_def)
  have fresh: "refs V (vfs s) i = 0" "inode_of V (vfs s) d = None" using A M by auto
  have "is_entry V s' d mode iop fop" using io rf v'(3) a(2) by (simp add: is_entry_def)
  moreover have "keeps_entries V s s'"
    unfolding keeps_entries_def is_entry_def io rf v'(3) using fresh by fastforce
  ultimately show ?thesis using ch v'(2) M by simp
qed

lemma same_keeps:
  assumes "refs V (vfs s') = refs V (vfs s)" and "same_view V (vfs s) (vfs s')" and "inodes s' = inodes s"
  shows "keeps_entries V s s' \<and> child V (vfs s') = child V (vfs s)"
  using assms by (simp add: keeps_entries_def is_entry_def same_view_def)

text \<open>Both functions: all or nothing.\<close>

lemma create_failed:
  assumes al: "d_alloc V parent name (vfs s) = (Some d, v)"
    and mk: "s2fs_make_inode V mode (s\<lparr>vfs := v\<rparr>) = (None, s1)"
  shows "keeps_entries V s (s1\<lparr>vfs := dput V d (vfs s1)\<rparr>) \<and> s_root s1 = s_root s
    \<and> child V (dput V d (vfs s1)) = child V (vfs s)"
proof -
  note A = d_alloc_Some[OF al] and M = make_inode_None[OF mk]
  have "inode_of V (vfs s1) d = None" using A M by (simp add: same_view_def)
  note P = dput_unbound[OF this]
  have "keeps_entries V s (s1\<lparr>vfs := dput V d (vfs s1)\<rparr>) \<and> child V (vfs (s1\<lparr>vfs := dput V d (vfs s1)\<rparr>)) = child V (vfs s)"
    by (rule same_keeps) (use A M P in \<open>simp_all add: same_view_def\<close>)
  then show ?thesis using M by simp
qed

lemma create_entry_Some:
  assumes "create_entry V mode iop fop parent name s = (Some d, s')"
  shows "is_entry V s' d mode iop fop \<and> keeps_entries V s s' \<and> s_root s' = s_root s
    \<and> child V (vfs s') = (child V (vfs s))((parent, name) \<mapsto> d)"
proof -
  obtain v i s1 where "d_alloc V parent name (vfs s) = (Some d, v)"
      "s2fs_make_inode V mode (s\<lparr>vfs := v\<rparr>) = (Some i, s1)"
      "s' = (set_ops i iop fop s1)\<lparr>vfs := d_add V d i (vfs s1)\<rparr>"
    using assms by (auto simp: create_entry_def Let_def split: prod.splits option.splits)
  then show ?thesis by (rule new_entry)
qed

lemma create_entry_None:
  assumes "create_entry V mode iop fop parent name s = (None, s')"
  shows "keeps_entries V s s' \<and> s_root s' = s_root s \<and> child V (vfs s') = child V (vfs s)"
proof (cases "d_alloc V parent name (vfs s)")
  case (Pair x v)
  show ?thesis
  proof (cases x)
    case None
    then have s': "s' = s\<lparr>vfs := v\<rparr>" using assms Pair by (simp add: create_entry_def)
    have "keeps_entries V s s' \<and> child V (vfs s') = child V (vfs s)"
      by (rule same_keeps) (use d_alloc_None[of parent name "vfs s" v] Pair None s' in simp_all)
    then show ?thesis using s' by simp
  next
    case (Some d)
    then obtain s1 where "s2fs_make_inode V mode (s\<lparr>vfs := v\<rparr>) = (None, s1)" "s' = s1\<lparr>vfs := dput V d (vfs s1)\<rparr>"
      using assms Pair by (auto simp: create_entry_def Let_def split: prod.splits option.splits)
    then show ?thesis using create_failed[of parent name s d v mode s1] Pair Some by simp
  qed
qed

lemma fill_super_tree:
  assumes fill: "s2fs_fill_super V s = Inr (0, s')" and empty: "child V (vfs s) = (\<lambda>_. None)"
  shows "\<exists>rd. s_root s' = Some rd \<and> is_entry V s' rd (S_IFDIR + 0x1ED) Simple_dir_inode_operations Simple_dir_operations
    \<and> (child V (vfs s') = (\<lambda>_. None) \<or>
       (\<exists>fd. is_entry V s' fd (S_IFDIR + 0x1FF) Simple_dir_inode_operations Simple_dir_operations
          \<and> (child V (vfs s') = [(rd, ''foo'') \<mapsto> fd] \<or>
             (\<exists>bd. is_entry V s' bd (S_IFREG + 0x1A4) No_inode_ops S2fs_fops
                \<and> child V (vfs s') = [(rd, ''foo'') \<mapsto> fd, (fd, ''bar'') \<mapsto> bd]))))"
proof -
  have E: "ENOMEM \<noteq> 0" by (simp add: ENOMEM_def)
  obtain x s1 where mk0: "s2fs_make_inode V (S_IFDIR + 0x1ED) (s\<lparr>s_magic := S2FS_MAGIC\<rparr>) = (x, s1)" by fastforce
  have "x \<noteq> None" using fill mk0 E by (cases x) (simp_all add: s2fs_fill_super_def)
  then obtain i where mk: "s2fs_make_inode V (S_IFDIR + 0x1ED) (s\<lparr>s_magic := S2FS_MAGIC\<rparr>) = (Some i, s1)"
    using mk0 by blast
  obtain y v where rt0: "d_make_root V i (vfs s1) = (y, v)" by fastforce
  have "y \<noteq> None" using fill mk rt0 E by (cases y) (simp_all add: s2fs_fill_super_def Let_def rbind_eq_Inr)
  then obtain rd where rt: "d_make_root V i (vfs s1) = (Some rd, v)" using rt0 by blast
  have rest: "(case s2fs_create_dir V rd ''foo'' ((set_ops i Simple_dir_inode_operations Simple_dir_operations s1)\<lparr>vfs := v, s_root := Some rd\<rparr>) of
           (None, s) \<Rightarrow> Inr (0, s)
         | (Some sub, s) \<Rightarrow> Inr (0, snd (s2fs_create_file V sub ''bar'' s))) = s2fs_fill_super V s"
    using mk rt by (simp add: s2fs_fill_super_def Let_def)
  let ?s2 = "(set_ops i Simple_dir_inode_operations Simple_dir_operations s1)\<lparr>vfs := v, s_root := Some rd\<rparr>"
  note M = make_inode_Some[OF mk] and R = make_root_Some[OF rt]
  obtain a where a: "inodes s1 = (inodes s)(i \<mapsto> a)" "i_mode a = S_IFDIR + 0x1ED" using M by auto
  have root: "is_entry V ?s2 rd (S_IFDIR + 0x1ED) Simple_dir_inode_operations Simple_dir_operations"
    using M R a by (simp add: is_entry_def set_ops_def)
  have ch: "child V (vfs ?s2) = (\<lambda>_. None)" using M R empty by (simp add: same_view_def)
  show ?thesis
  proof (cases "s2fs_create_dir V rd ''foo'' ?s2")
    case (Pair x s3)
    show ?thesis
    proof (cases x)
      case None
      have s': "s' = s3" using rest fill Pair None by simp
      have n: "keeps_entries V ?s2 s3 \<and> s_root s3 = s_root ?s2 \<and> child V (vfs s3) = child V (vfs ?s2)"
        by (rule create_entry_None[of "S_IFDIR + 0x1FF" Simple_dir_inode_operations Simple_dir_operations rd "''foo''"])
          (use Pair None in \<open>simp add: create_entry_eqs\<close>)
      then have "is_entry V s3 rd (S_IFDIR + 0x1ED) Simple_dir_inode_operations Simple_dir_operations"
        using root keeps_entriesD by blast
      then show ?thesis using n s' ch by simp
    next
      case (Some fd)
      have foo: "is_entry V s3 fd (S_IFDIR + 0x1FF) Simple_dir_inode_operations Simple_dir_operations"
          "keeps_entries V ?s2 s3" "s_root s3 = Some rd" "child V (vfs s3) = [(rd, ''foo'') \<mapsto> fd]"
        using create_entry_Some[of "S_IFDIR + 0x1FF" Simple_dir_inode_operations Simple_dir_operations rd "''foo''" ?s2 fd s3]
          Pair Some ch by (simp_all add: create_entry_eqs)
      note root3 = keeps_entriesD[OF foo(2) root]
      obtain y s4 where bar: "s2fs_create_file V fd ''bar'' s3 = (y, s4)" by fastforce
      have s': "s' = s4" using rest fill Pair Some bar by simp
      show ?thesis
      proof (cases y)
        case None
        have "keeps_entries V s3 s4 \<and> s_root s4 = s_root s3 \<and> child V (vfs s4) = child V (vfs s3)"
          using create_entry_None[of "S_IFREG + 0x1A4" _ _ fd "''bar''" s3 s4] bar None by (simp add: create_entry_eqs)
        then have b: "keeps_entries V s3 s4" "s_root s4 = Some rd" "child V (vfs s4) = [(rd, ''foo'') \<mapsto> fd]"
          using foo(3,4) by simp_all
        show ?thesis unfolding s' using b(2,3) keeps_entriesD[OF b(1) root3] keeps_entriesD[OF b(1) foo(1)] by blast
      next
        case (Some bd)
        have "is_entry V s4 bd (S_IFREG + 0x1A4) No_inode_ops S2fs_fops \<and> keeps_entries V s3 s4
            \<and> s_root s4 = s_root s3 \<and> child V (vfs s4) = (child V (vfs s3))((fd, ''bar'') \<mapsto> bd)"
          using create_entry_Some[of "S_IFREG + 0x1A4" _ _ fd "''bar''" s3 bd s4] bar Some by (simp add: create_entry_eqs)
        then have b: "keeps_entries V s3 s4" "s_root s4 = Some rd" "is_entry V s4 bd (S_IFREG + 0x1A4) No_inode_ops S2fs_fops"
            "child V (vfs s4) = [(rd, ''foo'') \<mapsto> fd, (fd, ''bar'') \<mapsto> bd]"
          using foo(3,4) by simp_all
        show ?thesis unfolding s' using b(2-4) keeps_entriesD[OF b(1) root3] keeps_entriesD[OF b(1) foo(1)] by blast
      qed
    qed
  qed
qed

lemma fill_super_no_root:
  assumes "new_inode V (vfs s) = (Some i, v)" and "get_next_ino V v = (k, v1)" and "d_make_root V i v1 = (None, w)"
  shows "s2fs_fill_super V s = Inl RefUnderflow"
proof -
  have "refs V v1 i = 1" using new_inode_Some[OF assms(1)] next_ino[OF assms(2)] by simp
  then have "refs V w i = 0" using make_root_None[OF assms(3)] by simp
  then show ?thesis using iput_unreferenced assms by (simp add: s2fs_fill_super_def s2fs_make_inode_def set_ops_def)
qed

end

text \<open>
  C31. Every successful mount has the intended tree, or a prefix of it where an allocation failed: a
  root directory with mode 0755, in it nothing or the directory \<open>foo\<close> with mode 0777, in that
  nothing or the file \<open>bar\<close> with mode 0644 and the file system's own operations.
\<close>

theorem s2fs_mounted_tree:
  assumes "vfs_lib V" and "s2fs_fill_super V s = Inr (0, s')" and "child V (vfs s) = (\<lambda>_. None)"
  shows "\<exists>rd. s_root s' = Some rd \<and> is_entry V s' rd (S_IFDIR + 0x1ED) Simple_dir_inode_operations Simple_dir_operations
    \<and> (child V (vfs s') = (\<lambda>_. None) \<or>
       (\<exists>fd. is_entry V s' fd (S_IFDIR + 0x1FF) Simple_dir_inode_operations Simple_dir_operations
          \<and> (child V (vfs s') = [(rd, ''foo'') \<mapsto> fd] \<or>
             (\<exists>bd. is_entry V s' bd (S_IFREG + 0x1A4) No_inode_ops S2fs_fops
                \<and> child V (vfs s') = [(rd, ''foo'') \<mapsto> fd, (fd, ''bar'') \<mapsto> bd]))))"
  using vfs_lib.fill_super_tree[OF assms] .

definition sb0 :: "bool list \<Rightarrow> ref_vfs sb" where
  "sb0 script = \<lparr>vfs = \<lparr>r_script = script, r_next = 1, r_refs = (\<lambda>_. 0), r_inode = (\<lambda>_. None),
     r_place = (\<lambda>_. None), r_child = (\<lambda>_. None)\<rparr>, inodes = (\<lambda>_. None), s_magic = 0, s_root = None\<rparr>"

lemmas sb0_run = sb0_def s2fs_fill_super_def s2fs_make_inode_def s2fs_create_dir_def s2fs_create_file_def
  set_ops_def ref_vfs_ops_def ref_alloc_def Let_def

theorem s2fs_mounted_tree_witness:
  "\<exists>s' rd. s2fs_fill_super ref_vfs_ops (sb0 (replicate 6 True)) = Inr (0, s') \<and> s_root s' = Some rd
     \<and> is_entry ref_vfs_ops s' rd (S_IFDIR + 0x1ED) Simple_dir_inode_operations Simple_dir_operations"
proof -
  have "\<exists>s'. s2fs_fill_super ref_vfs_ops (sb0 (replicate 6 True)) = Inr (0, s')"
    by (simp add: sb0_run numeral_eq_Suc)
  then obtain s' where s': "s2fs_fill_super ref_vfs_ops (sb0 (replicate 6 True)) = Inr (0, s')" by blast
  have "child ref_vfs_ops (vfs (sb0 (replicate 6 True))) = (\<lambda>_. None)" by (simp add: sb0_def ref_vfs_ops_def)
  from s2fs_mounted_tree[OF ref_vfs.vfs_lib_axioms s' this] s' show ?thesis by blast
qed

text \<open>
  C32. When the root dentry cannot be made, the root inode is put twice: \<open>d_make_root\<close> has already
  dropped the only reference, and the error path drops it again.
\<close>

theorem s2fs_double_iput:
  assumes "vfs_lib V" and "new_inode V (vfs s) = (Some i, v)" and "get_next_ino V v = (k, v1)"
    and "d_make_root V i v1 = (None, w)"
  shows "s2fs_fill_super V s = Inl RefUnderflow"
  using vfs_lib.fill_super_no_root[OF assms] .

theorem s2fs_double_iput_witness: "s2fs_fill_super ref_vfs_ops (sb0 [True, False]) = Inl RefUnderflow"
  by (rule s2fs_double_iput[OF ref_vfs.vfs_lib_axioms])
    (simp_all add: sb0_def ref_vfs_ops_def ref_alloc_def Let_def, simp add: numeral_eq_Suc)

section \<open>Reading the file\<close>

text \<open>
  C33. A reader gets the whole greeting only with a buffer of at least its 13 bytes: with a smaller
  one the first read returns the beginning, but moves the offset by the whole length, and the next
  read reports the end of the file. Writing accepts nothing.
\<close>

theorem s2fs_read_all:
  "read_all (Suc (Suc fuel)) n 0 = Some (take (unat n) hello) \<and> s2fs_write_file n off = (0, off)"
proof -
  have "min (uint n) 13 = 0 \<longleftrightarrow> n = 0" by (auto simp: min_def uint_0_iff)
  moreover have "take (unat n) hello = []" if "n = 0" using that by simp
  ultimately show ?thesis by (simp add: read_at_start read_at_end s2fs_write_file_def)
qed

end
