(* ===== verification/S2fs_Mount.thy ===== *)
theory S2fs_Mount
  imports S2fs_Properties
begin

text \<open>
  How the kernel comes to the simple file system (Assignment 5, \<open>s2fs.c\<close>): the module registers its
  file system type, and a mount of that type builds the tree. The kernel's list of types and
  \<open>mount_nodev\<close> are parameters.
\<close>

section \<open>The kernel's side\<close>

text \<open>A mount ends with a fault, an error code, or the super block.\<close>

type_synonym 'v fill = "'v sb \<Rightarrow> (int \<times> 'v sb) res"
type_synonym 'v mounted = "(int + 'v sb) res"

record 'v fs_type =
  fs_name :: string
  fs_mount :: "'v sb option \<Rightarrow> 'v mounted"

record ('v, 'k) fs_core =
  register_filesystem :: "'v fs_type \<Rightarrow> 'k \<Rightarrow> int \<times> 'k"
  unregister_filesystem :: "'v fs_type \<Rightarrow> 'k \<Rightarrow> 'k"
  find_filesystem :: "'k \<Rightarrow> string \<Rightarrow> 'v fs_type option"
  mount_nodev :: "'v fill \<Rightarrow> 'v sb option \<Rightarrow> 'v mounted"

text \<open>
  A name can be registered once; \<open>mount_nodev\<close> fills the new super block, if it got one, and
  succeeds when the filling function returns 0.
\<close>

definition EBUSY :: int where "EBUSY = 16"

locale fs_lib =
  fixes C :: "('v, 'k) fs_core"
  assumes register_new: "find_filesystem C k (fs_name t) = None \<Longrightarrow>
      \<exists>k'. register_filesystem C t k = (0, k') \<and> find_filesystem C k' = (find_filesystem C k)(fs_name t \<mapsto> t)"
    and register_again: "find_filesystem C k (fs_name t) \<noteq> None \<Longrightarrow> register_filesystem C t k = (- EBUSY, k)"
    and unregister: "find_filesystem C k (fs_name t) = Some t \<Longrightarrow>
      find_filesystem C (unregister_filesystem C t k) = (find_filesystem C k)(fs_name t := None)"
    and mount_ok: "mount_nodev C fill b = Inr (Inr s') \<Longrightarrow> \<exists>s. b = Some s \<and> fill s = Inr (0, s')"
    and mount_fails: "fill s = Inr (- e, s') \<Longrightarrow> e \<noteq> 0 \<Longrightarrow> mount_nodev C fill (Some s) = Inr (Inl (- e))"

definition ref_core :: "('v, string \<Rightarrow> 'v fs_type option) fs_core" where
  "ref_core =
     \<lparr>register_filesystem = (\<lambda>t k. if k (fs_name t) = None then (0, k(fs_name t \<mapsto> t)) else (- EBUSY, k)),
      unregister_filesystem = (\<lambda>t k. k(fs_name t := None)),
      find_filesystem = (\<lambda>k. k),
      mount_nodev = (\<lambda>fill b. case b of None \<Rightarrow> Inr (Inl (- ENOMEM))
        | Some s \<Rightarrow> rbind (fill s) (\<lambda>(e, s'). Inr (if e = 0 then Inr s' else Inl e)))\<rparr>"

interpretation ref_core: fs_lib ref_core
  by unfold_locales (auto simp: ref_core_def rbind_eq_Inr split: option.splits if_splits)

section \<open>The module\<close>

definition s2fs_get_super :: "('v, 'k) fs_core \<Rightarrow> 'v vfs_ops \<Rightarrow> 'v sb option \<Rightarrow> 'v mounted" where
  "s2fs_get_super C V = mount_nodev C (s2fs_fill_super V)"

definition s2fs_type :: "('v, 'k) fs_core \<Rightarrow> 'v vfs_ops \<Rightarrow> 'v fs_type" where
  "s2fs_type C V = \<lparr>fs_name = ''s2fs'', fs_mount = s2fs_get_super C V\<rparr>"

definition s2fs_init :: "('v, 'k) fs_core \<Rightarrow> 'v vfs_ops \<Rightarrow> 'k \<Rightarrow> int \<times> 'k" where
  "s2fs_init C V = register_filesystem C (s2fs_type C V)"

definition s2fs_exit :: "('v, 'k) fs_core \<Rightarrow> 'v vfs_ops \<Rightarrow> 'k \<Rightarrow> 'k" where
  "s2fs_exit C V = unregister_filesystem C (s2fs_type C V)"

context fs_lib
begin

text \<open>Loaded once, the type is found under its name; a second load is refused; unloading undoes the first.\<close>

lemma s2fs_load:
  assumes "find_filesystem C k ''s2fs'' = None"
  shows "\<exists>k'. s2fs_init C V k = (0, k') \<and> find_filesystem C k' ''s2fs'' = Some (s2fs_type C V)
    \<and> s2fs_init C V k' = (- EBUSY, k') \<and> find_filesystem C (s2fs_exit C V k') = find_filesystem C k"
proof -
  have n: "fs_name (s2fs_type C V) = ''s2fs''" by (simp add: s2fs_type_def)
  obtain k' where k': "register_filesystem C (s2fs_type C V) k = (0, k')"
      "find_filesystem C k' = (find_filesystem C k)(''s2fs'' \<mapsto> s2fs_type C V)"
    using register_new[of k "s2fs_type C V"] assms n by auto
  have "find_filesystem C (unregister_filesystem C (s2fs_type C V) k') = find_filesystem C k"
    using unregister[of k' "s2fs_type C V"] k'(2) n assms by (simp add: fun_upd_idem)
  then show ?thesis using k' register_again[of k' "s2fs_type C V"] n by (simp add: s2fs_init_def s2fs_exit_def)
qed

text \<open>What a successful mount of the type has done, and what an unsuccessful filling returns.\<close>

lemma s2fs_mount_ok:
  "fs_mount (s2fs_type C V) b = Inr (Inr s') \<Longrightarrow> \<exists>s. b = Some s \<and> s2fs_fill_super V s = Inr (0, s')"
  using mount_ok by (auto simp: s2fs_type_def s2fs_get_super_def)

lemma s2fs_mount_no_memory:
  assumes "new_inode V (vfs s) = (None, v)"
  shows "fs_mount (s2fs_type C V) (Some s) = Inr (Inl (- ENOMEM))"
  using assms mount_fails[of "s2fs_fill_super V" s ENOMEM]
  by (simp add: s2fs_type_def s2fs_get_super_def s2fs_fill_super_def s2fs_make_inode_def ENOMEM_def)

end

section \<open>From loading to mounting\<close>

text \<open>
  After loading, the kernel finds the type under its name, and whatever it mounts with that type has
  the root directory with its mode and operations; when there is no inode for it the mount returns
  \<open>-ENOMEM\<close>. Loading twice is refused, unloading restores the kernel's list.
\<close>

theorem s2fs_life:
  assumes "fs_lib C" and "vfs_lib V" and "find_filesystem C k ''s2fs'' = None"
  shows "\<exists>k' t. s2fs_init C V k = (0, k') \<and> find_filesystem C k' ''s2fs'' = Some t \<and>
    (\<forall>s s'. child V (vfs s) = (\<lambda>_. None) \<longrightarrow> fs_mount t (Some s) = Inr (Inr s') \<longrightarrow>
       (\<exists>rd. s_root s' = Some rd \<and> is_entry V s' rd (S_IFDIR + 0x1ED) Simple_dir_inode_operations Simple_dir_operations)) \<and>
    (\<forall>s v. new_inode V (vfs s) = (None, v) \<longrightarrow> fs_mount t (Some s) = Inr (Inl (- ENOMEM))) \<and>
    s2fs_init C V k' = (- EBUSY, k') \<and> find_filesystem C (s2fs_exit C V k') = find_filesystem C k"
proof -
  have "\<exists>rd. s_root s' = Some rd \<and> is_entry V s' rd (S_IFDIR + 0x1ED) Simple_dir_inode_operations Simple_dir_operations"
    if "child V (vfs s) = (\<lambda>_. None)" "fs_mount (s2fs_type C V) (Some s) = Inr (Inr s')" for s s'
    using fs_lib.s2fs_mount_ok[OF assms(1) that(2)] vfs_lib.fill_super_tree[OF assms(2) _ that(1)] by blast
  then show ?thesis
    using fs_lib.s2fs_load[OF assms(1,3), of V] fs_lib.s2fs_mount_no_memory[OF assms(1), of V] by blast
qed

theorem s2fs_life_witness:
  "\<exists>k' t. s2fs_init ref_core ref_vfs_ops (\<lambda>_. None) = (0, k') \<and> find_filesystem ref_core k' ''s2fs'' = Some t \<and>
    fs_mount t (Some (sb0 [False])) = Inr (Inl (- ENOMEM))"
proof -
  have "new_inode ref_vfs_ops (vfs (sb0 [False])) = (None, vfs (sb0 [False])\<lparr>r_script := [], r_next := 2\<rparr>)"
    by (simp add: sb0_run numeral_eq_Suc)
  then show ?thesis
    using s2fs_life[OF ref_core.fs_lib_axioms ref_vfs.vfs_lib_axioms, of "\<lambda>_. None"] by (auto simp: ref_core_def)
qed

end
