(* ===== verification/Encrypt.thy ===== *)
theory Encrypt
  imports CString
begin

text \<open>
  The system call of Assignment 1 (\<open>syscall.patch\<close>, \<open>kernel/encrypt.c\<close>): it copies a string from
  the user, adds the key to every character and prints the result; and the program that calls it
  (\<open>syscall/runner.c\<close>). What \<open>strnlen_user\<close>, \<open>kmalloc\<close>, \<open>copy_from_user\<close> and \<open>getopt\<close> deliver are
  arguments.
\<close>

section \<open>The system call\<close>

definition EINVAL :: int where "EINVAL = 22"
definition EFAULT_c :: int where "EFAULT_c = 14"
definition STR_MAX :: nat where "STR_MAX = 256"

text \<open>\<open>input[i] + key\<close>, stored in a \<open>char\<close>.\<close>

definition shift_char :: "int \<Rightarrow> char \<Rightarrow> char" where
  "shift_char key c = char_of (nat ((int (char_code c) + key) mod 256))"

text \<open>The loop up to the terminating NUL; without one it runs out of the buffer.\<close>

fun shift_loop :: "int \<Rightarrow> char list \<Rightarrow> char list res" where
  "shift_loop key [] = Inl OutOfBounds"
| "shift_loop key (c # cs) =
     (if c = NUL then Inr (c # cs)
      else rbind (shift_loop key cs) (\<lambda>cs'. Inr (shift_char key c # cs')))"

text \<open>What the call returns, what it prints, and whether its buffer stays allocated.\<close>

record encrypted =
  code :: int
  printed :: "string option"
  leaked :: bool

text \<open>
  \<open>len\<close> is the length \<open>strnlen_user\<close> reports, with the NUL; \<open>copied\<close> what \<open>copy_from_user\<close> fills
  the buffer with (\<open>None\<close>: it fails), which is a second look at the user's memory.
\<close>

definition s2_encrypt :: "nat \<Rightarrow> bool \<Rightarrow> char list option \<Rightarrow> int \<Rightarrow> encrypted res" where
  "s2_encrypt len alloc copied key =
     (if len > STR_MAX then Inr \<lparr>code = - EINVAL, printed = None, leaked = False\<rparr>
      else if \<not> alloc then Inl NullDeref
      else
        (case copied of
           None \<Rightarrow> Inr \<lparr>code = - EFAULT_c, printed = None, leaked = True\<rparr>
         | Some input \<Rightarrow>
             rbind (array_read input 0) (\<lambda>c.
             if c = NUL \<or> key < 1 \<or> key > 5 then Inr \<lparr>code = - EINVAL, printed = None, leaked = True\<rparr>
             else rbind (shift_loop key input) (\<lambda>input.
               Inr \<lparr>code = 0, printed = Some (cstr_of input), leaked = False\<rparr>))))"

section \<open>What it does\<close>

lemma shift_loop_string:
  "is_cstr s \<Longrightarrow> shift_loop key (s @ [NUL]) = Inr (map (shift_char key) s @ [NUL])"
  by (induction s) (auto simp: is_cstr_def)

lemma shift_loop_unterminated: "NUL \<notin> set input \<Longrightarrow> shift_loop key input = Inl OutOfBounds"
  by (induction input) auto

lemma char_code_of: "n < 256 \<Longrightarrow> char_code (char_of n) = n"
  by (simp add: char_code_def)

lemma shift_char_code:
  "1 \<le> key \<Longrightarrow> key \<le> 5 \<Longrightarrow> char_code c < 251 \<Longrightarrow> int (char_code (shift_char key c)) = int (char_code c) + key"
  by (simp add: shift_char_def char_code_of nat_less_iff)

lemma shift_string_cstr:
  assumes "1 \<le> key" "key \<le> 5" "\<forall>c \<in> set s. char_code c < 251"
  shows "is_cstr (map (shift_char key) s)"
proof -
  have "shift_char key c \<noteq> NUL" if "c \<in> set s" for c
  proof
    assume "shift_char key c = NUL"
    then have "char_code (shift_char key c) = 0" by (simp add: char_code_def)
    then show False using shift_char_code[of key c] assms that by auto
  qed
  then show ?thesis by (induction s) auto
qed

lemma encrypt_string:
  assumes "is_cstr s" and "length s < STR_MAX"
  shows "s2_encrypt (Suc (length s)) True (Some (s @ [NUL])) key =
      Inr (if s = [] \<or> key < 1 \<or> key > 5 then \<lparr>code = - EINVAL, printed = None, leaked = True\<rparr>
           else \<lparr>code = 0, printed = Some (cstr_of (map (shift_char key) s)), leaked = False\<rparr>)"
proof (cases s)
  case Nil
  then show ?thesis by (simp add: s2_encrypt_def array_read_def STR_MAX_def)
next
  case (Cons c cs)
  then have c: "c \<noteq> NUL" "array_read (s @ [NUL]) 0 = Inr c"
    using assms(1) by (auto simp: is_cstr_def array_read_def)
  have "cstr_of (xs @ [NUL]) = cstr_of xs" for xs
    by (simp add: cstr_of_def takeWhile_tail)
  then have "s2_encrypt (Suc (length s)) True (Some (s @ [NUL])) key =
      Inr (if key < 1 \<or> key > 5 then \<lparr>code = - EINVAL, printed = None, leaked = True\<rparr>
           else \<lparr>code = 0, printed = Some (cstr_of (map (shift_char key) s)), leaked = False\<rparr>)"
    using c assms(2) shift_loop_string[OF assms(1), of key] by (simp add: s2_encrypt_def)
  then show ?thesis using Cons by simp
qed

lemma encrypt_unterminated:
  assumes "1 \<le> key" "key \<le> 5" "NUL \<notin> set input" "length input \<le> STR_MAX"
  shows "s2_encrypt (length input) True (Some input) key = Inl OutOfBounds"
proof (cases input)
  case (Cons c cs)
  then have "array_read input 0 = Inr c" "c \<noteq> NUL" using assms(3) by (auto simp: array_read_def)
  then show ?thesis using assms shift_loop_unterminated[of input key] by (simp add: s2_encrypt_def)
qed (simp add: s2_encrypt_def array_read_def)

text \<open>
  C39. For every key and every string of fewer than 256 characters that stays the same between the
  two looks at it: an empty string or a key outside 1 to 5 gives EINVAL and leaves the buffer
  allocated; otherwise the call returns 0 and prints the string with the key added to every
  character modulo 256, up to the first that becomes NUL - the whole string when all its
  characters are below 251. For every key: a string that is too long gives EINVAL before a buffer
  is allocated, a failing copy gives EFAULT and leaves the buffer allocated, and a failing
  allocation is written through unchecked. A string without a NUL in the second look makes the
  loop run out of the buffer when the key is valid.
\<close>

theorem encrypt_result:
  assumes "is_cstr s" and "length s < STR_MAX" and "len \<le> STR_MAX" and "STR_MAX < big"
  shows "s2_encrypt (Suc (length s)) True (Some (s @ [NUL])) key =
      Inr (if s = [] \<or> key < 1 \<or> key > 5 then \<lparr>code = - EINVAL, printed = None, leaked = True\<rparr>
           else \<lparr>code = 0, printed = Some (cstr_of (map (shift_char key) s)), leaked = False\<rparr>)
    \<and> (1 \<le> key \<and> key \<le> 5 \<and> (\<forall>c \<in> set s. char_code c < 251) \<longrightarrow>
        cstr_of (map (shift_char key) s) = map (shift_char key) s \<and>
        (\<forall>i < length s. int (char_code (map (shift_char key) s ! i)) = int (char_code (s ! i)) + key))
    \<and> s2_encrypt big alloc copied key = Inr \<lparr>code = - EINVAL, printed = None, leaked = False\<rparr>
    \<and> s2_encrypt len True None key = Inr \<lparr>code = - EFAULT_c, printed = None, leaked = True\<rparr>
    \<and> s2_encrypt len False copied key = Inl NullDeref
    \<and> (1 \<le> key \<and> key \<le> 5 \<and> NUL \<notin> set input \<and> length input = len \<longrightarrow>
        s2_encrypt len True (Some input) key = Inl OutOfBounds)"
proof (intro conjI impI)
  show "cstr_of (map (shift_char key) s) = map (shift_char key) s"
    if "1 \<le> key \<and> key \<le> 5 \<and> (\<forall>c \<in> set s. char_code c < 251)"
    using shift_string_cstr[of key s] that by simp
  show "\<forall>i < length s. int (char_code (map (shift_char key) s ! i)) = int (char_code (s ! i)) + key"
    if "1 \<le> key \<and> key \<le> 5 \<and> (\<forall>c \<in> set s. char_code c < 251)"
    using shift_char_code that by simp
  show "s2_encrypt len True (Some input) key = Inl OutOfBounds"
    if "1 \<le> key \<and> key \<le> 5 \<and> NUL \<notin> set input \<and> length input = len"
    using encrypt_unterminated[of key input] assms(3) that by simp
qed (use assms encrypt_string in \<open>simp_all add: s2_encrypt_def\<close>)

theorem encrypt_result_witness:
  "s2_encrypt 4 True (Some (''abz'' @ [NUL])) 2 = Inr \<lparr>code = 0, printed = Some ''cd|'', leaked = False\<rparr>
   \<and> s2_encrypt 4 True (Some (''ab'' @ [CHR 0xFE] @ [NUL])) 2 = Inr \<lparr>code = 0, printed = Some ''cd'', leaked = False\<rparr>
   \<and> s2_encrypt 4 True None 9 = Inr \<lparr>code = - EFAULT_c, printed = None, leaked = True\<rparr>"
proof -
  have "cstr_of (map (shift_char 2) ''abz'') = ''cd|''" "cstr_of (map (shift_char 2) (''ab'' @ [CHR 0xFE])) = ''cd''"
    by code_simp+
  moreover have "is_cstr ''abz''" "is_cstr (''ab'' @ [CHR 0xFE])" by (simp_all add: is_cstr_def)
  moreover have "length ''abz'' < STR_MAX" "length (''ab'' @ [CHR 0xFE]) < STR_MAX" "(4::nat) \<le> STR_MAX" "STR_MAX < 257"
    by (simp_all add: STR_MAX_def)
  moreover have "Suc (length ''abz'') = 4" "Suc (length (''ab'' @ [CHR 0xFE])) = 4" by simp_all
  ultimately show ?thesis
    using encrypt_result[of "''abz''" 4 257 2, THEN conjunct1] encrypt_result[of "''ab'' @ [CHR 0xFE]" 4 257 2, THEN conjunct1]
      encrypt_result[of "''abz''" 4 257 9, THEN conjunct2, THEN conjunct2, THEN conjunct2, THEN conjunct1]
    by (simp del: list.size list.map append.simps append_Cons)
qed

section \<open>The test program\<close>

text \<open>What \<open>getopt(argc, argv, "s:k:")\<close> returns, in order.\<close>

datatype opt = Opt_k string | Opt_s string | Opt_unknown

text \<open>
  The variables of \<open>main\<close> of \<open>runner.c\<close>: the array \<open>str\<close> of 100 bytes (\<open>None\<close>: not written) and
  \<open>key\<close>. \<open>strcpy\<close> has no bound.
\<close>

fun runner_opt :: "opt \<Rightarrow> string option \<times> int \<Rightarrow> (string option \<times> int) res" where
  "runner_opt (Opt_k optarg) (str, key) = Inr (str, atoi optarg)"
| "runner_opt (Opt_s optarg) (str, key) = (if length optarg < 100 then Inr (Some optarg, key) else Inl OutOfBounds)"
| "runner_opt Opt_unknown (str, key) = Inr (str, key)"

text \<open>
  After the options: the system call on the string, whose length \<open>strnlen_user\<close> reports with the
  NUL; without \<open>-s\<close> it works on what the array happened to hold.
\<close>

definition runner_main :: "string \<Rightarrow> bool \<Rightarrow> opt list \<Rightarrow> encrypted res" where
  "runner_main stack alloc opts =
     rbind (iter_res runner_opt opts (None, 0)) (\<lambda>(str, key).
     let s = (case str of None \<Rightarrow> stack | Some s \<Rightarrow> s) in
     s2_encrypt (Suc (length s)) alloc (Some (s @ [NUL])) key)"

text \<open>
  Run with a string of fewer than 100 characters and a key from 1 to 5 written in decimal, in
  either order, the test program gets the string printed with the key added to each character; a
  longer string is copied past the end of its array.
\<close>

theorem runner_encrypts:
  assumes "is_cstr s" and "s \<noteq> []" and "\<forall>c \<in> set s. char_code c < 251" and "1 \<le> key" and "key \<le> 5"
    and "opts = [Opt_s s, Opt_k (show_int key)] \<or> opts = [Opt_k (show_int key), Opt_s s]"
  shows "runner_main stack True opts =
     (if length s < 100 then Inr \<lparr>code = 0, printed = Some (map (shift_char key) s), leaked = False\<rparr>
      else Inl OutOfBounds)"
proof -
  have k: "atoi (show_int key) = key" using atoi_show_nat[of "nat key"] assms(4) by (simp add: show_int_def)
  have o: "iter_res runner_opt opts (None, 0) = (if length s < 100 then Inr (Some s, key) else Inl OutOfBounds)"
    using assms(6) k by auto
  have loop: "shift_loop key (s @ [NUL]) = Inr (map (shift_char key) s @ [NUL])"
    by (rule shift_loop_string[OF assms(1)])
  have out: "cstr_of (map (shift_char key) s @ [NUL]) = map (shift_char key) s"
    using shift_string_cstr[OF assms(4,5,3)] by simp
  obtain c cs where s: "s = c # cs" using assms(2) by (cases s) auto
  have first: "array_read (s @ [NUL]) 0 = Inr c" "c \<noteq> NUL"
    using assms(1) unfolding s by (auto simp: array_read_def is_cstr_def)
  have call: "s2_encrypt (Suc (length s)) True (Some (s @ [NUL])) key =
      Inr \<lparr>code = 0, printed = Some (map (shift_char key) s), leaked = False\<rparr>" if "length s < 100"
    using that first assms(4,5) unfolding s2_encrypt_def STR_MAX_def
    by (simp only: option.case rbind_simps loop out) simp
  show ?thesis unfolding runner_main_def o using call by simp
qed

theorem runner_encrypts_witness:
  "runner_main [] True [Opt_s ''abc'', Opt_k (show_int 3)] =
     Inr \<lparr>code = 0, printed = Some ''def'', leaked = False\<rparr>"
proof -
  have "map (shift_char 3) ''abc'' = ''def''" by code_simp
  then show ?thesis
    using runner_encrypts[of "''abc''" 3 "[Opt_s ''abc'', Opt_k (show_int 3)]" "[]"]
    by (simp add: is_cstr_def char_code_def)
qed

end
